theory Spec2Isabelle
  imports Main "HOL-Library.Word" "HOL-Library.Sublist"
begin

unbundle bit_operations_syntax

section \<open>Results of Go calls\<close>

text \<open>
  A Go call either returns, panics or does not return at all.  The only panic the table code
  can raise is the runtime's index-out-of-range panic of a slice access.  A result is
  \<open>None\<close> when the call does not return, \<open>Some (Inl e)\<close> when it panics and
  \<open>Some (Inr x)\<close> when it returns \<open>x\<close>.
\<close>

datatype error = IndexOutOfRange

type_synonym 'a result = "(error + 'a) option"

definition bindR :: "'a result \<Rightarrow> ('a \<Rightarrow> 'b result) \<Rightarrow> 'b result" where
  "bindR r f = (case r of None \<Rightarrow> None | Some (Inl e) \<Rightarrow> Some (Inl e) | Some (Inr x) \<Rightarrow> f x)"

text \<open>A \<open>for _, entry := range entries\<close> loop whose body may panic or diverge.\<close>

fun foldR :: "('s \<Rightarrow> 'e \<Rightarrow> 's result) \<Rightarrow> 'e list \<Rightarrow> 's \<Rightarrow> 's result" where
  "foldR f [] s = Some (Inr s)"
| "foldR f (x # xs) s = bindR (f s x) (foldR f xs)"

lemma bindR_mono [partial_function_mono]:
  assumes mf: "mono_option B" and mg: "\<And>y. mono_option (\<lambda>f. C y f)"
  shows "mono_option (\<lambda>f. bindR (B f) (\<lambda>y. C y f))"
proof -
  have eq: "\<And>f. bindR (B f) (\<lambda>y. C y f)
      = Option.bind (B f) (\<lambda>r. case r of Inl e \<Rightarrow> Some (Inl e) | Inr x \<Rightarrow> C x f)"
    by (auto simp: bindR_def split: option.splits sum.splits)
  have "mono_option (\<lambda>f. case r of Inl e \<Rightarrow> Some (Inl e) | Inr x \<Rightarrow> C x f)" for r
    by (cases r) (simp_all add: mg option.const_mono)
  then show ?thesis unfolding eq
    by (intro bind_mono mf)
qed

lemma foldR_mono [partial_function_mono]:
  assumes "\<And>s x. mono_option (\<lambda>f. B f s x)"
  shows "mono_option (\<lambda>f. foldR (B f) xs s)"
proof (induction xs arbitrary: s)
  case Nil
  show ?case by (simp add: option.const_mono)
next
  case (Cons x xs)
  show ?case by (simp, intro bindR_mono assms Cons)
qed

section \<open>Constants and data (map.go, set.go)\<close>

definition fullBit :: "64 word" where
  "fullBit = push_bit 63 1"

definition initialCapacity :: nat where
  "initialCapacity = 16"

text \<open>
  \<open>setEntry\<close> has the fields \<open>hash1\<close> and \<open>key\<close>; \<open>mapEntry\<close> has the same two
  fields followed by \<open>value\<close> (here \<open>valuef\<close>).  The second record extends the first so that
  the probing loop, which reads only \<open>hash1\<close> and \<open>key\<close>, is written once for both.
  The Go field \<open>size\<close> is \<open>sizef\<close>.  A \<open>nil\<close> slice is the empty list: the code never
  makes an empty slice that is not \<open>nil\<close>.  Go's \<open>int\<close> is 64 bits wide and a slice of
  \<open>2^61\<close> entries does not fit in memory, so \<open>2 * len\<close> and \<open>3 * len\<close> do not overflow and
  \<open>size\<close> and lengths are unbounded integers.  The zero value of a key or value type is
  \<open>0\<close> of class \<open>zero\<close>.  \<open>Equals\<close> of a key type is equality of the keys.
\<close>

record 'k setEntry =
  hash1 :: "64 word"
  key :: 'k

record ('k, 'v) mapEntry = "'k setEntry" +
  valuef :: 'v

record 'e Table =
  entries :: "'e list"
  sizef :: int

type_synonym ('k, 'v) Map = "('k, 'v) mapEntry Table"

record 'k HSet = "'k setEntry Table" +
  hash :: "64 word"

definition zeroMapEntry :: "('k::zero, 'v::zero) mapEntry" where
  "zeroMapEntry = \<lparr>hash1 = 0, key = 0, valuef = 0\<rparr>"

definition zeroSetEntry :: "('k::zero) setEntry" where
  "zeroSetEntry = \<lparr>hash1 = 0, key = 0\<rparr>"

definition zeroMap :: "('k::zero, 'v::zero) Map" where
  "zeroMap = \<lparr>entries = [], sizef = 0\<rparr>"

definition zeroSet :: "('k::zero) HSet" where
  "zeroSet = \<lparr>entries = [], sizef = 0, hash = 0\<rparr>"

section \<open>The probing loop\<close>

text \<open>\<open>uint64(len(entries)-1)\<close>: for a \<open>nil\<close> slice this is \<open>2^64 - 1\<close>.\<close>

definition lenMask :: "'e list \<Rightarrow> 64 word" where
  "lenMask es = word_of_int (int (length es) - 1)"

text \<open>
  The loop \<open>entry := entries[index]; for entry.hash1 != 0 { if entry.hash1 == hash1 &&
  entry.key.Equals(key) { ... return }; index = (index + 1) & uint64(len(entries)-1);
  entry = entries[index] }\<close> of \<open>Map.Get\<close>, \<open>Map.putHash1\<close>, \<open>Map.Remove\<close>,
  \<open>Set.containsHash1Key\<close>, \<open>Set.addHash1Key\<close> and \<open>Set.removeHash1Key\<close>.
  It returns the index it stops at and whether it stopped at a matching entry.
\<close>

partial_function (option) probe ::
  "('k, 'z) setEntry_scheme list \<Rightarrow> 64 word \<Rightarrow> 'k \<Rightarrow> 64 word \<Rightarrow> (64 word \<times> bool) result" where
  "probe es h k index =
     (if length es \<le> unat index then Some (Inl IndexOutOfRange)
      else if hash1 (es ! unat index) = 0 then Some (Inr (index, False))
      else if hash1 (es ! unat index) = h \<and> key (es ! unat index) = k then Some (Inr (index, True))
      else probe es h k ((index + 1) AND lenMask es))"

section \<open>Map (map.go)\<close>

definition Map_init :: "('k::zero, 'v::zero) Map \<Rightarrow> ('k, 'v) Map" where
  "Map_init m = m\<lparr>entries := replicate initialCapacity zeroMapEntry\<rparr>"

definition Map_Size :: "('k, 'v) Map \<Rightarrow> int" where
  "Map_Size m = sizef m"

definition Map_Get :: "('k \<Rightarrow> 64 word) \<Rightarrow> ('k, 'v::zero) Map \<Rightarrow> 'k \<Rightarrow> ('v \<times> bool) result" where
  "Map_Get H m k =
     (if sizef m = 0 then Some (Inr (0, False))
      else let h = H k OR fullBit in
        bindR (probe (entries m) h k (h AND lenMask (entries m))) (\<lambda>(index, found).
          if found then Some (Inr (valuef (entries m ! unat index), True))
          else Some (Inr (0, False))))"

definition Map_resizeWith ::
  "(('k::zero, 'v::zero) Map \<Rightarrow> 64 word \<Rightarrow> 'k \<Rightarrow> 'v \<Rightarrow> ('k, 'v) Map result)
    \<Rightarrow> ('k, 'v) Map \<Rightarrow> int \<Rightarrow> ('k, 'v) Map result" where
  "Map_resizeWith put m cap =
     foldR (\<lambda>m' entry. if hash1 entry \<noteq> 0 then put m' (hash1 entry) (key entry) (valuef entry)
                        else Some (Inr m'))
       (entries m) (m\<lparr>sizef := 0, entries := replicate (nat cap) zeroMapEntry\<rparr>)"

lemma Map_resizeWith_mono [partial_function_mono]:
  assumes "\<And>m h k v. mono_option (\<lambda>f. P f m h k v)"
  shows "mono_option (\<lambda>f. Map_resizeWith (P f) m cap)"
  unfolding Map_resizeWith_def
  by (intro partial_function_mono assms)

text \<open>
  In \<open>putHash1\<close> the matching case assigns to \<open>entry.value\<close>, and \<open>entry\<close> is a copy of the
  slot (\<open>entry := m.entries[index]\<close>): the map is returned as it was.
\<close>

partial_function (option) Map_putHash1 ::
  "('k::zero, 'v::zero) Map \<Rightarrow> 64 word \<Rightarrow> 'k \<Rightarrow> 'v \<Rightarrow> ('k, 'v) Map result" where
  "Map_putHash1 m h k v =
     bindR (probe (entries m) h k (h AND lenMask (entries m))) (\<lambda>(index, found).
       if found then Some (Inr m)
       else let m1 = m\<lparr>entries := (entries m)[unat index := \<lparr>hash1 = h, key = k, valuef = v\<rparr>],
                        sizef := sizef m + 1\<rparr> in
         if sizef m1 > 3 * int (length (entries m1)) div 4
         then Map_resizeWith (\<lambda>m' h' k' v'. Map_putHash1 m' h' k' v') m1 (int (length (entries m1)) * 2)
         else Some (Inr m1))"

definition Map_resize :: "('k::zero, 'v::zero) Map \<Rightarrow> int \<Rightarrow> ('k, 'v) Map result" where
  "Map_resize m cap = Map_resizeWith Map_putHash1 m cap"

definition Map_Put ::
  "('k \<Rightarrow> 64 word) \<Rightarrow> ('k::zero, 'v::zero) Map \<Rightarrow> 'k \<Rightarrow> 'v \<Rightarrow> ('k, 'v) Map result" where
  "Map_Put H m k v =
     (let m0 = (if entries m = [] then Map_init m else m) in
      Map_putHash1 m0 (H k OR fullBit) k v)"

text \<open>The inner loop of \<open>Remove\<close> (lines 106 to 112), entered at \<open>index\<close>.\<close>

partial_function (option) Map_repair ::
  "('k::zero, 'v::zero) Map \<Rightarrow> 64 word \<Rightarrow> ('k, 'v) Map result" where
  "Map_repair m index =
     (if length (entries m) \<le> unat index then Some (Inl IndexOutOfRange)
      else if hash1 (entries m ! unat index) = 0 then Some (Inr m)
      else let entry = entries m ! unat index;
               m1 = m\<lparr>entries := (entries m)[unat index := zeroMapEntry], sizef := sizef m - 1\<rparr> in
        bindR (Map_putHash1 m1 (hash1 entry) (key entry) (valuef entry)) (\<lambda>m2.
          Map_repair m2 ((index + 1) AND lenMask (entries m2))))"

definition Map_Remove ::
  "('k \<Rightarrow> 64 word) \<Rightarrow> ('k::zero, 'v::zero) Map \<Rightarrow> 'k \<Rightarrow> ('k, 'v) Map result" where
  "Map_Remove H m k =
     (if sizef m = 0 then Some (Inr m)
      else let h = H k OR fullBit in
        bindR (probe (entries m) h k (h AND lenMask (entries m))) (\<lambda>(index, found).
          if \<not> found then Some (Inr m)
          else let m1 = m\<lparr>entries := (entries m)[unat index := zeroMapEntry], sizef := sizef m - 1\<rparr> in
            if int (length (entries m1)) > int initialCapacity
               \<and> sizef m1 < int (length (entries m1)) div 4
            then Map_resize m1 (int (length (entries m1)) div 2)
            else Map_repair m1 ((index + 1) AND lenMask (entries m1))))"

text \<open>
  The visitor is a Go closure: it may read and change state of its own, here \<open>'s\<close>, and returns
  an error (\<open>None\<close> is \<open>nil\<close>).  In \<open>Map_ForEach\<close> and \<open>Set_ForEach\<close> the visitor does not
  change the container it is visiting; a visitor that does is followed in the section on
  \<open>ForEach\<close> with the container in a store.
\<close>

fun Map_ForEach_loop ::
  "('k \<Rightarrow> 'v \<Rightarrow> 's \<Rightarrow> 'x option \<times> 's) \<Rightarrow> ('k, 'v) mapEntry list \<Rightarrow> 's \<Rightarrow> 'x option \<times> 's" where
  "Map_ForEach_loop f [] s = (None, s)"
| "Map_ForEach_loop f (entry # es) s =
     (if hash1 entry \<noteq> 0
      then (case f (key entry) (valuef entry) s of
              (Some err, s') \<Rightarrow> (Some err, s')
            | (None, s') \<Rightarrow> Map_ForEach_loop f es s')
      else Map_ForEach_loop f es s)"

definition Map_ForEach ::
  "('k, 'v) Map \<Rightarrow> ('k \<Rightarrow> 'v \<Rightarrow> 's \<Rightarrow> 'x option \<times> 's) \<Rightarrow> 's \<Rightarrow> 'x option \<times> 's" where
  "Map_ForEach m f s = Map_ForEach_loop f (entries m) s"

definition Map_Copy :: "('k::zero, 'v::zero) Map \<Rightarrow> ('k, 'v) Map" where
  "Map_Copy m = (if sizef m = 0 then zeroMap else \<lparr>entries = entries m, sizef = sizef m\<rparr>)"

section \<open>Set (set.go)\<close>

text \<open>
  \<open>emptySetHash\<close> is the package variable \<open>Int(0).Hash()\<close>, that is \<open>hash64bits(0)\<close>.
  \<open>hash64bits\<close> hashes with \<open>hash/maphash\<close> under a seed drawn at start-up: it is a parameter.
  The functions of the set that read the variable take its value as \<open>E\<close>.
\<close>

definition Int_Hash :: "(64 word \<Rightarrow> 64 word) \<Rightarrow> int \<Rightarrow> 64 word" where
  "Int_Hash hash64bits i = hash64bits (word_of_int i)"

definition emptySetHash :: "(64 word \<Rightarrow> 64 word) \<Rightarrow> 64 word" where
  "emptySetHash hash64bits = Int_Hash hash64bits 0"

definition Set_init :: "64 word \<Rightarrow> ('k::zero) HSet \<Rightarrow> 'k HSet" where
  "Set_init E s = s\<lparr>entries := replicate initialCapacity zeroSetEntry, hash := E\<rparr>"

definition Set_Size :: "'k HSet \<Rightarrow> int" where
  "Set_Size s = sizef s"

definition Set_containsHash1Key :: "'k HSet \<Rightarrow> 64 word \<Rightarrow> 'k \<Rightarrow> bool result" where
  "Set_containsHash1Key s h k =
     bindR (probe (entries s) h k (h AND lenMask (entries s))) (\<lambda>(index, found). Some (Inr found))"

definition Set_Contains :: "('k \<Rightarrow> 64 word) \<Rightarrow> 'k HSet \<Rightarrow> 'k \<Rightarrow> bool result" where
  "Set_Contains H s k =
     (if sizef s = 0 then Some (Inr False)
      else Set_containsHash1Key s (H k OR fullBit) k)"

definition Set_resizeWith ::
  "(('k::zero) HSet \<Rightarrow> 64 word \<Rightarrow> 'k \<Rightarrow> 'k HSet result) \<Rightarrow> 64 word \<Rightarrow> 'k HSet \<Rightarrow> int \<Rightarrow> 'k HSet result" where
  "Set_resizeWith add E s cap =
     foldR (\<lambda>s' entry. if hash1 entry \<noteq> 0 then add s' (hash1 entry) (key entry) else Some (Inr s'))
       (entries s) (s\<lparr>sizef := 0, hash := E, entries := replicate (nat cap) zeroSetEntry\<rparr>)"

lemma Set_resizeWith_mono [partial_function_mono]:
  assumes "\<And>s h k. mono_option (\<lambda>f. P f s h k)"
  shows "mono_option (\<lambda>f. Set_resizeWith (P f) E s cap)"
  unfolding Set_resizeWith_def
  by (intro partial_function_mono assms)

partial_function (option) Set_addHash1Key ::
  "64 word \<Rightarrow> ('k::zero) HSet \<Rightarrow> 64 word \<Rightarrow> 'k \<Rightarrow> 'k HSet result" where
  "Set_addHash1Key E s h k =
     (let s0 = (if entries s = [] then Set_init E s else s) in
      bindR (probe (entries s0) h k (h AND lenMask (entries s0))) (\<lambda>(index, found).
        if found then Some (Inr s0)
        else let s1 = s0\<lparr>entries := (entries s0)[unat index := \<lparr>hash1 = h, key = k\<rparr>],
                          sizef := sizef s0 + 1, hash := hash s0 XOR h\<rparr> in
          if sizef s1 > 3 * int (length (entries s1)) div 4
          then Set_resizeWith (\<lambda>s' h' k'. Set_addHash1Key E s' h' k') E s1 (int (length (entries s1)) * 2)
          else Some (Inr s1)))"

definition Set_Add :: "('k \<Rightarrow> 64 word) \<Rightarrow> 64 word \<Rightarrow> ('k::zero) HSet \<Rightarrow> 'k \<Rightarrow> 'k HSet result" where
  "Set_Add H E s k = Set_addHash1Key E s (H k OR fullBit) k"

definition Set_resize :: "64 word \<Rightarrow> ('k::zero) HSet \<Rightarrow> int \<Rightarrow> 'k HSet result" where
  "Set_resize E s cap = Set_resizeWith (Set_addHash1Key E) E s cap"

text \<open>The inner loop of \<open>removeHash1Key\<close>, entered at \<open>index\<close>.\<close>

partial_function (option) Set_repair ::
  "64 word \<Rightarrow> ('k::zero) HSet \<Rightarrow> 64 word \<Rightarrow> 'k HSet result" where
  "Set_repair E s index =
     (if length (entries s) \<le> unat index then Some (Inl IndexOutOfRange)
      else if hash1 (entries s ! unat index) = 0 then Some (Inr s)
      else let entry = entries s ! unat index;
               s1 = s\<lparr>entries := (entries s)[unat index := zeroSetEntry], sizef := sizef s - 1,
                      hash := hash s XOR hash1 entry\<rparr> in
        bindR (Set_addHash1Key E s1 (hash1 entry) (key entry)) (\<lambda>s2.
          Set_repair E s2 ((index + 1) AND lenMask (entries s2))))"

text \<open>
  Unlike \<open>Map.Remove\<close>, \<open>removeHash1Key\<close> has no \<open>return\<close> after the call of \<open>resize\<close>:
  the inner loop runs on the rebuilt table too.
\<close>

definition Set_removeHash1Key :: "64 word \<Rightarrow> ('k::zero) HSet \<Rightarrow> 64 word \<Rightarrow> 'k \<Rightarrow> 'k HSet result" where
  "Set_removeHash1Key E s h k =
     bindR (probe (entries s) h k (h AND lenMask (entries s))) (\<lambda>(index, found).
       if \<not> found then Some (Inr s)
       else let s1 = s\<lparr>entries := (entries s)[unat index := zeroSetEntry], sizef := sizef s - 1,
                        hash := hash s XOR h\<rparr> in
         bindR (if int (length (entries s1)) > int initialCapacity
                   \<and> sizef s1 < int (length (entries s1)) div 4
                then Set_resize E s1 (int (length (entries s1)) div 2)
                else Some (Inr s1)) (\<lambda>s2.
           Set_repair E s2 ((index + 1) AND lenMask (entries s2))))"

definition Set_Remove :: "('k \<Rightarrow> 64 word) \<Rightarrow> 64 word \<Rightarrow> ('k::zero) HSet \<Rightarrow> 'k \<Rightarrow> 'k HSet result" where
  "Set_Remove H E s k =
     (if sizef s = 0 then Some (Inr s)
      else Set_removeHash1Key E s (H k OR fullBit) k)"

fun Set_ForEach_loop ::
  "('k \<Rightarrow> 's \<Rightarrow> 'x option \<times> 's) \<Rightarrow> 'k setEntry list \<Rightarrow> 's \<Rightarrow> 'x option \<times> 's" where
  "Set_ForEach_loop f [] s = (None, s)"
| "Set_ForEach_loop f (entry # es) s =
     (if hash1 entry \<noteq> 0
      then (case f (key entry) s of
              (Some err, s') \<Rightarrow> (Some err, s')
            | (None, s') \<Rightarrow> Set_ForEach_loop f es s')
      else Set_ForEach_loop f es s)"

definition Set_ForEach :: "'k HSet \<Rightarrow> ('k \<Rightarrow> 's \<Rightarrow> 'x option \<times> 's) \<Rightarrow> 's \<Rightarrow> 'x option \<times> 's" where
  "Set_ForEach s f st = Set_ForEach_loop f (entries s) st"

definition Set_Copy :: "('k::zero) HSet \<Rightarrow> 'k HSet" where
  "Set_Copy s = (if sizef s = 0 then zeroSet
                 else \<lparr>entries = entries s, sizef = sizef s, hash = hash s\<rparr>)"

definition Set_Hash :: "64 word \<Rightarrow> 'k HSet \<Rightarrow> 64 word" where
  "Set_Hash E s = (if sizef s = 0 then E else hash s)"

text \<open>
  The binary operations that may exchange their operands: \<open>if len(s.entries) > len(t.entries)
  { s, t = t, s }\<close>.  The first component is the set whose backing array is scanned.
\<close>

definition swapByLen :: "'k HSet \<Rightarrow> 'k HSet \<Rightarrow> 'k HSet \<times> 'k HSet" where
  "swapByLen s t = (if length (entries s) > length (entries t) then (t, s) else (s, t))"

text \<open>The scan \<open>for _, entry := range s.entries\<close> of \<open>Equals\<close>, \<open>IsSubset\<close> and
  \<open>IsDisjoint\<close>: it returns \<open>false\<close> at the first live entry whose membership in \<open>t\<close> is
  \<open>hit\<close>, and \<open>true\<close> when there is none.\<close>

fun Set_scan :: "bool \<Rightarrow> 'k HSet \<Rightarrow> 'k setEntry list \<Rightarrow> bool result" where
  "Set_scan hit t [] = Some (Inr True)"
| "Set_scan hit t (entry # es) =
     (if hash1 entry \<noteq> 0
      then bindR (Set_containsHash1Key t (hash1 entry) (key entry)) (\<lambda>b.
             if b = hit then Some (Inr False) else Set_scan hit t es)
      else Set_scan hit t es)"

definition Set_Equals :: "64 word \<Rightarrow> 'k HSet \<Rightarrow> 'k HSet \<Rightarrow> bool result" where
  "Set_Equals E s t =
     (if sizef s \<noteq> sizef t then Some (Inr False)
      else if sizef s = 0 then Some (Inr True)
      else if Set_Hash E s \<noteq> Set_Hash E t then Some (Inr False)
      else let (s', t') = swapByLen s t in Set_scan False t' (entries s'))"

definition Set_IsSubset :: "'k HSet \<Rightarrow> 'k HSet \<Rightarrow> bool result" where
  "Set_IsSubset s t =
     (if sizef s > sizef t then Some (Inr False)
      else if sizef s = 0 then Some (Inr True)
      else Set_scan False t (entries s))"

definition Set_IsDisjoint :: "'k HSet \<Rightarrow> 'k HSet \<Rightarrow> bool result" where
  "Set_IsDisjoint s t =
     (if sizef s = 0 \<or> sizef t = 0 then Some (Inr True)
      else let (s', t') = swapByLen s t in Set_scan True t' (entries s'))"

text \<open>The bodies of the loops of \<open>Union\<close>, \<open>Intersection\<close> and \<open>Difference\<close>.\<close>

definition Set_Union_body :: "64 word \<Rightarrow> ('k::zero) HSet \<Rightarrow> 'k setEntry \<Rightarrow> 'k HSet result" where
  "Set_Union_body E r entry =
     (if hash1 entry \<noteq> 0 then Set_addHash1Key E r (hash1 entry) (key entry) else Some (Inr r))"

definition Set_Intersection_body ::
  "64 word \<Rightarrow> 'k HSet \<Rightarrow> ('k::zero) HSet \<Rightarrow> 'k setEntry \<Rightarrow> 'k HSet result" where
  "Set_Intersection_body E t r entry =
     (if hash1 entry \<noteq> 0
      then bindR (Set_containsHash1Key t (hash1 entry) (key entry)) (\<lambda>b.
             if b then Set_addHash1Key E r (hash1 entry) (key entry) else Some (Inr r))
      else Some (Inr r))"

definition Set_Difference_body :: "64 word \<Rightarrow> ('k::zero) HSet \<Rightarrow> 'k setEntry \<Rightarrow> 'k HSet result" where
  "Set_Difference_body E r entry =
     (if hash1 entry \<noteq> 0 then Set_removeHash1Key E r (hash1 entry) (key entry) else Some (Inr r))"

definition Set_Union :: "64 word \<Rightarrow> ('k::zero) HSet \<Rightarrow> 'k HSet \<Rightarrow> 'k HSet result" where
  "Set_Union E s t =
     (if sizef s = 0 then Some (Inr (Set_Copy t))
      else if sizef t = 0 then Some (Inr (Set_Copy s))
      else let (s', t') = swapByLen s t in
        foldR (Set_Union_body E) (entries s') (Set_Copy t'))"

definition Set_Intersection :: "64 word \<Rightarrow> ('k::zero) HSet \<Rightarrow> 'k HSet \<Rightarrow> 'k HSet result" where
  "Set_Intersection E s t =
     (if sizef s = 0 \<or> sizef t = 0 then Some (Inr zeroSet)
      else let (s', t') = swapByLen s t in
        foldR (Set_Intersection_body E t') (entries s') zeroSet)"

definition Set_Difference :: "64 word \<Rightarrow> ('k::zero) HSet \<Rightarrow> 'k HSet \<Rightarrow> 'k HSet result" where
  "Set_Difference E s t =
     (if sizef s = 0 \<or> sizef t = 0 then Some (Inr (Set_Copy s))
      else foldR (Set_Difference_body E) (entries t) (Set_Copy s))"

section \<open>ForEach with the container in a store\<close>

text \<open>
  The visitor of \<open>ForEach\<close> is a Go closure: it can hold the pointer to the map it is visiting
  and call \<open>Put\<close> or \<open>Remove\<close> on it.  \<open>for _, entry := range m.entries\<close> evaluates the slice
  \<open>m.entries\<close> once and reads slot \<open>i\<close> of its backing array when the loop reaches \<open>i\<close>, so
  a slot that the visitor has written in place is read as written, and after a \<open>resize\<close> the
  loop goes on over the old backing array.  To follow this the backing arrays live in a store:
  \<open>arrays\<close> holds every array that \<open>make\<close> has allocated, by address, \<open>slice\<close> is the field
  \<open>entries\<close> of the map (\<open>nil\<close>, or the address of its backing array) and \<open>sizeS\<close> is the field
  \<open>size\<close>.
\<close>

record 'e Shared =
  arrays :: "'e list list"
  slice :: "nat option"
  sizeS :: int

definition sEntries :: "'e Shared \<Rightarrow> 'e list" where
  "sEntries w = (case slice w of None \<Rightarrow> [] | Some a \<Rightarrow> arrays w ! a)"

text \<open>\<open>m.entries[index] = x\<close>, and \<open>m.entries = make([]mapEntry[K, V], n)\<close>.\<close>

definition sWrite :: "'e Shared \<Rightarrow> nat \<Rightarrow> 'e \<Rightarrow> 'e Shared" where
  "sWrite w i x =
     (case slice w of None \<Rightarrow> w
      | Some a \<Rightarrow> w\<lparr>arrays := (arrays w)[a := (arrays w ! a)[i := x]]\<rparr>)"

definition sMake :: "'e Shared \<Rightarrow> nat \<Rightarrow> 'e \<Rightarrow> 'e Shared" where
  "sMake w n z = w\<lparr>arrays := arrays w @ [replicate n z], slice := Some (length (arrays w))\<rparr>"

text \<open>The map that a state of the store holds, as a value.\<close>

definition sView :: "('k, 'v) mapEntry Shared \<Rightarrow> ('k, 'v) Map" where
  "sView w = \<lparr>entries = sEntries w, sizef = sizeS w\<rparr>"

definition zeroShared :: "'e Shared" where
  "zeroShared = \<lparr>arrays = [], slice = None, sizeS = 0\<rparr>"

text \<open>
  \<open>resize\<close> keeps the old slice in \<open>entries\<close> and ranges over it while \<open>putHash1\<close> writes to the
  new array: the old array is not written during the loop.
\<close>

definition sMap_resizeWith ::
  "(('k::zero, 'v::zero) mapEntry Shared \<Rightarrow> 64 word \<Rightarrow> 'k \<Rightarrow> 'v \<Rightarrow> ('k, 'v) mapEntry Shared result)
    \<Rightarrow> ('k, 'v) mapEntry Shared \<Rightarrow> int \<Rightarrow> ('k, 'v) mapEntry Shared result" where
  "sMap_resizeWith put w cap =
     foldR (\<lambda>w' entry. if hash1 entry \<noteq> 0 then put w' (hash1 entry) (key entry) (valuef entry)
                        else Some (Inr w'))
       (sEntries w) (sMake (w\<lparr>sizeS := 0\<rparr>) (nat cap) zeroMapEntry)"

lemma sMap_resizeWith_mono [partial_function_mono]:
  assumes "\<And>w h k v. mono_option (\<lambda>f. P f w h k v)"
  shows "mono_option (\<lambda>f. sMap_resizeWith (P f) w cap)"
  unfolding sMap_resizeWith_def
  by (intro partial_function_mono assms)

partial_function (option) sMap_putHash1 ::
  "('k::zero, 'v::zero) mapEntry Shared \<Rightarrow> 64 word \<Rightarrow> 'k \<Rightarrow> 'v \<Rightarrow> ('k, 'v) mapEntry Shared result" where
  "sMap_putHash1 w h k v =
     bindR (probe (sEntries w) h k (h AND lenMask (sEntries w))) (\<lambda>(index, found).
       if found then Some (Inr w)
       else let w1 = (sWrite w (unat index) \<lparr>hash1 = h, key = k, valuef = v\<rparr>)\<lparr>sizeS := sizeS w + 1\<rparr> in
         if sizeS w1 > 3 * int (length (sEntries w1)) div 4
         then sMap_resizeWith (\<lambda>w' h' k' v'. sMap_putHash1 w' h' k' v') w1 (int (length (sEntries w1)) * 2)
         else Some (Inr w1))"

definition sMap_resize :: "('k::zero, 'v::zero) mapEntry Shared \<Rightarrow> int \<Rightarrow> ('k, 'v) mapEntry Shared result" where
  "sMap_resize w cap = sMap_resizeWith sMap_putHash1 w cap"

definition sMap_Put ::
  "('k \<Rightarrow> 64 word) \<Rightarrow> ('k::zero, 'v::zero) mapEntry Shared \<Rightarrow> 'k \<Rightarrow> 'v \<Rightarrow> ('k, 'v) mapEntry Shared result" where
  "sMap_Put H w k v =
     (let w0 = (if slice w = None then sMake w initialCapacity zeroMapEntry else w) in
      sMap_putHash1 w0 (H k OR fullBit) k v)"

partial_function (option) sMap_repair ::
  "('k::zero, 'v::zero) mapEntry Shared \<Rightarrow> 64 word \<Rightarrow> ('k, 'v) mapEntry Shared result" where
  "sMap_repair w index =
     (if length (sEntries w) \<le> unat index then Some (Inl IndexOutOfRange)
      else if hash1 (sEntries w ! unat index) = 0 then Some (Inr w)
      else let entry = sEntries w ! unat index;
               w1 = (sWrite w (unat index) zeroMapEntry)\<lparr>sizeS := sizeS w - 1\<rparr> in
        bindR (sMap_putHash1 w1 (hash1 entry) (key entry) (valuef entry)) (\<lambda>w2.
          sMap_repair w2 ((index + 1) AND lenMask (sEntries w2))))"

definition sMap_Remove ::
  "('k \<Rightarrow> 64 word) \<Rightarrow> ('k::zero, 'v::zero) mapEntry Shared \<Rightarrow> 'k \<Rightarrow> ('k, 'v) mapEntry Shared result" where
  "sMap_Remove H w k =
     (if sizeS w = 0 then Some (Inr w)
      else let h = H k OR fullBit in
        bindR (probe (sEntries w) h k (h AND lenMask (sEntries w))) (\<lambda>(index, found).
          if \<not> found then Some (Inr w)
          else let w1 = (sWrite w (unat index) zeroMapEntry)\<lparr>sizeS := sizeS w - 1\<rparr> in
            if int (length (sEntries w1)) > int initialCapacity
               \<and> sizeS w1 < int (length (sEntries w1)) div 4
            then sMap_resize w1 (int (length (sEntries w1)) div 2)
            else sMap_repair w1 ((index + 1) AND lenMask (sEntries w1))))"

text \<open>
  The loop of \<open>ForEach\<close> over the array at address \<open>a\<close>, for the indices that are left.  The
  visitor runs on the store and on state of its own, may fail to return, and returns an error
  (\<open>None\<close> is \<open>nil\<close>).
\<close>

fun sMap_ForEach_loop ::
  "('k \<Rightarrow> 'v \<Rightarrow> ('k, 'v) mapEntry Shared \<times> 's \<Rightarrow> ('x option \<times> ('k, 'v) mapEntry Shared \<times> 's) result)
    \<Rightarrow> nat \<Rightarrow> nat list \<Rightarrow> ('k, 'v) mapEntry Shared \<times> 's
    \<Rightarrow> ('x option \<times> ('k, 'v) mapEntry Shared \<times> 's) result" where
  "sMap_ForEach_loop f a [] ws = Some (Inr (None, ws))"
| "sMap_ForEach_loop f a (i # is) ws =
     (let entry = arrays (fst ws) ! a ! i in
      if hash1 entry \<noteq> 0
      then bindR (f (key entry) (valuef entry) ws) (\<lambda>(err, ws').
             case err of Some e \<Rightarrow> Some (Inr (Some e, ws'))
             | None \<Rightarrow> sMap_ForEach_loop f a is ws')
      else sMap_ForEach_loop f a is ws)"

definition sMap_ForEach ::
  "('k \<Rightarrow> 'v \<Rightarrow> ('k, 'v) mapEntry Shared \<times> 's \<Rightarrow> ('x option \<times> ('k, 'v) mapEntry Shared \<times> 's) result)
    \<Rightarrow> ('k, 'v) mapEntry Shared \<times> 's \<Rightarrow> ('x option \<times> ('k, 'v) mapEntry Shared \<times> 's) result" where
  "sMap_ForEach f ws =
     (case slice (fst ws) of None \<Rightarrow> Some (Inr (None, ws))
      | Some a \<Rightarrow> sMap_ForEach_loop f a [0..<length (arrays (fst ws) ! a)] ws)"

text \<open>A visitor that leaves the store as it is: it reads and changes state of its own only.\<close>

definition keepKV ::
  "('k \<Rightarrow> 'v \<Rightarrow> 's \<Rightarrow> 'x option \<times> 's) \<Rightarrow> 'k \<Rightarrow> 'v \<Rightarrow> 'w \<times> 's \<Rightarrow> ('x option \<times> 'w \<times> 's) result" where
  "keepKV f k v ws = (case f k v (snd ws) of (r, s') \<Rightarrow> Some (Inr (r, (fst ws, s'))))"

text \<open>
  The same for a set: the fields \<open>entries\<close> and \<open>size\<close> are in the store, with the field
  \<open>hash\<close>.
\<close>

record 'k SharedSet = "'k setEntry Shared" +
  hashS :: "64 word"

definition sSetView :: "'k SharedSet \<Rightarrow> 'k HSet" where
  "sSetView w = \<lparr>entries = (case slice w of None \<Rightarrow> [] | Some a \<Rightarrow> arrays w ! a), sizef = sizeS w,
                  hash = hashS w\<rparr>"

fun sSet_ForEach_loop ::
  "('k \<Rightarrow> 'k SharedSet \<times> 's \<Rightarrow> ('x option \<times> 'k SharedSet \<times> 's) result)
    \<Rightarrow> nat \<Rightarrow> nat list \<Rightarrow> 'k SharedSet \<times> 's \<Rightarrow> ('x option \<times> 'k SharedSet \<times> 's) result" where
  "sSet_ForEach_loop f a [] ws = Some (Inr (None, ws))"
| "sSet_ForEach_loop f a (i # is) ws =
     (let entry = arrays (fst ws) ! a ! i in
      if hash1 entry \<noteq> 0
      then bindR (f (key entry) ws) (\<lambda>(err, ws').
             case err of Some e \<Rightarrow> Some (Inr (Some e, ws'))
             | None \<Rightarrow> sSet_ForEach_loop f a is ws')
      else sSet_ForEach_loop f a is ws)"

definition sSet_ForEach ::
  "('k \<Rightarrow> 'k SharedSet \<times> 's \<Rightarrow> ('x option \<times> 'k SharedSet \<times> 's) result)
    \<Rightarrow> 'k SharedSet \<times> 's \<Rightarrow> ('x option \<times> 'k SharedSet \<times> 's) result" where
  "sSet_ForEach f ws =
     (case slice (fst ws) of None \<Rightarrow> Some (Inr (None, ws))
      | Some a \<Rightarrow> sSet_ForEach_loop f a [0..<length (arrays (fst ws) ! a)] ws)"

definition keepK ::
  "('k \<Rightarrow> 's \<Rightarrow> 'x option \<times> 's) \<Rightarrow> 'k \<Rightarrow> 'w \<times> 's \<Rightarrow> ('x option \<times> 'w \<times> 's) result" where
  "keepK f k ws = (case f k (snd ws) of (r, s') \<Rightarrow> Some (Inr (r, (fst ws, s'))))"

section \<open>Evaluation and sample data\<close>

declare probe.simps [code] Map_putHash1.simps [code] Map_repair.simps [code]
  Set_addHash1Key.simps [code] Set_repair.simps [code]

text \<open>
  A sample of the seeded hash, and with it the \<open>Hash\<close> method of \<open>Int\<close> keys and the value of
  \<open>emptySetHash\<close>.
\<close>

definition sampleHash64bits :: "64 word \<Rightarrow> 64 word" where
  "sampleHash64bits u = u + 5"

definition sampleHash :: "int \<Rightarrow> 64 word" where
  "sampleHash = Int_Hash sampleHash64bits"

definition sampleE :: "64 word" where
  "sampleE = emptySetHash sampleHash64bits"

definition Set_AddAll :: "('k \<Rightarrow> 64 word) \<Rightarrow> 64 word \<Rightarrow> ('k::zero) HSet \<Rightarrow> 'k list \<Rightarrow> 'k HSet result" where
  "Set_AddAll H E s ks = foldR (Set_Add H E) ks s"

definition Set_RemoveAll :: "('k \<Rightarrow> 64 word) \<Rightarrow> 64 word \<Rightarrow> ('k::zero) HSet \<Rightarrow> 'k list \<Rightarrow> 'k HSet result" where
  "Set_RemoveAll H E s ks = foldR (Set_Remove H E) ks s"

definition sampleEntry :: "int \<Rightarrow> int setEntry" where
  "sampleEntry k = \<lparr>hash1 = sampleHash k OR fullBit, key = k\<rparr>"

definition sampleMapEntry :: "int \<Rightarrow> int \<Rightarrow> (int, int) mapEntry" where
  "sampleMapEntry k v = \<lparr>hash1 = sampleHash k OR fullBit, key = k, valuef = v\<rparr>"

text \<open>The map after \<open>Put(1, 10)\<close>, and the map after \<open>Put(1, 10)\<close>, \<open>Put(2, 20)\<close>, \<open>Put(3, 30)\<close>.\<close>

definition sampleMap1 :: "(int, int) Map" where
  "sampleMap1 = \<lparr>entries = replicate 6 zeroMapEntry @ [sampleMapEntry 1 10] @ replicate 9 zeroMapEntry,
                 sizef = 1\<rparr>"

definition sampleMap3 :: "(int, int) Map" where
  "sampleMap3 = \<lparr>entries = replicate 6 zeroMapEntry
                             @ [sampleMapEntry 1 10, sampleMapEntry 2 20, sampleMapEntry 3 30]
                             @ replicate 7 zeroMapEntry,
                 sizef = 3\<rparr>"

text \<open>The set of \<open>0, ..., 7\<close> in a table of 32 slots, and the set without \<open>3\<close> in 16 slots.\<close>

definition sampleSet8 :: "int HSet" where
  "sampleSet8 = \<lparr>entries = replicate 5 zeroSetEntry @ map sampleEntry [0, 1, 2, 3, 4, 5, 6, 7]
                              @ replicate 19 zeroSetEntry,
                  sizef = 8, hash = 13\<rparr>"

definition sampleSet7 :: "int HSet" where
  "sampleSet7 = \<lparr>entries = replicate 5 zeroSetEntry @ map sampleEntry [0, 1, 2] @ [zeroSetEntry]
                              @ map sampleEntry [4, 5, 6, 7] @ replicate 3 zeroSetEntry,
                  sizef = 7, hash = fullBit + 5\<rparr>"

text \<open>The sets \<open>{1, 2}\<close> and \<open>{3}\<close>, each in 16 slots.\<close>

definition sampleSetA :: "int HSet" where
  "sampleSetA = \<lparr>entries = replicate 6 zeroSetEntry @ map sampleEntry [1, 2] @ replicate 8 zeroSetEntry,
                  sizef = 2, hash = 4\<rparr>"

definition sampleSetB :: "int HSet" where
  "sampleSetB = \<lparr>entries = replicate 8 zeroSetEntry @ map sampleEntry [3] @ replicate 7 zeroSetEntry,
                  sizef = 1, hash = fullBit + 13\<rparr>"

text \<open>A visitor that counts its calls and fails at key \<open>2\<close>.\<close>

definition sampleVisitorKV :: "int \<Rightarrow> int \<Rightarrow> nat \<Rightarrow> string option \<times> nat" where
  "sampleVisitorKV k v n = (if k = 2 then Some ''stop'' else None, n + 1)"

definition sampleVisitorK :: "int \<Rightarrow> nat \<Rightarrow> string option \<times> nat" where
  "sampleVisitorK k n = (if k = 2 then Some ''stop'' else None, n + 1)"

declare sMap_putHash1.simps [code] sMap_repair.simps [code]

text \<open>
  The map with the keys 10, 26 and 42, whose home slot is 15 each: they sit in the slots 15, 0
  and 1.  The map after \<open>Remove(26)\<close>: 42 has moved to slot 0.
\<close>

definition sampleMapC :: "(int, int) Map" where
  "sampleMapC = \<lparr>entries = [sampleMapEntry 26 2, sampleMapEntry 42 3] @ replicate 13 zeroMapEntry
                             @ [sampleMapEntry 10 1],
                 sizef = 3\<rparr>"

definition sampleMapD :: "(int, int) Map" where
  "sampleMapD = \<lparr>entries = [sampleMapEntry 42 3] @ replicate 14 zeroMapEntry @ [sampleMapEntry 10 1],
                 sizef = 2\<rparr>"

definition sampleSharedC :: "(int, int) mapEntry Shared" where
  "sampleSharedC = \<lparr>arrays = [entries sampleMapC], slice = Some 0, sizeS = 3\<rparr>"

definition sampleSharedD :: "(int, int) mapEntry Shared" where
  "sampleSharedD = \<lparr>arrays = [entries sampleMapD], slice = Some 0, sizeS = 2\<rparr>"

text \<open>The set \<open>{3}\<close> in a store.\<close>

definition sampleSharedSetB :: "int SharedSet" where
  "sampleSharedSetB = \<lparr>arrays = [entries sampleSetB], slice = Some 0, sizeS = 1, hashS = hash sampleSetB\<rparr>"

text \<open>A visitor that records the key it is called with and, at key 26, calls \<open>m.Remove(26)\<close>.\<close>

definition removingVisitor ::
  "int \<Rightarrow> int \<Rightarrow> (int, int) mapEntry Shared \<times> int list
    \<Rightarrow> (string option \<times> (int, int) mapEntry Shared \<times> int list) result" where
  "removingVisitor k v ws =
     bindR (if k = 26 then sMap_Remove sampleHash (fst ws) 26 else Some (Inr (fst ws))) (\<lambda>w'.
       Some (Inr (None, (w', snd ws @ [k]))))"

section \<open>Observing the calls of a visitor\<close>

text \<open>
  The live entries in the order of the backing array, and a visitor wrapped so that it also records
  each of its calls with the result of the call.
\<close>

definition Map_live :: "('k, 'v) Map \<Rightarrow> ('k \<times> 'v) list" where
  "Map_live m = map (\<lambda>e. (key e, valuef e)) (filter (\<lambda>e. hash1 e \<noteq> 0) (entries m))"

definition Set_live :: "'k HSet \<Rightarrow> 'k list" where
  "Set_live s = map key (filter (\<lambda>e. hash1 e \<noteq> 0) (entries s))"

definition loggedKV ::
  "('k \<Rightarrow> 'v \<Rightarrow> 's \<Rightarrow> 'x option \<times> 's) \<Rightarrow> 'k \<Rightarrow> 'v \<Rightarrow> 's \<times> (('k \<times> 'v) \<times> 'x option) list
     \<Rightarrow> 'x option \<times> 's \<times> (('k \<times> 'v) \<times> 'x option) list" where
  "loggedKV f k v sl = (case f k v (fst sl) of (r, s') \<Rightarrow> (r, (s', snd sl @ [((k, v), r)])))"

definition loggedK ::
  "('k \<Rightarrow> 's \<Rightarrow> 'x option \<times> 's) \<Rightarrow> 'k \<Rightarrow> 's \<times> ('k \<times> 'x option) list
     \<Rightarrow> 'x option \<times> 's \<times> ('k \<times> 'x option) list" where
  "loggedK f k sl = (case f k (fst sl) of (r, s') \<Rightarrow> (r, (s', snd sl @ [(k, r)])))"

text \<open>
  What a record of calls must look like: the visited entries are an initial segment of the live
  entries; every call but the last returned \<open>nil\<close>; when the result is \<open>nil\<close> every live entry
  was visited and no call failed; when the result is an error, it is the result of the last call.
\<close>

definition visitOK :: "'a list \<Rightarrow> ('a \<times> 'x option) list \<Rightarrow> 'x option \<Rightarrow> bool" where
  "visitOK live log err \<longleftrightarrow>
     prefix (map fst log) live
     \<and> (\<forall>c \<in> set (butlast log). snd c = None)
     \<and> (err = None \<longrightarrow> map fst log = live \<and> (\<forall>c \<in> set log. snd c = None))
     \<and> (err \<noteq> None \<longrightarrow> log \<noteq> [] \<and> snd (last log) = err)"

section \<open>Which operand a binary set operation scans\<close>

definition scannedOperand :: "'k HSet \<Rightarrow> 'k HSet \<Rightarrow> 'k HSet" where
  "scannedOperand s t = fst (swapByLen s t)"

definition queriedOperand :: "'k HSet \<Rightarrow> 'k HSet \<Rightarrow> 'k HSet" where
  "queriedOperand s t = snd (swapByLen s t)"

section \<open>Tables, invariants and reachable states: definitions\<close>

subsection \<open>Probing a table\<close>

text \<open>The number of steps from slot \<open>a\<close> forward, with wrap-around, to slot \<open>b\<close>.\<close>

definition dist :: "nat \<Rightarrow> nat \<Rightarrow> nat \<Rightarrow> nat" where
  "dist n a b = (if a \<le> b then b - a else b + n - a)"

definition succMod :: "nat \<Rightarrow> nat \<Rightarrow> nat" where
  "succMod n i = (if i + 1 = n then 0 else i + 1)"

definition pow2len :: "'a list \<Rightarrow> bool" where
  "pow2len es \<longleftrightarrow> (\<exists>k\<le>64. length es = 2 ^ k)"

text \<open>The slot a tagged hash starts probing at, and the conditions on a table.\<close>

definition homeOf :: "'e list \<Rightarrow> 64 word \<Rightarrow> nat" where
  "homeOf es h = unat h mod length es"

definition firstFree :: "('k, 'z) setEntry_scheme list \<Rightarrow> nat \<Rightarrow> nat \<Rightarrow> bool" where
  "firstFree es a f \<longleftrightarrow>
     f < length es \<and> hash1 (es ! f) = 0
     \<and> (\<forall>s<length es. dist (length es) a s < dist (length es) a f \<longrightarrow> hash1 (es ! s) \<noteq> 0)"

definition absent :: "('k, 'z) setEntry_scheme list \<Rightarrow> 64 word \<Rightarrow> 'k \<Rightarrow> bool" where
  "absent es h k \<longleftrightarrow> (\<forall>q<length es. hash1 (es ! q) \<noteq> 0 \<longrightarrow> \<not> (hash1 (es ! q) = h \<and> key (es ! q) = k))"

definition valid :: "('k, 'z) setEntry_scheme list \<Rightarrow> bool" where
  "valid es \<longleftrightarrow>
     (\<forall>q<length es. hash1 (es ! q) \<noteq> 0 \<longrightarrow>
        (\<forall>s<length es. dist (length es) (homeOf es (hash1 (es ! q))) s
                          < dist (length es) (homeOf es (hash1 (es ! q))) q \<longrightarrow> hash1 (es ! s) \<noteq> 0))"

definition nodup :: "('k, 'z) setEntry_scheme list \<Rightarrow> bool" where
  "nodup es \<longleftrightarrow>
     (\<forall>p<length es. \<forall>q<length es.
        hash1 (es ! p) \<noteq> 0 \<and> hash1 (es ! p) = hash1 (es ! q) \<and> key (es ! p) = key (es ! q) \<longrightarrow> p = q)"

definition liveIdx :: "('k, 'z) setEntry_scheme list \<Rightarrow> nat set" where
  "liveIdx es = {q. q < length es \<and> hash1 (es ! q) \<noteq> 0}"

definition liveSet :: "('k, 'z) setEntry_scheme list \<Rightarrow> ('k, 'z) setEntry_scheme set" where
  "liveSet es = {es ! q | q. q < length es \<and> hash1 (es ! q) \<noteq> 0}"

text \<open>
  The condition that holds while the inner loop of \<open>Remove\<close> runs: slot \<open>g\<close> is free, the slots
  after it and before the index \<open>i\<close> are live, and a live entry is reached from its home slot
  through live slots, except that the path of an entry at or after \<open>i\<close> may cross \<open>g\<close>.
\<close>

definition gapInv :: "('k, 'z) setEntry_scheme list \<Rightarrow> nat \<Rightarrow> nat \<Rightarrow> bool" where
  "gapInv es g i \<longleftrightarrow>
     g < length es \<and> i < length es \<and> hash1 (es ! g) = 0
     \<and> (\<forall>s<length es. 0 < dist (length es) g s \<and> dist (length es) g s < dist (length es) g i
           \<longrightarrow> hash1 (es ! s) \<noteq> 0)
     \<and> (\<forall>q<length es. hash1 (es ! q) \<noteq> 0 \<longrightarrow>
          (\<forall>s<length es. dist (length es) (homeOf es (hash1 (es ! q))) s
                            < dist (length es) (homeOf es (hash1 (es ! q))) q \<longrightarrow>
             hash1 (es ! s) \<noteq> 0 \<or> (s = g \<and> dist (length es) g i \<le> dist (length es) g q)))"

subsection \<open>The invariant of a Map\<close>

definition tabInv :: "('k, 'z) setEntry_scheme list \<Rightarrow> int \<Rightarrow> bool" where
  "tabInv es sz \<longleftrightarrow> pow2len es \<and> valid es \<and> nodup es \<and> sz = int (card (liveIdx es))"

definition hk :: "('k, 'z) setEntry_scheme \<Rightarrow> 64 word \<times> 'k" where
  "hk e = (hash1 e, key e)"

definition liveL :: "('k, 'z) setEntry_scheme list \<Rightarrow> ('k, 'z) setEntry_scheme list" where
  "liveL es = filter (\<lambda>e. hash1 e \<noteq> 0) es"

definition Map_step ::
  "('k::zero, 'v::zero) Map \<Rightarrow> ('k, 'v) mapEntry \<Rightarrow> ('k, 'v) Map result" where
  "Map_step m' entry = (if hash1 entry \<noteq> 0 then Map_putHash1 m' (hash1 entry) (key entry) (valuef entry)
                        else Some (Inr m'))"

text \<open>The capacity conditions on a table of \<open>n\<close> slots with \<open>sz\<close> entries.\<close>

definition capOK :: "nat \<Rightarrow> int \<Rightarrow> bool" where
  "capOK n sz \<longleftrightarrow> (\<exists>k\<ge>4. n = 2 ^ k) \<and> sz \<le> 3 * int n div 4 \<and> (n = 16 \<or> int n div 4 \<le> sz)"

definition Map_inv :: "('k, 'v) Map \<Rightarrow> bool" where
  "Map_inv m \<longleftrightarrow>
     (entries m = [] \<and> sizef m = 0)
     \<or> (tabInv (entries m) (sizef m) \<and> capOK (length (entries m)) (sizef m))"

subsection \<open>The invariant of a Set\<close>

text \<open>The exclusive-or of the tagged hashes of all slots; a free slot contributes 0.\<close>

definition xorAll :: "('k, 'z) setEntry_scheme list \<Rightarrow> 64 word" where
  "xorAll es = foldr (\<lambda>e a. hash1 e XOR a) es 0"

definition Set_step :: "64 word \<Rightarrow> ('k::zero) HSet \<Rightarrow> 'k setEntry \<Rightarrow> 'k HSet result" where
  "Set_step E s' entry = (if hash1 entry \<noteq> 0 then Set_addHash1Key E s' (hash1 entry) (key entry)
                          else Some (Inr s'))"

text \<open>The fields of a set that its table determines.\<close>

definition setOK :: "64 word \<Rightarrow> 'k HSet \<Rightarrow> bool" where
  "setOK E s \<longleftrightarrow> tabInv (entries s) (sizef s) \<and> hash s = E XOR xorAll (entries s)"

definition Set_inv :: "64 word \<Rightarrow> 'k HSet \<Rightarrow> bool" where
  "Set_inv E s \<longleftrightarrow>
     (entries s = [] \<and> sizef s = 0)
     \<or> (setOK E s \<and> capOK (length (entries s)) (sizef s))"

subsection \<open>Termination of the probing loop\<close>

text \<open>The probing loop with a bound on the number of slots it may read.\<close>

fun probeN ::
  "nat \<Rightarrow> ('k, 'z) setEntry_scheme list \<Rightarrow> 64 word \<Rightarrow> 'k \<Rightarrow> 64 word \<Rightarrow> (64 word \<times> bool) result" where
  "probeN 0 es h k index = None"
| "probeN (Suc c) es h k index =
     (if length es \<le> unat index then Some (Inl IndexOutOfRange)
      else if hash1 (es ! unat index) = 0 then Some (Inr (index, False))
      else if hash1 (es ! unat index) = h \<and> key (es ! unat index) = k then Some (Inr (index, True))
      else probeN c es h k ((index + 1) AND lenMask es))"

subsection \<open>Operations on two sets\<close>

text \<open>The keys of a set: the keys of its live slots.\<close>

definition Set_keys :: "'k HSet \<Rightarrow> 'k set" where
  "Set_keys s = key ` liveSet (entries s)"

text \<open>The slot that \<open>Add\<close> writes for a key.\<close>

definition tagEntry :: "('k \<Rightarrow> 64 word) \<Rightarrow> 'k \<Rightarrow> 'k setEntry" where
  "tagEntry H k = \<lparr>hash1 = H k OR fullBit, key = k\<rparr>"

text \<open>Every live slot holds the tagged hash of its key.\<close>

definition tagged :: "('k \<Rightarrow> 64 word) \<Rightarrow> 'k setEntry list \<Rightarrow> bool" where
  "tagged H es \<longleftrightarrow> liveSet es \<subseteq> range (tagEntry H)"

text \<open>
  A table fits when it has at most \<open>2^61\<close> slots.  In such a table no expression of the code
  overflows a 64-bit \<open>int\<close>.
\<close>

definition fits :: "'e list \<Rightarrow> bool" where
  "fits es \<longleftrightarrow> length es \<le> 2 ^ 61"

subsection \<open>Reachable states\<close>

inductive Map_reach :: "('k \<Rightarrow> 64 word) \<Rightarrow> ('k::zero, 'v::zero) Map \<Rightarrow> bool" for H where
  zero: "Map_reach H zeroMap"
| put: "Map_reach H m \<Longrightarrow> Map_Put H m k v = Some (Inr m') \<Longrightarrow> fits (entries m') \<Longrightarrow> Map_reach H m'"
| remove: "Map_reach H m \<Longrightarrow> Map_Remove H m k = Some (Inr m') \<Longrightarrow> Map_reach H m'"
| copy: "Map_reach H m \<Longrightarrow> Map_reach H (Map_Copy m)"

inductive Set_reach :: "('k \<Rightarrow> 64 word) \<Rightarrow> 64 word \<Rightarrow> ('k::zero) HSet \<Rightarrow> bool" for H E where
  zero: "Set_reach H E zeroSet"
| add: "Set_reach H E s \<Longrightarrow> Set_Add H E s k = Some (Inr s') \<Longrightarrow> fits (entries s') \<Longrightarrow> Set_reach H E s'"
| remove: "Set_reach H E s \<Longrightarrow> Set_Remove H E s k = Some (Inr s') \<Longrightarrow> Set_reach H E s'"
| copy: "Set_reach H E s \<Longrightarrow> Set_reach H E (Set_Copy s)"
| union: "Set_reach H E s \<Longrightarrow> Set_reach H E t \<Longrightarrow> Set_Union E s t = Some (Inr r) \<Longrightarrow>
      fits (entries r) \<Longrightarrow> Set_reach H E r"
| intersection: "Set_reach H E s \<Longrightarrow> Set_reach H E t \<Longrightarrow> Set_Intersection E s t = Some (Inr r) \<Longrightarrow>
      fits (entries r) \<Longrightarrow> Set_reach H E r"
| difference: "Set_reach H E s \<Longrightarrow> Set_reach H E t \<Longrightarrow> Set_Difference E s t = Some (Inr r) \<Longrightarrow>
      Set_reach H E r"

definition liveCount :: "('k, 'z) setEntry_scheme list \<Rightarrow> nat" where
  "liveCount es = length (filter (\<lambda>e. hash1 e \<noteq> 0) es)"

text \<open>The capacity conditions of the specification on a backing array and a size.\<close>

definition capacityOK :: "'e list \<Rightarrow> int \<Rightarrow> bool" where
  "capacityOK es sz \<longleftrightarrow>
     sz \<le> 3 * int (length es) div 4 + 1
     \<and> (es = [] \<or> length es = initialCapacity \<or> int (length es) div 4 \<le> sz)
     \<and> (es \<noteq> [] \<longrightarrow> (\<exists>k\<ge>4. length es = 2 ^ k))"

text \<open>Every run of the probing loop on the table returns, after reading at most as many slots as
  the table has.\<close>

definition probesStop :: "('k, 'z) setEntry_scheme list \<Rightarrow> bool" where
  "probesStop es \<longleftrightarrow>
     (\<forall>h k w. unat w < length es \<longrightarrow>
        (\<exists>r. probeN (length es) es h k w = Some (Inr r) \<and> probe es h k w = Some (Inr r)))"

text \<open>The size is the number of live slots, it is at most three quarters of the capacity and
  below the capacity, so a slot is free, and the probing loops stop.\<close>

definition roomy :: "('k, 'z) setEntry_scheme list \<Rightarrow> int \<Rightarrow> bool" where
  "roomy es sz \<longleftrightarrow>
     int (liveCount es) = sz \<and> liveCount es < length es \<and> sz \<le> 3 * int (length es) div 4
     \<and> (\<exists>i<length es. hash1 (es ! i) = 0) \<and> probesStop es"

text \<open>The exclusive-or of the tagged hashes of the live slots.\<close>

definition liveXor :: "('k, 'z) setEntry_scheme list \<Rightarrow> 64 word" where
  "liveXor es = foldr (\<lambda>e a. hash1 e XOR a) (filter (\<lambda>e. hash1 e \<noteq> 0) es) 0"

subsection \<open>The map in a store\<close>

text \<open>
  The slice of the map, when it is not \<open>nil\<close>, is the address of an allocated array, which is not
  empty.
\<close>

definition wfS :: "'e Shared \<Rightarrow> bool" where
  "wfS w \<longleftrightarrow>
     (case slice w of None \<Rightarrow> True | Some a \<Rightarrow> a < length (arrays w) \<and> arrays w ! a \<noteq> [])"

text \<open>
  A call in the store that returns does to the map, seen as a value, what the operation on values
  does.
\<close>

definition simPut ::
  "(('k::zero, 'v::zero) mapEntry Shared \<Rightarrow> 64 word \<Rightarrow> 'k \<Rightarrow> 'v \<Rightarrow> ('k, 'v) mapEntry Shared result) \<Rightarrow> bool" where
  "simPut f \<longleftrightarrow>
     (\<forall>w h k v y. f w h k v = Some y \<longrightarrow> wfS w \<longrightarrow>
        Map_putHash1 (sView w) h k v = Some (map_sum id sView y) \<and> (\<forall>w'. y = Inr w' \<longrightarrow> wfS w'))"

section \<open>Probing a table\<close>

lemma lenMask_pow2: "length es = 2 ^ k \<Longrightarrow> lenMask es = mask k"
  by (simp add: lenMask_def mask_eq_exp_minus_1)

lemma unat_and_lenMask:
  assumes "length es = 2 ^ k"
  shows "unat (h AND lenMask es) = unat h mod length es"
proof -
  have "h AND lenMask es = take_bit k h"
    by (simp add: lenMask_pow2 [OF assms] take_bit_eq_mask)
  then have "unat (h AND lenMask es) = take_bit k (unat h)"
    by (simp only: unsigned_take_bit_eq)
  then show ?thesis by (simp only: take_bit_eq_mod assms)
qed

lemma unat_succ_and_lenMask:
  assumes "length es = 2 ^ k" "k \<le> 64"
  shows "unat ((w + 1) AND lenMask es) = (unat w + 1) mod length es"
proof -
  have "(2::nat) ^ k dvd 2 ^ 64" using assms(2) by (rule le_imp_power_dvd)
  then have "(unat w + 1) mod 2 ^ 64 mod 2 ^ k = (unat w + 1) mod 2 ^ k"
    by (rule mod_mod_cancel)
  moreover have "unat (w + 1) = (unat w + 1) mod 2 ^ 64"
    by (simp add: unat_word_ariths)
  ultimately show ?thesis
    by (simp only: unat_and_lenMask [OF assms(1)] assms(1))
qed

lemma succMod_eq: "i < n \<Longrightarrow> (i + 1) mod n = succMod n i"
  by (simp add: succMod_def mod_Suc)

lemma succMod_lt: "i < n \<Longrightarrow> succMod n i < n"
  by (simp add: succMod_def)

lemma dist_self [simp]: "dist n a a = 0"
  by (simp add: dist_def)

lemma dist_lt: "a < n \<Longrightarrow> b < n \<Longrightarrow> dist n a b < n"
  by (auto simp: dist_def)

lemma dist_eq_0: "a < n \<Longrightarrow> b < n \<Longrightarrow> dist n a b = 0 \<longleftrightarrow> a = b"
  by (auto simp: dist_def)

lemma dist_succ_left:
  "a < n \<Longrightarrow> b < n \<Longrightarrow> a \<noteq> b \<Longrightarrow> dist n (succMod n a) b = dist n a b - 1"
  by (auto simp: dist_def succMod_def)

lemma dist_succ_left':
  "a < n \<Longrightarrow> s < n \<Longrightarrow> dist n (succMod n a) s < n - 1 \<Longrightarrow> dist n a s = dist n (succMod n a) s + 1"
  by (auto simp: dist_def succMod_def split: if_splits)

lemma pow2len_pos: "pow2len es \<Longrightarrow> 0 < length es"
  by (auto simp: pow2len_def)

lemma probe_stops:
  fixes es :: "('k, 'z) setEntry_scheme list"
  assumes p2: "pow2len es"
    and f: "f < length es"
    and stop: "hash1 (es ! f) = 0 \<or> (hash1 (es ! f) = h \<and> key (es ! f) = k)"
  shows "unat w < length es \<Longrightarrow>
     (\<forall>s<length es. dist (length es) (unat w) s < dist (length es) (unat w) f \<longrightarrow>
        hash1 (es ! s) \<noteq> 0 \<and> \<not> (hash1 (es ! s) = h \<and> key (es ! s) = k)) \<Longrightarrow>
     probe es h k w = Some (Inr (of_nat f, hash1 (es ! f) \<noteq> 0))"
proof (induction "dist (length es) (unat w) f" arbitrary: w)
  case 0
  then have "unat w = f" using f by (simp add: dist_eq_0)
  then have "of_nat (unat w) = (of_nat f :: 64 word)" by simp
  then have "w = of_nat f" by simp
  with 0 f stop \<open>unat w = f\<close> show ?case
    by (subst probe.simps) auto
next
  case (Suc d)
  let ?n = "length es"
  obtain k' where k': "k' \<le> 64" "?n = 2 ^ k'" using p2 by (auto simp: pow2len_def)
  let ?w' = "(w + 1) AND lenMask es"
  have w': "unat ?w' = succMod ?n (unat w)"
    using unat_succ_and_lenMask [OF k'(2) k'(1), of w] succMod_eq [OF Suc.prems(1)] by simp
  have ne: "unat w \<noteq> f" using Suc.hyps(2) by auto
  have here: "hash1 (es ! unat w) \<noteq> 0 \<and> \<not> (hash1 (es ! unat w) = h \<and> key (es ! unat w) = k)"
    using Suc.prems(2) [rule_format, of "unat w"] Suc.prems(1) Suc.hyps(2) by simp
  have d: "d = dist ?n (unat ?w') f"
    using dist_succ_left [OF Suc.prems(1) f ne] Suc.hyps(2) w' by simp
  have lt: "unat ?w' < ?n" using w' Suc.prems(1) by (simp add: succMod_lt)
  have rest: "\<forall>s<?n. dist ?n (unat ?w') s < dist ?n (unat ?w') f \<longrightarrow>
        hash1 (es ! s) \<noteq> 0 \<and> \<not> (hash1 (es ! s) = h \<and> key (es ! s) = k)"
  proof (intro allI impI)
    fix s assume s: "s < ?n" and ds: "dist ?n (unat ?w') s < dist ?n (unat ?w') f"
    have "dist ?n (unat ?w') f < ?n" using lt f by (rule dist_lt)
    then have "dist ?n (succMod ?n (unat w)) s < ?n - 1" using ds w' by simp
    from dist_succ_left' [OF Suc.prems(1) s this]
    have "dist ?n (unat w) s = dist ?n (unat ?w') s + 1" using w' by simp
    then have "dist ?n (unat w) s < dist ?n (unat w) f" using ds d Suc.hyps(2) by simp
    with Suc.prems(2) s show "hash1 (es ! s) \<noteq> 0 \<and> \<not> (hash1 (es ! s) = h \<and> key (es ! s) = k)"
      by blast
  qed
  have "probe es h k ?w' = Some (Inr (of_nat f, hash1 (es ! f) \<noteq> 0))"
    by (rule Suc.hyps(1) [OF d lt rest])
  then show ?case
    using here Suc.prems(1) by (subst probe.simps) auto
qed

lemma dist_inj: "a < n \<Longrightarrow> b < n \<Longrightarrow> c < n \<Longrightarrow> dist n a b = dist n a c \<Longrightarrow> b = c"
  by (auto simp: dist_def split: if_splits)

lemma dist_succ_right:
  "a < n \<Longrightarrow> b < n \<Longrightarrow> succMod n b \<noteq> a \<Longrightarrow> dist n a (succMod n b) = dist n a b + 1"
  by (auto simp: dist_def succMod_def split: if_splits)

lemma dist_succ_self: "a < n \<Longrightarrow> dist n a (succMod n a) \<le> 1"
  by (auto simp: dist_def succMod_def)

lemma dist_add:
  "a < n \<Longrightarrow> b < n \<Longrightarrow> c < n \<Longrightarrow> dist n a b \<le> dist n a c \<Longrightarrow> dist n a c = dist n a b + dist n b c"
  by (auto simp: dist_def split: if_splits)

lemma dist_origin:
  "a < n \<Longrightarrow> g < n \<Longrightarrow> s < n \<Longrightarrow>
   dist n g s = (if dist n a g \<le> dist n a s then dist n a s - dist n a g else dist n a s + n - dist n a g)"
  by (auto simp: dist_def split: if_splits)

lemma homeOf_lt: "0 < length es \<Longrightarrow> homeOf es h < length es"
  by (simp add: homeOf_def)

lemma home_word:
  "pow2len es \<Longrightarrow> unat (h AND lenMask es) = homeOf es h"
  by (auto simp: pow2len_def homeOf_def unat_and_lenMask)

lemma finite_liveIdx [simp]: "finite (liveIdx es)"
  by (simp add: liveIdx_def)

lemma card_liveIdx_le: "card (liveIdx es) \<le> length es"
proof -
  have "liveIdx es \<subseteq> {..<length es}" by (auto simp: liveIdx_def)
  then have "card (liveIdx es) \<le> card {..<length es}" by (intro card_mono) simp_all
  then show ?thesis by simp
qed

lemma free_slot_exists:
  assumes "card (liveIdx es) < length es"
  shows "\<exists>e<length es. hash1 (es ! e) = 0"
proof (rule ccontr)
  assume "\<not> ?thesis"
  then have "liveIdx es = {..<length es}" by (auto simp: liveIdx_def)
  then have "card (liveIdx es) = length es" by simp
  with assms show False by simp
qed

lemma firstFree_ex:
  fixes es :: "('k, 'z) setEntry_scheme list"
  assumes "a < length es" "e < length es" "hash1 (es ! e) = 0"
  shows "\<exists>f. firstFree es a f"
proof -
  let ?P = "\<lambda>x. x < length es \<and> hash1 (es ! x) = 0"
  from assms have "?P e" by simp
  from ex_has_least_nat [of ?P e "dist (length es) a"] this
  obtain f where f: "?P f" "\<forall>y. ?P y \<longrightarrow> dist (length es) a f \<le> dist (length es) a y"
    by blast
  have "firstFree es a f"
    unfolding firstFree_def using f by (metis not_less)
  then show ?thesis ..
qed

lemma firstFree_unique:
  assumes "firstFree es a f" "firstFree es a f'" "a < length es"
  shows "f = f'"
proof -
  let ?n = "length es"
  have f: "f < ?n" "f' < ?n" "hash1 (es ! f) = 0" "hash1 (es ! f') = 0"
    using assms by (auto simp: firstFree_def)
  have "\<not> dist ?n a f < dist ?n a f'" using assms(2) f by (auto simp: firstFree_def)
  moreover have "\<not> dist ?n a f' < dist ?n a f" using assms(1) f by (auto simp: firstFree_def)
  ultimately have "dist ?n a f = dist ?n a f'" by simp
  then show ?thesis using dist_inj [OF assms(3) f(1) f(2)] by simp
qed

lemma probe_absent:
  fixes es :: "('k, 'z) setEntry_scheme list"
  assumes "pow2len es" "unat w < length es" "firstFree es (unat w) f" "absent es h k"
  shows "probe es h k w = Some (Inr (of_nat f, False))"
proof -
  have "probe es h k w = Some (Inr (of_nat f, hash1 (es ! f) \<noteq> 0))"
    using assms(3,4) by (intro probe_stops assms(1,2)) (auto simp: firstFree_def absent_def)
  then show ?thesis using assms(3) by (simp add: firstFree_def)
qed

lemma probe_present:
  fixes es :: "('k, 'z) setEntry_scheme list"
  assumes p2: "pow2len es" and v: "valid es" and nd: "nodup es"
    and q: "q < length es" "hash1 (es ! q) = h" "key (es ! q) = k" "h \<noteq> 0"
  shows "probe es h k (h AND lenMask es) = Some (Inr (of_nat q, True))"
proof -
  let ?n = "length es"
  let ?a = "homeOf es h"
  have a: "unat (h AND lenMask es) = ?a" using p2 by (rule home_word)
  have an: "?a < ?n" using pow2len_pos [OF p2] by (rule homeOf_lt)
  have "\<forall>s<?n. dist ?n ?a s < dist ?n ?a q \<longrightarrow>
          hash1 (es ! s) \<noteq> 0 \<and> \<not> (hash1 (es ! s) = h \<and> key (es ! s) = k)"
  proof (intro allI impI)
    fix s assume s: "s < ?n" "dist ?n ?a s < dist ?n ?a q"
    have l: "hash1 (es ! s) \<noteq> 0" using v q s by (auto simp: valid_def)
    have "s \<noteq> q" using s by auto
    then have "\<not> (hash1 (es ! s) = h \<and> key (es ! s) = k)"
      using nd q s(1) l unfolding nodup_def by metis
    with l show "hash1 (es ! s) \<noteq> 0 \<and> \<not> (hash1 (es ! s) = h \<and> key (es ! s) = k)" ..
  qed
  then have "probe es h k (h AND lenMask es) = Some (Inr (of_nat q, hash1 (es ! q) \<noteq> 0))"
    using q an by (intro probe_stops p2) (simp_all add: a)
  then show ?thesis using q by simp
qed

lemma homeOf_update [simp]: "homeOf (es[i := x]) h = homeOf es h"
  by (simp add: homeOf_def)

lemma validD:
  "valid es \<Longrightarrow> q < length es \<Longrightarrow> hash1 (es ! q) \<noteq> 0 \<Longrightarrow> s < length es \<Longrightarrow>
   dist (length es) (homeOf es (hash1 (es ! q))) s < dist (length es) (homeOf es (hash1 (es ! q))) q \<Longrightarrow>
   hash1 (es ! s) \<noteq> 0"
  unfolding valid_def by blast

lemma firstFreeD:
  "firstFree es a f \<Longrightarrow> s < length es \<Longrightarrow> dist (length es) a s < dist (length es) a f \<Longrightarrow>
   hash1 (es ! s) \<noteq> 0"
  unfolding firstFree_def by blast

lemma firstFree_free: "firstFree es a f \<Longrightarrow> f < length es \<and> hash1 (es ! f) = 0"
  unfolding firstFree_def by blast

lemma valid_insert:
  fixes es :: "('k, 'z) setEntry_scheme list"
  assumes v: "valid es" and ff: "firstFree es (homeOf es (hash1 x)) f" and x: "hash1 x \<noteq> 0"
  shows "valid (es[f := x])"
  unfolding valid_def
proof (intro allI impI)
  fix q s
  let ?n = "length es"
  let ?es' = "es[f := x]"
  assume q: "q < length ?es'" "hash1 (?es' ! q) \<noteq> 0"
    and s: "s < length ?es'"
       "dist (length ?es') (homeOf ?es' (hash1 (?es' ! q))) s < dist (length ?es') (homeOf ?es' (hash1 (?es' ! q))) q"
  have f: "f < ?n" using ff by (simp add: firstFree_def)
  show "hash1 (?es' ! s) \<noteq> 0"
  proof (cases "s = f")
    case True
    then show ?thesis using f x by simp
  next
    case sf: False
    show ?thesis
    proof (cases "q = f")
      case True
      then have "dist ?n (homeOf es (hash1 x)) s < dist ?n (homeOf es (hash1 x)) f"
        using s f by simp
      with ff s(1) have "hash1 (es ! s) \<noteq> 0" by (auto dest: firstFreeD)
      then show ?thesis using sf by simp
    next
      case False
      then have "hash1 (es ! q) \<noteq> 0"
        "dist ?n (homeOf es (hash1 (es ! q))) s < dist ?n (homeOf es (hash1 (es ! q))) q"
        using q s by simp_all
      with v q(1) s(1) have "hash1 (es ! s) \<noteq> 0" by (auto dest: validD)
      then show ?thesis using sf by simp
    qed
  qed
qed

lemma nodupD:
  "nodup es \<Longrightarrow> p < length es \<Longrightarrow> q < length es \<Longrightarrow> hash1 (es ! p) \<noteq> 0 \<Longrightarrow>
   hash1 (es ! p) = hash1 (es ! q) \<Longrightarrow> key (es ! p) = key (es ! q) \<Longrightarrow> p = q"
  unfolding nodup_def by blast

lemma absentD:
  "absent es h k \<Longrightarrow> q < length es \<Longrightarrow> hash1 (es ! q) \<noteq> 0 \<Longrightarrow> hash1 (es ! q) = h \<Longrightarrow>
   key (es ! q) = k \<Longrightarrow> False"
  unfolding absent_def by blast

lemma nodup_insert:
  fixes es :: "('k, 'z) setEntry_scheme list"
  assumes nd: "nodup es" and ab: "absent es (hash1 x) (key x)" and e: "hash1 (es ! f) = 0"
  shows "nodup (es[f := x])"
  unfolding nodup_def
proof (intro allI impI)
  fix p q
  let ?es' = "es[f := x]"
  assume p: "p < length ?es'" and q: "q < length ?es'"
    and h: "hash1 (?es' ! p) \<noteq> 0 \<and> hash1 (?es' ! p) = hash1 (?es' ! q) \<and> key (?es' ! p) = key (?es' ! q)"
  show "p = q"
  proof (cases "p = f")
    case pf: True
    show ?thesis
    proof (cases "q = f")
      case True with pf show ?thesis by simp
    next
      case False
      with pf p q h have "hash1 (es ! q) = hash1 x" "key (es ! q) = key x" "hash1 (es ! q) \<noteq> 0"
        by auto
      with absentD [OF ab, of q] q show ?thesis by simp
    qed
  next
    case pf: False
    show ?thesis
    proof (cases "q = f")
      case True
      with pf p q h have "hash1 (es ! p) = hash1 x" "key (es ! p) = key x" "hash1 (es ! p) \<noteq> 0"
        by auto
      with absentD [OF ab, of p] p show ?thesis by simp
    next
      case False
      with pf p q h nodupD [OF nd, of p q] show ?thesis by auto
    qed
  qed
qed

lemma nodup_clear:
  fixes es :: "('k, 'z) setEntry_scheme list"
  assumes nd: "nodup es" and z: "hash1 z = 0"
  shows "nodup (es[p := z])"
  unfolding nodup_def
proof (intro allI impI)
  fix a b
  let ?es' = "es[p := z]"
  assume a: "a < length ?es'" and b: "b < length ?es'"
    and h: "hash1 (?es' ! a) \<noteq> 0 \<and> hash1 (?es' ! a) = hash1 (?es' ! b) \<and> key (?es' ! a) = key (?es' ! b)"
  have ap: "a \<noteq> p" using h a z by auto
  have bp: "b \<noteq> p" using h b z by auto
  from ap bp a b h nodupD [OF nd, of a b] show "a = b" by auto
qed

lemma liveIdx_insert:
  "f < length es \<Longrightarrow> hash1 x \<noteq> 0 \<Longrightarrow> liveIdx (es[f := x]) = insert f (liveIdx es)"
  by (auto simp: liveIdx_def nth_list_update split: if_splits)

lemma liveIdx_clear:
  "hash1 z = 0 \<Longrightarrow> liveIdx (es[p := z]) = liveIdx es - {p}"
  by (cases "p < length es") (auto simp: liveIdx_def nth_list_update)

lemma liveSetI: "q < length es \<Longrightarrow> hash1 (es ! q) \<noteq> 0 \<Longrightarrow> es ! q \<in> liveSet es"
  unfolding liveSet_def by blast

lemma liveSet_insert:
  fixes es :: "('k, 'z) setEntry_scheme list"
  assumes f: "f < length es" and x: "hash1 x \<noteq> 0" and e: "hash1 (es ! f) = 0"
  shows "liveSet (es[f := x]) = insert x (liveSet es)"
proof (rule set_eqI)
  fix y
  show "y \<in> liveSet (es[f := x]) \<longleftrightarrow> y \<in> insert x (liveSet es)"
  proof
    assume "y \<in> liveSet (es[f := x])"
    then obtain q where q: "q < length es" "hash1 (es[f := x] ! q) \<noteq> 0" "y = es[f := x] ! q"
      by (auto simp: liveSet_def)
    show "y \<in> insert x (liveSet es)"
    proof (cases "q = f")
      case True with q show ?thesis by simp
    next
      case False
      with q have "hash1 (es ! q) \<noteq> 0" "y = es ! q" by simp_all
      with q(1) have "y \<in> liveSet es" using liveSetI [of q es] by simp
      then show ?thesis by simp
    qed
  next
    assume "y \<in> insert x (liveSet es)"
    then consider "y = x" | "y \<in> liveSet es" by blast
    then show "y \<in> liveSet (es[f := x])"
    proof cases
      case 1
      have "f < length (es[f := x])" "hash1 (es[f := x] ! f) \<noteq> 0" "y = es[f := x] ! f"
        using f x 1 by simp_all
      then show ?thesis using liveSetI [of f "es[f := x]"] by simp
    next
      case 2
      then obtain q where q: "q < length es" "hash1 (es ! q) \<noteq> 0" "y = es ! q"
        by (auto simp: liveSet_def)
      then have "q \<noteq> f" using e by auto
      then have "q < length (es[f := x])" "hash1 (es[f := x] ! q) \<noteq> 0" "y = es[f := x] ! q"
        using q by simp_all
      then show ?thesis using liveSetI [of q "es[f := x]"] by simp
    qed
  qed
qed

lemma liveSet_clear:
  fixes es :: "('k, 'z) setEntry_scheme list"
  assumes nd: "nodup es" and z: "hash1 z = 0" and p: "p < length es" "hash1 (es ! p) \<noteq> 0"
  shows "liveSet (es[p := z]) = liveSet es - {es ! p}"
proof (rule set_eqI)
  fix e
  show "e \<in> liveSet (es[p := z]) \<longleftrightarrow> e \<in> liveSet es - {es ! p}"
  proof
    assume "e \<in> liveSet (es[p := z])"
    then obtain q where q: "q < length es" "hash1 (es[p := z] ! q) \<noteq> 0" "e = es[p := z] ! q"
      by (auto simp: liveSet_def)
    then have qp: "q \<noteq> p" using z by auto
    then have e: "e = es ! q" "hash1 (es ! q) \<noteq> 0" using q by simp_all
    have "es ! q \<noteq> es ! p"
    proof
      assume "es ! q = es ! p"
      then have "hash1 (es ! q) = hash1 (es ! p)" "key (es ! q) = key (es ! p)" by simp_all
      with nodupD [OF nd q(1) p(1) e(2)] have "q = p" by simp
      with qp show False by simp
    qed
    moreover have "e \<in> liveSet es" using e q(1) liveSetI [of q es] by simp
    ultimately show "e \<in> liveSet es - {es ! p}" using e by simp
  next
    assume "e \<in> liveSet es - {es ! p}"
    then obtain q where q: "q < length es" "hash1 (es ! q) \<noteq> 0" "e = es ! q" "e \<noteq> es ! p"
      by (auto simp: liveSet_def)
    then have "q \<noteq> p" by auto
    then have "q < length (es[p := z])" "hash1 (es[p := z] ! q) \<noteq> 0" "e = es[p := z] ! q"
      using q by simp_all
    then show "e \<in> liveSet (es[p := z])" using liveSetI [of q "es[p := z]"] by simp
  qed
qed

lemma liveSetE:
  assumes "e \<in> liveSet es"
  obtains q where "q < length es" "hash1 (es ! q) \<noteq> 0" "e = es ! q"
  using assms unfolding liveSet_def by blast

lemma absent_iff_liveSet:
  "absent es h k \<longleftrightarrow> (\<forall>e\<in>liveSet es. \<not> (hash1 e = h \<and> key e = k))"
proof
  assume a: "absent es h k"
  show "\<forall>e\<in>liveSet es. \<not> (hash1 e = h \<and> key e = k)"
  proof
    fix e assume "e \<in> liveSet es"
    then obtain q where "q < length es" "hash1 (es ! q) \<noteq> 0" "e = es ! q" by (rule liveSetE)
    with absentD [OF a, of q] show "\<not> (hash1 e = h \<and> key e = k)" by auto
  qed
next
  assume r: "\<forall>e\<in>liveSet es. \<not> (hash1 e = h \<and> key e = k)"
  show "absent es h k"
    unfolding absent_def
  proof (intro allI impI)
    fix q assume "q < length es" "hash1 (es ! q) \<noteq> 0"
    then have "es ! q \<in> liveSet es" by (rule liveSetI)
    with r show "\<not> (hash1 (es ! q) = h \<and> key (es ! q) = k)" by blast
  qed
qed

lemma dist_between:
  "a < n \<Longrightarrow> g < n \<Longrightarrow> i < n \<Longrightarrow> q < n \<Longrightarrow> dist n a g < dist n a q \<Longrightarrow>
   dist n g i < dist n g q \<Longrightarrow> dist n a i < dist n a q"
  by (auto simp: dist_def split: if_splits)

lemma gapInv_bounds: "gapInv es g i \<Longrightarrow> g < length es \<and> i < length es \<and> hash1 (es ! g) = 0"
  unfolding gapInv_def by blast

lemma gapInv_between:
  "gapInv es g i \<Longrightarrow> s < length es \<Longrightarrow> 0 < dist (length es) g s \<Longrightarrow>
   dist (length es) g s < dist (length es) g i \<Longrightarrow> hash1 (es ! s) \<noteq> 0"
  unfolding gapInv_def by blast

lemma gapInv_chain:
  "gapInv es g i \<Longrightarrow> q < length es \<Longrightarrow> hash1 (es ! q) \<noteq> 0 \<Longrightarrow> s < length es \<Longrightarrow>
   dist (length es) (homeOf es (hash1 (es ! q))) s < dist (length es) (homeOf es (hash1 (es ! q))) q \<Longrightarrow>
   hash1 (es ! s) \<noteq> 0 \<or> (s = g \<and> dist (length es) g i \<le> dist (length es) g q)"
  unfolding gapInv_def by blast

lemma gapInvI:
  assumes "g < length es" "i < length es" "hash1 (es ! g) = 0"
    and "\<And>s. s < length es \<Longrightarrow> 0 < dist (length es) g s \<Longrightarrow>
            dist (length es) g s < dist (length es) g i \<Longrightarrow> hash1 (es ! s) \<noteq> 0"
    and "\<And>q s. q < length es \<Longrightarrow> hash1 (es ! q) \<noteq> 0 \<Longrightarrow> s < length es \<Longrightarrow>
            dist (length es) (homeOf es (hash1 (es ! q))) s
              < dist (length es) (homeOf es (hash1 (es ! q))) q \<Longrightarrow>
            hash1 (es ! s) \<noteq> 0 \<or> (s = g \<and> dist (length es) g i \<le> dist (length es) g q)"
  shows "gapInv es g i"
  unfolding gapInv_def using assms by blast

lemma gapInv_init:
  fixes es :: "('k, 'z) setEntry_scheme list"
  assumes v: "valid es" and p: "p < length es" and z: "hash1 z = 0"
  shows "gapInv (es[p := z]) p (succMod (length es) p)"
proof (rule gapInvI)
  let ?n = "length es"
  let ?es' = "es[p := z]"
  show "p < length ?es'" using p by simp
  show "succMod ?n p < length ?es'" using p by (simp add: succMod_lt)
  show "hash1 (?es' ! p) = 0" using p z by simp
  have d1: "dist ?n p (succMod ?n p) \<le> 1" using p by (rule dist_succ_self)
  show "hash1 (?es' ! s) \<noteq> 0"
    if "0 < dist (length ?es') p s" "dist (length ?es') p s < dist (length ?es') p (succMod ?n p)" for s
    using that d1 by simp
  show "hash1 (?es' ! s) \<noteq> 0 \<or> (s = p \<and> dist (length ?es') p (succMod ?n p) \<le> dist (length ?es') p q)"
    if q: "q < length ?es'" "hash1 (?es' ! q) \<noteq> 0" and s: "s < length ?es'"
      "dist (length ?es') (homeOf ?es' (hash1 (?es' ! q))) s < dist (length ?es') (homeOf ?es' (hash1 (?es' ! q))) q"
    for q s
  proof -
    have qp: "q \<noteq> p" using q z by auto
    then have l: "hash1 (es ! q) \<noteq> 0" using q by simp
    have "dist ?n (homeOf es (hash1 (es ! q))) s < dist ?n (homeOf es (hash1 (es ! q))) q"
      using s qp by simp
    from validD [OF v _ l _ this] q s have ls: "hash1 (es ! s) \<noteq> 0" by simp
    show ?thesis
    proof (cases "s = p")
      case True
      have "dist ?n p q \<noteq> 0" using dist_eq_0 [of p ?n q] p q qp by simp
      then show ?thesis using True d1 by simp
    next
      case False
      then show ?thesis using ls by simp
    qed
  qed
qed

lemma nearest_free_before:
  fixes es :: "('k, 'z) setEntry_scheme list"
  assumes i: "i < length es" and e: "e < length es" "hash1 (es ! e) = 0"
  shows "\<exists>g<length es. hash1 (es ! g) = 0
          \<and> (\<forall>s<length es. 0 < dist (length es) g s \<and> dist (length es) g s < dist (length es) g i
                \<longrightarrow> hash1 (es ! s) \<noteq> 0)"
proof -
  let ?n = "length es"
  let ?P = "\<lambda>x. x < ?n \<and> hash1 (es ! x) = 0"
  from e have "?P e" by simp
  from ex_has_least_nat [of ?P e "\<lambda>g. dist ?n g i"] this
  obtain g where g: "g < ?n" "hash1 (es ! g) = 0"
    and least: "\<And>y. y < ?n \<Longrightarrow> hash1 (es ! y) = 0 \<Longrightarrow> dist ?n g i \<le> dist ?n y i"
    by blast
  have "hash1 (es ! s) \<noteq> 0" if s: "s < ?n" "0 < dist ?n g s" "dist ?n g s < dist ?n g i" for s
  proof
    assume "hash1 (es ! s) = 0"
    from least [OF s(1) this] have "dist ?n g i \<le> dist ?n s i" .
    moreover have "dist ?n g i = dist ?n g s + dist ?n s i"
      using dist_add [OF g(1) s(1) i] s(3) by simp
    ultimately show False using s(2) by simp
  qed
  with g show ?thesis by blast
qed

lemma gapInv_of_valid:
  fixes es :: "('k, 'z) setEntry_scheme list"
  assumes v: "valid es" and i: "i < length es" and e: "e < length es" "hash1 (es ! e) = 0"
  shows "\<exists>g. gapInv es g i"
proof -
  from nearest_free_before [OF i e] obtain g where g: "g < length es" "hash1 (es ! g) = 0"
    "\<And>s. s < length es \<Longrightarrow> 0 < dist (length es) g s \<Longrightarrow> dist (length es) g s < dist (length es) g i
        \<Longrightarrow> hash1 (es ! s) \<noteq> 0"
    by blast
  have "gapInv es g i"
    by (rule gapInvI) (use g i in \<open>auto dest: validD [OF v]\<close>)
  then show ?thesis ..
qed

lemma gapInv_exit:
  fixes es :: "('k, 'z) setEntry_scheme list"
  assumes gi: "gapInv es g i" and ne: "g \<noteq> i" and e: "hash1 (es ! i) = 0"
  shows "valid es"
  unfolding valid_def
proof (intro allI impI)
  let ?n = "length es"
  fix q s
  assume q: "q < ?n" "hash1 (es ! q) \<noteq> 0" and s: "s < ?n"
    "dist ?n (homeOf es (hash1 (es ! q))) s < dist ?n (homeOf es (hash1 (es ! q))) q"
  let ?a = "homeOf es (hash1 (es ! q))"
  have b: "g < ?n" "i < ?n" "hash1 (es ! g) = 0" using gapInv_bounds [OF gi] by simp_all
  have "0 < ?n" using q(1) by auto
  then have a: "?a < ?n" by (rule homeOf_lt)
  show "hash1 (es ! s) \<noteq> 0"
  proof (rule ccontr)
    assume "\<not> hash1 (es ! s) \<noteq> 0"
    with gapInv_chain [OF gi q s] have sg: "s = g" and le: "dist ?n g i \<le> dist ?n g q" by simp_all
    have "i \<noteq> q" using e q by auto
    then have "dist ?n g i \<noteq> dist ?n g q" using dist_inj [OF b(1) b(2) q(1)] by auto
    with le have "dist ?n g i < dist ?n g q" by simp
    from dist_between [OF a b(1) b(2) q(1) _ this] s(2) sg
    have "dist ?n ?a i < dist ?n ?a q" by simp
    from gapInv_chain [OF gi q b(2) this] e ne show False by simp
  qed
qed

lemma landing_cases:
  fixes es :: "('k, 'z) setEntry_scheme list"
  assumes gi: "gapInv es g i" and ne: "g \<noteq> i" and li: "hash1 (es ! i) \<noteq> 0" and z: "hash1 z = 0"
    and ff: "firstFree (es[i := z]) (homeOf es (hash1 (es ! i))) f"
  shows "f = g \<or> f = i"
proof (rule ccontr)
  let ?n = "length es"
  let ?a = "homeOf es (hash1 (es ! i))"
  assume "\<not> (f = g \<or> f = i)"
  then have fg: "f \<noteq> g" and fi: "f \<noteq> i" by simp_all
  have b: "g < ?n" "i < ?n" "hash1 (es ! g) = 0" using gapInv_bounds [OF gi] by simp_all
  have f: "f < ?n" "hash1 (es ! f) = 0" using firstFree_free [OF ff] fi by simp_all
  have a: "?a < ?n" using b(2) by (intro homeOf_lt) auto
  have "hash1 (es[i := z] ! i) = 0" using b(2) z by simp
  with firstFreeD [OF ff, of i] b(2) have "\<not> dist ?n ?a i < dist ?n ?a f" by auto
  moreover have "dist ?n ?a i \<noteq> dist ?n ?a f" using dist_inj [OF a b(2) f(1)] fi by auto
  ultimately have "dist ?n ?a f < dist ?n ?a i" by simp
  from gapInv_chain [OF gi b(2) li f(1) this] f(2) fg show False by simp
qed

lemma gapInv_step_move:
  fixes es :: "('k, 'z) setEntry_scheme list"
  assumes gi: "gapInv es g i" and ne: "g \<noteq> i" and li: "hash1 (es ! i) \<noteq> 0" and z: "hash1 z = 0"
    and x: "hash1 x = hash1 (es ! i)"
    and ff: "firstFree (es[i := z]) (homeOf es (hash1 (es ! i))) g"
  shows "gapInv (es[i := z, g := x]) i (succMod (length es) i)"
proof (rule gapInvI)
  let ?n = "length es"
  let ?a = "homeOf es (hash1 (es ! i))"
  let ?T = "es[i := z, g := x]"
  have b: "g < ?n" "i < ?n" "hash1 (es ! g) = 0" using gapInv_bounds [OF gi] by simp_all
  have len: "length ?T = ?n" by simp
  have Tg: "?T ! g = x" using b by simp
  have Ti: "?T ! i = z" using b ne by simp
  have To: "\<And>s. s \<noteq> g \<Longrightarrow> s \<noteq> i \<Longrightarrow> ?T ! s = es ! s" by simp
  have d1: "dist ?n i (succMod ?n i) \<le> 1" using b(2) by (rule dist_succ_self)
  show "i < length ?T" using b by simp
  show "succMod ?n i < length ?T" using b by (simp add: succMod_lt)
  show "hash1 (?T ! i) = 0" using Ti z by simp
  show "hash1 (?T ! s) \<noteq> 0"
    if "0 < dist (length ?T) i s" "dist (length ?T) i s < dist (length ?T) i (succMod ?n i)" for s
    using that d1 by simp
  show "hash1 (?T ! s) \<noteq> 0 \<or> (s = i \<and> dist (length ?T) i (succMod ?n i) \<le> dist (length ?T) i q)"
    if q: "q < length ?T" "hash1 (?T ! q) \<noteq> 0" and s: "s < length ?T"
      "dist (length ?T) (homeOf ?T (hash1 (?T ! q))) s < dist (length ?T) (homeOf ?T (hash1 (?T ! q))) q"
    for q s
  proof -
    have qi: "q \<noteq> i" using q Ti z by auto
    have qn: "q < ?n" and sn: "s < ?n" using q s by simp_all
    show ?thesis
    proof (cases "s = i")
      case True
      have "dist ?n i q \<noteq> 0" using dist_eq_0 [of i ?n q] b qn qi by simp
      then show ?thesis using True d1 by simp
    next
      case si: False
      show ?thesis
      proof (cases "s = g")
        case True
        then show ?thesis using Tg x li by simp
      next
        case sg: False
        have "hash1 (es ! s) \<noteq> 0"
        proof (cases "q = g")
          case True
          then have "dist ?n ?a s < dist ?n ?a g" using s(2) Tg x by (simp add: homeOf_def)
          with firstFreeD [OF ff, of s] sn have "hash1 (es[i := z] ! s) \<noteq> 0" by simp
          then show ?thesis using si by simp
        next
          case False
          then have Tq: "?T ! q = es ! q" using qi by (simp add: To)
          then have lq: "hash1 (es ! q) \<noteq> 0" using q by simp
          have "dist ?n (homeOf es (hash1 (es ! q))) s < dist ?n (homeOf es (hash1 (es ! q))) q"
            using s(2) Tq by (simp add: homeOf_def)
          from gapInv_chain [OF gi qn lq sn this] sg show ?thesis by simp
        qed
        then show ?thesis using To [OF sg si] by simp
      qed
    qed
  qed
qed

lemma gapInv_step_stay:
  fixes es :: "('k, 'z) setEntry_scheme list"
  assumes gi: "gapInv es g i" and ne: "g \<noteq> i" and li: "hash1 (es ! i) \<noteq> 0" and z: "hash1 z = 0"
    and x: "hash1 x = hash1 (es ! i)"
    and ff: "firstFree (es[i := z]) (homeOf es (hash1 (es ! i))) i"
    and ng: "succMod (length es) i \<noteq> g"
  shows "gapInv (es[i := x]) g (succMod (length es) i)"
proof (rule gapInvI)
  let ?n = "length es"
  let ?a = "homeOf es (hash1 (es ! i))"
  let ?T = "es[i := x]"
  let ?i' = "succMod ?n i"
  have b: "g < ?n" "i < ?n" "hash1 (es ! g) = 0" using gapInv_bounds [OF gi] by simp_all
  have a: "?a < ?n" using b(2) by (intro homeOf_lt) auto
  have hT: "hash1 (?T ! s) = hash1 (es ! s)" if "s < ?n" for s
    using x that by (cases "s = i") simp_all
  have d: "dist ?n g ?i' = dist ?n g i + 1" using dist_succ_right [OF b(1) b(2) ng] .
  show "g < length ?T" using b by simp
  show "?i' < length ?T" using b by (simp add: succMod_lt)
  show "hash1 (?T ! g) = 0" using b ne by simp
  show "hash1 (?T ! s) \<noteq> 0"
    if s: "s < length ?T" "0 < dist (length ?T) g s" "dist (length ?T) g s < dist (length ?T) g ?i'" for s
  proof (cases "s = i")
    case True
    then show ?thesis using x li b by simp
  next
    case False
    then have "dist ?n g s \<noteq> dist ?n g i" using dist_inj [OF b(1) _ b(2)] s(1) by auto
    with s d have "dist ?n g s < dist ?n g i" by simp
    from gapInv_between [OF gi _ _ this] s have "hash1 (es ! s) \<noteq> 0" by simp
    then show ?thesis using hT s(1) by simp
  qed
  show "hash1 (?T ! s) \<noteq> 0 \<or> (s = g \<and> dist (length ?T) g ?i' \<le> dist (length ?T) g q)"
    if q: "q < length ?T" "hash1 (?T ! q) \<noteq> 0" and s: "s < length ?T"
      "dist (length ?T) (homeOf ?T (hash1 (?T ! q))) s < dist (length ?T) (homeOf ?T (hash1 (?T ! q))) q"
    for q s
  proof -
    have qn: "q < ?n" and sn: "s < ?n" using q s by simp_all
    have lq: "hash1 (es ! q) \<noteq> 0" using q hT [OF qn] by simp
    have ch: "dist ?n (homeOf es (hash1 (es ! q))) s < dist ?n (homeOf es (hash1 (es ! q))) q"
      using s(2) hT [OF qn] by (simp add: homeOf_def)
    from gapInv_chain [OF gi qn lq sn ch]
    consider "hash1 (es ! s) \<noteq> 0" | "s = g" "dist ?n g i \<le> dist ?n g q" "hash1 (es ! s) = 0" by blast
    then show ?thesis
    proof cases
      case 1
      then show ?thesis using hT [OF sn] by simp
    next
      case 2
      have "q \<noteq> i"
      proof
        assume qi: "q = i"
        then have "dist ?n ?a g < dist ?n ?a i" using ch 2(1) by simp
        moreover have "g < length (es[i := z])" using b by simp
        ultimately have "hash1 (es[i := z] ! g) \<noteq> 0" using firstFreeD [OF ff, of g] by simp
        then show False using b ne by simp
      qed
      then have "dist ?n g q \<noteq> dist ?n g i" using dist_inj [OF b(1) qn b(2)] by auto
      with 2 d show ?thesis by simp
    qed
  qed
qed

lemma firstFree_step:
  fixes es T :: "('k, 'z) setEntry_scheme list"
  assumes ff: "firstFree es i e" and i: "i < length es" and li: "hash1 (es ! i) \<noteq> 0"
    and g: "hash1 (es ! g) = 0" and eg: "e \<noteq> g"
    and len: "length T = length es"
    and same: "\<And>s. s < length es \<Longrightarrow> s \<noteq> i \<Longrightarrow> s \<noteq> g \<Longrightarrow> T ! s = es ! s"
  shows "firstFree T (succMod (length es) i) e
         \<and> dist (length es) (succMod (length es) i) e < dist (length es) i e
         \<and> succMod (length es) i \<noteq> g"
proof -
  let ?n = "length es"
  let ?i' = "succMod ?n i"
  have e: "e < ?n" "hash1 (es ! e) = 0" using firstFree_free [OF ff] by simp_all
  have ei: "e \<noteq> i" using e li by auto
  then have ie: "i \<noteq> e" by simp
  have d: "dist ?n ?i' e = dist ?n i e - 1" using dist_succ_left [OF i e(1) ie] .
  have dpos: "dist ?n i e \<noteq> 0" using dist_eq_0 [OF i e(1)] ie by simp
  have i': "?i' < ?n" using i by (rule succMod_lt)
  have before: "hash1 (es ! s) \<noteq> 0 \<and> s \<noteq> i"
    if s: "s < ?n" "dist ?n ?i' s < dist ?n ?i' e" for s
  proof -
    have "dist ?n ?i' e < ?n" using i' e(1) by (rule dist_lt)
    then have "dist ?n ?i' s < ?n - 1" using s(2) by simp
    from dist_succ_left' [OF i s(1) this] have ds: "dist ?n i s = dist ?n ?i' s + 1" .
    then have "dist ?n i s < dist ?n i e" using s(2) d dpos by simp
    from firstFreeD [OF ff s(1) this] have "hash1 (es ! s) \<noteq> 0" .
    moreover have "s \<noteq> i" using ds by auto
    ultimately show ?thesis by simp
  qed
  have "firstFree T ?i' e"
    unfolding firstFree_def
  proof (intro conjI allI impI)
    show "e < length T" using e len by simp
    show "hash1 (T ! e) = 0" using same [OF e(1) ei eg] e by simp
    fix s assume s: "s < length T" "dist (length T) ?i' s < dist (length T) ?i' e"
    then have "hash1 (es ! s) \<noteq> 0 \<and> s \<noteq> i" using before [of s] len by simp
    moreover from this have "s \<noteq> g" using g by auto
    ultimately show "hash1 (T ! s) \<noteq> 0" using same [of s] s(1) len by simp
  qed
  moreover have "dist ?n ?i' e < dist ?n i e" using d dpos by simp
  moreover have "?i' \<noteq> g"
  proof (cases "?i' = e")
    case True
    then show ?thesis using eg by simp
  next
    case False
    then have "dist ?n ?i' ?i' < dist ?n ?i' e" using dist_eq_0 [OF i' e(1)] by simp
    from before [OF i' this] g show ?thesis by auto
  qed
  ultimately show ?thesis by blast
qed

section \<open>The invariant of a Map\<close>

lemma unat_of_nat_idx:
  assumes "pow2len es" "f < length es"
  shows "unat (of_nat f :: 64 word) = f"
proof -
  obtain k where k: "k \<le> 64" "length es = 2 ^ k" using assms(1) by (auto simp: pow2len_def)
  have "(2::nat) ^ k \<le> 2 ^ 64" using k(1) by (intro power_increasing) simp_all
  with k(2) have "length es \<le> 2 ^ 64" by simp
  with assms(2) have "f < 2 ^ 64" by simp
  then show ?thesis by (simp add: unat_of_nat)
qed

lemma mapEntry_eta: "\<lparr>hash1 = hash1 x, key = key x, valuef = valuef x\<rparr> = (x :: ('k, 'v) mapEntry)"
  by (cases x) simp

lemma setEntry_eta: "\<lparr>hash1 = hash1 x, key = key x\<rparr> = (x :: 'k setEntry)"
  by (cases x) simp

lemma Map_putHash1_new:
  fixes m :: "('k::zero, 'v::zero) Map"
  assumes p2: "pow2len (entries m)" and ab: "absent (entries m) h k"
    and fr: "e < length (entries m)" "hash1 (entries m ! e) = 0"
  shows "\<exists>f. firstFree (entries m) (homeOf (entries m) h) f
          \<and> Map_putHash1 m h k v =
              (let m1 = m\<lparr>entries := (entries m)[f := \<lparr>hash1 = h, key = k, valuef = v\<rparr>],
                           sizef := sizef m + 1\<rparr> in
               if sizef m1 > 3 * int (length (entries m1)) div 4
               then Map_resize m1 (int (length (entries m1)) * 2) else Some (Inr m1))"
proof -
  let ?es = "entries m"
  have a: "homeOf ?es h < length ?es" using pow2len_pos [OF p2] by (rule homeOf_lt)
  from firstFree_ex [OF a fr] obtain f where ff: "firstFree ?es (homeOf ?es h) f" ..
  have f: "f < length ?es" using firstFree_free [OF ff] by simp
  have w: "unat (h AND lenMask ?es) = homeOf ?es h" using p2 by (rule home_word)
  have pr: "probe ?es h k (h AND lenMask ?es) = Some (Inr (of_nat f, False))"
    using ff a by (intro probe_absent p2 ab) (simp_all add: w)
  have uf: "unat (of_nat f :: 64 word) = f" using p2 f by (rule unat_of_nat_idx)
  have "Map_putHash1 m h k v =
              (let m1 = m\<lparr>entries := (entries m)[f := \<lparr>hash1 = h, key = k, valuef = v\<rparr>],
                           sizef := sizef m + 1\<rparr> in
               if sizef m1 > 3 * int (length (entries m1)) div 4
               then Map_resize m1 (int (length (entries m1)) * 2) else Some (Inr m1))"
    by (subst Map_putHash1.simps) (simp add: pr bindR_def uf Map_resize_def Let_def)
  with ff show ?thesis by blast
qed

lemma Map_putHash1_present:
  fixes m :: "('k::zero, 'v::zero) Map"
  assumes "pow2len (entries m)" "valid (entries m)" "nodup (entries m)"
    and "q < length (entries m)" "hash1 (entries m ! q) = h" "key (entries m ! q) = k" "h \<noteq> 0"
  shows "Map_putHash1 m h k v = Some (Inr m)"
  by (subst Map_putHash1.simps) (simp add: probe_present [OF assms] bindR_def)

lemma card_liveIdx_insert:
  "f < length es \<Longrightarrow> hash1 x \<noteq> 0 \<Longrightarrow> hash1 (es ! f) = 0 \<Longrightarrow>
   card (liveIdx (es[f := x])) = card (liveIdx es) + 1"
  by (simp add: liveIdx_insert) (simp add: liveIdx_def)

lemma card_liveIdx_clear:
  "p < length es \<Longrightarrow> hash1 z = 0 \<Longrightarrow> hash1 (es ! p) \<noteq> 0 \<Longrightarrow>
   card (liveIdx (es[p := z])) = card (liveIdx es) - 1"
  by (simp add: liveIdx_clear) (simp add: liveIdx_def)

lemma pow2len_update [simp]: "pow2len (es[i := x]) = pow2len es"
  by (simp add: pow2len_def)

lemma tabInv_insert:
  fixes es :: "('k, 'z) setEntry_scheme list"
  assumes ti: "tabInv es sz" and ab: "absent es (hash1 x) (key x)" and x: "hash1 x \<noteq> 0"
    and ff: "firstFree es (homeOf es (hash1 x)) f"
  shows "tabInv (es[f := x]) (sz + 1)"
proof -
  have f: "f < length es" "hash1 (es ! f) = 0" using firstFree_free [OF ff] by simp_all
  from ti have "pow2len es" "valid es" "nodup es" "sz = int (card (liveIdx es))"
    by (simp_all add: tabInv_def)
  then show ?thesis
    unfolding tabInv_def
    using valid_insert [OF _ ff x] nodup_insert [OF _ ab f(2)] card_liveIdx_insert [OF f(1) x f(2)]
    by simp
qed

lemma absent_insert:
  fixes es :: "('k, 'z) setEntry_scheme list"
  assumes "f < length es" "hash1 x \<noteq> 0" "hash1 (es ! f) = 0"
  shows "absent (es[f := x]) h k \<longleftrightarrow> absent es h k \<and> \<not> (hash1 x = h \<and> key x = k)"
  by (simp add: absent_iff_liveSet liveSet_insert [OF assms]) blast

lemma liveL_simps [simp]:
  "liveL [] = []"
  "liveL (x # xs) = (if hash1 x \<noteq> 0 then x # liveL xs else liveL xs)"
  by (simp_all add: liveL_def)

lemma length_liveL: "length (liveL es) = card (liveIdx es)"
  by (simp add: liveL_def liveIdx_def length_filter_conv_card)

lemma set_liveL: "set (liveL es) = liveSet es"
proof (rule set_eqI)
  fix e
  show "e \<in> set (liveL es) \<longleftrightarrow> e \<in> liveSet es"
  proof
    assume "e \<in> set (liveL es)"
    then have "e \<in> set es" "hash1 e \<noteq> 0" by (simp_all add: liveL_def)
    then obtain q where "q < length es" "es ! q = e" by (auto simp: in_set_conv_nth)
    with \<open>hash1 e \<noteq> 0\<close> show "e \<in> liveSet es" using liveSetI [of q es] by simp
  next
    assume "e \<in> liveSet es"
    then obtain q where "q < length es" "hash1 (es ! q) \<noteq> 0" "e = es ! q" by (rule liveSetE)
    then show "e \<in> set (liveL es)" by (simp add: liveL_def)
  qed
qed

lemma nodup_Cons:
  fixes es :: "('k, 'z) setEntry_scheme list"
  assumes "nodup (e # es)"
  shows "nodup es" and "hash1 e \<noteq> 0 \<Longrightarrow> hk e \<notin> hk ` set (liveL es)"
proof -
  show "nodup es"
    unfolding nodup_def
  proof (intro allI impI)
    fix p q assume p: "p < length es" and q: "q < length es"
      and h: "hash1 (es ! p) \<noteq> 0 \<and> hash1 (es ! p) = hash1 (es ! q) \<and> key (es ! p) = key (es ! q)"
    from nodupD [OF assms, of "Suc p" "Suc q"] p q h show "p = q" by auto
  qed
  show "hk e \<notin> hk ` set (liveL es)" if l: "hash1 e \<noteq> 0"
  proof
    assume "hk e \<in> hk ` set (liveL es)"
    then obtain y where y: "y \<in> liveSet es" "hk y = hk e" by (auto simp: set_liveL)
    from y(1) obtain q where q: "q < length es" "hash1 (es ! q) \<noteq> 0" "y = es ! q" by (rule liveSetE)
    from nodupD [OF assms, of 0 "Suc q"] q y(2) l show False by (auto simp: hk_def)
  qed
qed

lemma nodup_distinct:
  fixes es :: "('k, 'z) setEntry_scheme list"
  shows "nodup es \<Longrightarrow> distinct (map hk (liveL es))"
proof (induction es)
  case Nil
  show ?case by simp
next
  case (Cons e es)
  from nodup_Cons [OF Cons.prems] Cons.IH show ?case by simp
qed

lemma Map_resize_step:
  "Map_resize m cap = foldR Map_step (entries m) (m\<lparr>sizef := 0, entries := replicate (nat cap) zeroMapEntry\<rparr>)"
  unfolding Map_resize_def Map_resizeWith_def Map_step_def [abs_def] ..

lemma Map_step_free: "hash1 e = 0 \<Longrightarrow> Map_step m e = Some (Inr m)"
  by (simp add: Map_step_def)

lemma Map_step_live:
  "hash1 e \<noteq> 0 \<Longrightarrow> Map_step m e = Map_putHash1 m (hash1 e) (key e) (valuef e)"
  by (simp add: Map_step_def)

lemma three_quarters_less: "0 < n \<Longrightarrow> 3 * int n div 4 < int n"
  by simp

lemma tabInv_free:
  assumes "tabInv es sz" "sz < int (length es)"
  shows "\<exists>e<length es. hash1 (es ! e) = 0"
  using assms by (intro free_slot_exists) (simp add: tabInv_def)

lemma Map_fill:
  fixes acc :: "('k::zero, 'v::zero) Map"
  assumes "tabInv (entries acc) (sizef acc)"
    and "distinct (map hk (liveL xs))"
    and "\<forall>x\<in>set (liveL xs). absent (entries acc) (hash1 x) (key x)"
    and "sizef acc + int (length (liveL xs)) \<le> 3 * int (length (entries acc)) div 4"
  shows "\<exists>es'. foldR Map_step xs acc
            = Some (Inr (acc\<lparr>entries := es', sizef := sizef acc + int (length (liveL xs))\<rparr>))
          \<and> length es' = length (entries acc)
          \<and> tabInv es' (sizef acc + int (length (liveL xs)))
          \<and> liveSet es' = liveSet (entries acc) \<union> set (liveL xs)"
  using assms
proof (induction xs arbitrary: acc)
  case Nil
  then show ?case by (intro exI [of _ "entries acc"]) simp
next
  case (Cons x xs)
  show ?case
  proof (cases "hash1 x = 0")
    case True
    with Cons.prems have "\<exists>es'. foldR Map_step xs acc
            = Some (Inr (acc\<lparr>entries := es', sizef := sizef acc + int (length (liveL xs))\<rparr>))
          \<and> length es' = length (entries acc)
          \<and> tabInv es' (sizef acc + int (length (liveL xs)))
          \<and> liveSet es' = liveSet (entries acc) \<union> set (liveL xs)"
      by (intro Cons.IH) simp_all
    with True show ?thesis by (simp add: Map_step_free bindR_def)
  next
    case False
    let ?es = "entries acc"
    let ?n = "length ?es"
    have ti: "tabInv ?es (sizef acc)" using Cons.prems(1) .
    then have p2: "pow2len ?es" by (simp add: tabInv_def)
    have npos: "0 < ?n" using p2 by (rule pow2len_pos)
    have bound: "sizef acc + 1 + int (length (liveL xs)) \<le> 3 * int ?n div 4"
      using Cons.prems(4) False by simp
    then have lt: "sizef acc < int ?n" using three_quarters_less [OF npos] by simp
    from tabInv_free [OF ti lt] obtain e where e: "e < ?n" "hash1 (?es ! e) = 0" by blast
    have ab: "absent ?es (hash1 x) (key x)" using Cons.prems(3) False by simp
    from Map_putHash1_new [OF p2 ab e, of "valuef x"] obtain f where
      ff: "firstFree ?es (homeOf ?es (hash1 x)) f" and
      put: "Map_putHash1 acc (hash1 x) (key x) (valuef x) =
              (let m1 = acc\<lparr>entries := ?es[f := \<lparr>hash1 = hash1 x, key = key x, valuef = valuef x\<rparr>],
                           sizef := sizef acc + 1\<rparr> in
               if sizef m1 > 3 * int (length (entries m1)) div 4
               then Map_resize m1 (int (length (entries m1)) * 2) else Some (Inr m1))"
      by blast
    let ?m1 = "acc\<lparr>entries := ?es[f := x], sizef := sizef acc + 1\<rparr>"
    have put': "Map_putHash1 acc (hash1 x) (key x) (valuef x) = Some (Inr ?m1)"
      using put bound by (simp add: mapEntry_eta Let_def)
    have f: "f < ?n" "hash1 (?es ! f) = 0" using firstFree_free [OF ff] by simp_all
    have ti1: "tabInv (entries ?m1) (sizef ?m1)"
      using tabInv_insert [OF ti ab False ff] by simp
    have d1: "distinct (map hk (liveL xs))" using Cons.prems(2) False by simp
    have nx: "hk x \<notin> hk ` set (liveL xs)" using Cons.prems(2) False by simp
    have ab1: "\<forall>y\<in>set (liveL xs). absent (entries ?m1) (hash1 y) (key y)"
    proof
      fix y assume y: "y \<in> set (liveL xs)"
      then have "absent ?es (hash1 y) (key y)" using Cons.prems(3) False by simp
      moreover have "\<not> (hash1 x = hash1 y \<and> key x = key y)"
        using nx y by (auto simp: hk_def image_iff)
      ultimately show "absent (entries ?m1) (hash1 y) (key y)"
        by (simp add: absent_insert [OF f(1) False f(2)])
    qed
    have b1: "sizef ?m1 + int (length (liveL xs)) \<le> 3 * int (length (entries ?m1)) div 4"
      using bound by simp
    from Cons.IH [OF ti1 d1 ab1 b1] obtain es' where
      r: "foldR Map_step xs ?m1
            = Some (Inr (?m1\<lparr>entries := es', sizef := sizef ?m1 + int (length (liveL xs))\<rparr>))"
      "length es' = length (entries ?m1)"
      "tabInv es' (sizef ?m1 + int (length (liveL xs)))"
      "liveSet es' = liveSet (entries ?m1) \<union> set (liveL xs)"
      by blast
    have "foldR Map_step (x # xs) acc
            = Some (Inr (acc\<lparr>entries := es', sizef := sizef acc + int (length (liveL (x # xs)))\<rparr>))"
      using r(1) False put' by (simp add: Map_step_live bindR_def add.assoc)
    moreover have "length es' = ?n" using r(2) by simp
    moreover have "tabInv es' (sizef acc + int (length (liveL (x # xs))))"
      using r(3) False by (simp add: add.assoc)
    moreover have "liveSet es' = liveSet ?es \<union> set (liveL (x # xs))"
      using r(4) False by (simp add: liveSet_insert [OF f(1) False f(2)])
    ultimately show ?thesis by blast
  qed
qed

lemma fullBit_nonzero: "x OR fullBit \<noteq> 0"
proof
  assume "x OR fullBit = 0"
  then have "bit (x OR fullBit) 63 = bit (0 :: 64 word) 63" by simp
  then show False by (simp add: bit_or_iff fullBit_def bit_push_bit_iff)
qed

lemma fresh_table:
  fixes z :: "('k, 'z) setEntry_scheme"
  assumes c: "c = 2 ^ k" "k \<le> 64" and z: "hash1 z = 0"
  shows "tabInv (replicate c z) 0" and "absent (replicate c z) h k'" and "liveSet (replicate c z) = {}"
proof -
  have l: "liveIdx (replicate c z) = {}" using z by (auto simp: liveIdx_def)
  have "pow2len (replicate c z)" using c by (auto simp: pow2len_def)
  moreover have "valid (replicate c z)" using z by (simp add: valid_def)
  moreover have "nodup (replicate c z)" using z by (simp add: nodup_def)
  ultimately show "tabInv (replicate c z) 0" using l by (simp add: tabInv_def)
  show "absent (replicate c z) h k'" using z by (simp add: absent_def)
  show "liveSet (replicate c z) = {}" using z by (auto elim!: liveSetE)
qed

lemma Map_resize_ok:
  fixes m :: "('k::zero, 'v::zero) Map"
  assumes nd: "nodup (entries m)" and c: "c = 2 ^ k" "k \<le> 64"
    and bd: "int (card (liveIdx (entries m))) \<le> 3 * int c div 4"
  shows "\<exists>es'. Map_resize m (int c)
            = Some (Inr (m\<lparr>entries := es', sizef := int (card (liveIdx (entries m)))\<rparr>))
          \<and> length es' = c \<and> tabInv es' (int (card (liveIdx (entries m))))
          \<and> liveSet es' = liveSet (entries m)"
proof -
  let ?z = "zeroMapEntry :: ('k, 'v) mapEntry"
  let ?acc = "m\<lparr>sizef := 0, entries := replicate c ?z\<rparr>"
  have z: "hash1 ?z = 0" by (simp add: zeroMapEntry_def)
  have 1: "tabInv (entries ?acc) (sizef ?acc)" using fresh_table(1) [OF c z] by simp
  have 2: "distinct (map hk (liveL (entries m)))" using nd by (rule nodup_distinct)
  have 3: "\<forall>x\<in>set (liveL (entries m)). absent (entries ?acc) (hash1 x) (key x)"
    using fresh_table(2) [OF c z] by simp
  have 4: "sizef ?acc + int (length (liveL (entries m))) \<le> 3 * int (length (entries ?acc)) div 4"
    using bd by (simp add: length_liveL)
  from Map_fill [OF 1 2 3 4] obtain es' where
    r: "foldR Map_step (entries m) ?acc
          = Some (Inr (?acc\<lparr>entries := es', sizef := sizef ?acc + int (length (liveL (entries m)))\<rparr>))"
      "length es' = length (entries ?acc)"
      "tabInv es' (sizef ?acc + int (length (liveL (entries m))))"
      "liveSet es' = liveSet (entries ?acc) \<union> set (liveL (entries m))"
    by blast
  have "Map_resize m (int c)
            = Some (Inr (m\<lparr>entries := es', sizef := int (card (liveIdx (entries m)))\<rparr>))"
    using r(1) by (simp add: Map_resize_step length_liveL)
  moreover have "length es' = c" using r(2) by simp
  moreover have "tabInv es' (int (card (liveIdx (entries m))))" using r(3) by (simp add: length_liveL)
  moreover have "liveSet es' = liveSet (entries m)"
    using r(4) fresh_table(3) [OF c z] by (simp add: set_liveL)
  ultimately show ?thesis by blast
qed

lemma pow2_ge4:
  fixes n :: nat
  assumes "4 \<le> k" "n = 2 ^ k"
  shows "\<exists>j\<ge>1. n = 16 * j"
proof -
  have "(2::nat) ^ (4 + (k - 4)) = 2 ^ 4 * 2 ^ (k - 4)" by (rule power_add)
  moreover have "4 + (k - 4) = k" using assms(1) by simp
  ultimately have "n = 16 * 2 ^ (k - 4)" using assms(2) by simp
  moreover have "(1::nat) \<le> 2 ^ (k - 4)" by simp
  ultimately show ?thesis by blast
qed

lemma capOK_16: "0 \<le> sz \<Longrightarrow> sz \<le> 12 \<Longrightarrow> capOK 16 sz"
  unfolding capOK_def by (auto intro: exI [of _ 4])

lemma capOK_same_up:
  "capOK n sz \<Longrightarrow> sz + 1 \<le> 3 * int n div 4 \<Longrightarrow> capOK n (sz + 1)"
  unfolding capOK_def by auto

lemma capOK_grow:
  assumes "capOK n sz" "\<not> sz + 1 \<le> 3 * int n div 4"
  shows "capOK (2 * n) (sz + 1)" and "sz + 1 \<le> 3 * int (2 * n) div 4"
proof -
  from assms(1) obtain k where k: "4 \<le> k" "n = 2 ^ k" and up: "sz \<le> 3 * int n div 4"
    unfolding capOK_def by blast
  from pow2_ge4 [OF k] obtain j where j: "1 \<le> j" "n = 16 * j" by blast
  have "2 * n = 2 ^ (Suc k)" using k by simp
  moreover have "4 \<le> Suc k" using k by simp
  ultimately have p: "\<exists>k'\<ge>4. 2 * n = 2 ^ k'" by blast
  show b: "sz + 1 \<le> 3 * int (2 * n) div 4" using up j by simp
  have "int (2 * n) div 4 \<le> sz + 1" using assms(2) j by simp
  with p b show "capOK (2 * n) (sz + 1)" unfolding capOK_def by blast
qed

lemma capOK_len: "capOK n sz \<Longrightarrow> 16 \<le> n \<and> 3 * int n div 4 < int n"
proof -
  assume "capOK n sz"
  then obtain k where k: "4 \<le> k" "n = 2 ^ k" unfolding capOK_def by blast
  from pow2_ge4 [OF k] obtain j where "1 \<le> j" "n = 16 * j" by blast
  then show ?thesis by simp
qed

lemma pow2len_double:
  assumes "pow2len es" "length es < 2 ^ 64"
  shows "\<exists>k\<le>64. 2 * length es = 2 ^ k"
proof -
  from assms(1) obtain k where k: "k \<le> 64" "length es = 2 ^ k" by (auto simp: pow2len_def)
  have "k \<noteq> 64" using assms(2) k(2) by auto
  with k(1) have "Suc k \<le> 64" by simp
  moreover have "2 * length es = 2 ^ Suc k" using k(2) by simp
  ultimately show ?thesis by blast
qed

lemma present_or_absent:
  fixes es :: "('k, 'z) setEntry_scheme list"
  assumes "h \<noteq> 0"
  shows "absent es h k \<or> (\<exists>q<length es. hash1 (es ! q) = h \<and> key (es ! q) = k)"
  unfolding absent_def by blast

lemma Map_putHash1_inv:
  fixes m :: "('k::zero, 'v::zero) Map"
  assumes ti: "tabInv (entries m) (sizef m)" and co: "capOK (length (entries m)) (sizef m)"
    and h: "h \<noteq> 0" and fit: "length (entries m) < 2 ^ 64"
  shows "\<exists>m'. Map_putHash1 m h k v = Some (Inr m')
          \<and> tabInv (entries m') (sizef m') \<and> capOK (length (entries m')) (sizef m')
          \<and> (if absent (entries m) h k
              then liveSet (entries m') = insert \<lparr>hash1 = h, key = k, valuef = v\<rparr> (liveSet (entries m))
                   \<and> sizef m' = sizef m + 1
              else m' = m)"
proof -
  let ?es = "entries m"
  let ?n = "length ?es"
  let ?x = "\<lparr>hash1 = h, key = k, valuef = v\<rparr>"
  from ti have p2: "pow2len ?es" and v: "valid ?es" and nd: "nodup ?es"
    and sz: "sizef m = int (card (liveIdx ?es))" by (simp_all add: tabInv_def)
  from present_or_absent [OF h, of ?es k] show ?thesis
  proof
    assume "\<exists>q<?n. hash1 (?es ! q) = h \<and> key (?es ! q) = k"
    then obtain q where q: "q < ?n" "hash1 (?es ! q) = h" "key (?es ! q) = k" by blast
    have "Map_putHash1 m h k v = Some (Inr m)"
      using p2 v nd q h by (rule Map_putHash1_present)
    moreover have "\<not> absent ?es h k" using q h by (auto dest: absentD)
    ultimately show ?thesis using ti co by simp
  next
    assume ab: "absent ?es h k"
    have up: "sizef m \<le> 3 * int ?n div 4" using co by (simp add: capOK_def)
    have "sizef m < int ?n" using up capOK_len [OF co] by simp
    from tabInv_free [OF ti this] obtain e where e: "e < ?n" "hash1 (?es ! e) = 0" by blast
    from Map_putHash1_new [OF p2 ab e, of v] obtain f where
      ff: "firstFree ?es (homeOf ?es h) f" and
      put: "Map_putHash1 m h k v =
              (let m1 = m\<lparr>entries := ?es[f := ?x], sizef := sizef m + 1\<rparr> in
               if sizef m1 > 3 * int (length (entries m1)) div 4
               then Map_resize m1 (int (length (entries m1)) * 2) else Some (Inr m1))"
      by blast
    let ?m1 = "m\<lparr>entries := ?es[f := ?x], sizef := sizef m + 1\<rparr>"
    have f: "f < ?n" "hash1 (?es ! f) = 0" using firstFree_free [OF ff] by simp_all
    have ti1: "tabInv (?es[f := ?x]) (sizef m + 1)"
      using tabInv_insert [OF ti, of ?x f] ab h ff by simp
    have ls1: "liveSet (?es[f := ?x]) = insert ?x (liveSet ?es)"
      using liveSet_insert [OF f(1) _ f(2), of ?x] h by simp
    show ?thesis
    proof (cases "sizef m + 1 \<le> 3 * int ?n div 4")
      case True
      then have "Map_putHash1 m h k v = Some (Inr ?m1)" using put by (simp add: Let_def)
      moreover have "capOK (length (entries ?m1)) (sizef ?m1)"
        using capOK_same_up [OF co True] by simp
      ultimately show ?thesis using ti1 ls1 ab by simp
    next
      case False
      then have r: "Map_putHash1 m h k v = Map_resize ?m1 (int (2 * ?n))"
        using put by (simp add: Let_def mult.commute)
      from pow2len_double [OF p2 fit] obtain k' where k': "k' \<le> 64" "2 * ?n = 2 ^ k'" by blast
      have nd1: "nodup (entries ?m1)" using ti1 by (simp add: tabInv_def)
      have c1: "int (card (liveIdx (entries ?m1))) = sizef m + 1" using ti1 by (simp add: tabInv_def)
      have bd: "int (card (liveIdx (entries ?m1))) \<le> 3 * int (2 * ?n) div 4"
        using capOK_grow(2) [OF co False] c1 by simp
      from Map_resize_ok [OF nd1 k'(2) k'(1) bd] obtain es' where
        rs: "Map_resize ?m1 (int (2 * ?n))
              = Some (Inr (?m1\<lparr>entries := es', sizef := int (card (liveIdx (entries ?m1)))\<rparr>))"
          "length es' = 2 * ?n" "tabInv es' (int (card (liveIdx (entries ?m1))))"
          "liveSet es' = liveSet (entries ?m1)"
        by blast
      let ?m' = "?m1\<lparr>entries := es', sizef := int (card (liveIdx (entries ?m1)))\<rparr>"
      have "Map_putHash1 m h k v = Some (Inr ?m')" using r rs(1) by simp
      moreover have "tabInv (entries ?m') (sizef ?m')" using rs(3) by simp
      moreover have "capOK (length (entries ?m')) (sizef ?m')"
        using capOK_grow(1) [OF co False] rs(2) c1 by simp
      moreover have "liveSet (entries ?m') = insert ?x (liveSet ?es)" using rs(4) ls1 by simp
      moreover have "sizef ?m' = sizef m + 1" using c1 by simp
      ultimately show ?thesis using ab by (intro exI [of _ ?m']) simp
    qed
  qed
qed

lemma Map_Put_inv:
  fixes m :: "('k::zero, 'v::zero) Map"
  assumes inv: "Map_inv m" and fit: "length (entries m) < 2 ^ 64"
  shows "\<exists>m'. Map_Put H m k v = Some (Inr m') \<and> Map_inv m' \<and> entries m' \<noteq> []"
proof -
  let ?h = "H k OR fullBit"
  let ?m0 = "if entries m = [] then Map_init m else m"
  have h: "?h \<noteq> 0" by (rule fullBit_nonzero)
  have z: "hash1 (zeroMapEntry :: ('k, 'v) mapEntry) = 0" by (simp add: zeroMapEntry_def)
  have "tabInv (entries ?m0) (sizef ?m0) \<and> capOK (length (entries ?m0)) (sizef ?m0)
        \<and> length (entries ?m0) < 2 ^ 64"
  proof (cases "entries m = []")
    case True
    then have s0: "sizef m = 0" using inv by (auto simp: Map_inv_def tabInv_def pow2len_def)
    have "tabInv (replicate 16 (zeroMapEntry :: ('k, 'v) mapEntry)) 0"
      by (rule fresh_table(1) [of 16 4]) (simp_all add: z)
    then show ?thesis using True s0 by (simp add: Map_init_def initialCapacity_def capOK_16)
  next
    case False
    then show ?thesis using inv fit by (simp add: Map_inv_def)
  qed
  then obtain m' where "Map_putHash1 ?m0 ?h k v = Some (Inr m')"
    "tabInv (entries m') (sizef m')" "capOK (length (entries m')) (sizef m')"
    using Map_putHash1_inv [of ?m0 ?h k v] h by blast
  moreover from this have "entries m' \<noteq> []" using capOK_len [of "length (entries m')"] by auto
  ultimately show ?thesis by (auto simp: Map_Put_def Map_inv_def Let_def)
qed

lemma absent_after_clear:
  fixes es :: "('k, 'z) setEntry_scheme list"
  assumes nd: "nodup es" and i: "i < length es" "hash1 (es ! i) \<noteq> 0" and z: "hash1 z = 0"
  shows "absent (es[i := z]) (hash1 (es ! i)) (key (es ! i))"
  unfolding absent_def
proof (intro allI impI)
  fix q assume q: "q < length (es[i := z])" "hash1 (es[i := z] ! q) \<noteq> 0"
  then have qi: "q \<noteq> i" using z by auto
  show "\<not> (hash1 (es[i := z] ! q) = hash1 (es ! i) \<and> key (es[i := z] ! q) = key (es ! i))"
  proof
    assume "hash1 (es[i := z] ! q) = hash1 (es ! i) \<and> key (es[i := z] ! q) = key (es ! i)"
    with qi have "hash1 (es ! i) = hash1 (es ! q)" "key (es ! i) = key (es ! q)" by simp_all
    from nodupD [OF nd i(1) _ i(2) this] q(1) qi show False by simp
  qed
qed

lemma word_of_unat_eq: "unat (w :: 64 word) = i \<Longrightarrow> w = of_nat i"
  by auto

lemma next_index:
  assumes p2: "pow2len es" and i: "i < length es"
  shows "(of_nat i + 1) AND lenMask es = (of_nat (succMod (length es) i) :: 64 word)"
proof -
  obtain k where k: "k \<le> 64" "length es = 2 ^ k" using p2 by (auto simp: pow2len_def)
  have "unat ((of_nat i + 1 :: 64 word) AND lenMask es) = (unat (of_nat i :: 64 word) + 1) mod length es"
    using k by (intro unat_succ_and_lenMask) simp_all
  also have "\<dots> = succMod (length es) i"
    using unat_of_nat_idx [OF p2 i] succMod_eq [OF i] by simp
  finally show ?thesis by (rule word_of_unat_eq)
qed

lemma liveSet_reinsert:
  fixes es :: "('k, 'z) setEntry_scheme list"
  assumes nd: "nodup es" and i: "i < length es" "hash1 (es ! i) \<noteq> 0" and z: "hash1 z = 0"
    and f: "f < length es" "hash1 (es[i := z] ! f) = 0"
  shows "liveSet (es[i := z, f := es ! i]) = liveSet es"
    and "card (liveIdx (es[i := z, f := es ! i])) = card (liveIdx es)"
    and "nodup (es[i := z, f := es ! i])"
proof -
  have "liveSet (es[i := z, f := es ! i]) = insert (es ! i) (liveSet (es[i := z]))"
    using liveSet_insert [of f "es[i := z]" "es ! i"] f i by simp
  also have "\<dots> = insert (es ! i) (liveSet es - {es ! i})"
    using liveSet_clear [OF nd z i] by simp
  also have "\<dots> = liveSet es" using liveSetI [OF i] by blast
  finally show "liveSet (es[i := z, f := es ! i]) = liveSet es" .
  have "i \<in> liveIdx es" using i by (simp add: liveIdx_def)
  then have "0 < card (liveIdx es)" using card_gt_0_iff by fastforce
  moreover have "card (liveIdx (es[i := z, f := es ! i])) = card (liveIdx (es[i := z])) + 1"
    using card_liveIdx_insert [of f "es[i := z]" "es ! i"] f i by simp
  moreover have "card (liveIdx (es[i := z])) = card (liveIdx es) - 1"
    using card_liveIdx_clear [of i es z] i z by simp
  ultimately show "card (liveIdx (es[i := z, f := es ! i])) = card (liveIdx es)" by simp
  show "nodup (es[i := z, f := es ! i])"
    using nodup_insert [OF nodup_clear [OF nd z, of i] absent_after_clear [OF nd i z] f(2)] .
qed

lemma Map_repair_ok:
  fixes m :: "('k::zero, 'v::zero) Map"
  assumes "pow2len (entries m)" "gapInv (entries m) g i" "g \<noteq> i" "nodup (entries m)"
    and "firstFree (entries m) i e" "e \<noteq> g"
    and "sizef m = int (card (liveIdx (entries m)))"
    and "sizef m \<le> 3 * int (length (entries m)) div 4"
  shows "\<exists>es'. Map_repair m (of_nat i) = Some (Inr (m\<lparr>entries := es'\<rparr>))
          \<and> length es' = length (entries m) \<and> valid es' \<and> nodup es'
          \<and> liveSet es' = liveSet (entries m) \<and> card (liveIdx es') = card (liveIdx (entries m))"
  using assms
proof (induction "dist (length (entries m)) i e" arbitrary: m g i)
  case 0
  let ?es = "entries m"
  have b: "g < length ?es" "i < length ?es" using gapInv_bounds [OF "0.prems"(2)] by simp_all
  have e: "e < length ?es" "hash1 (?es ! e) = 0" using firstFree_free [OF "0.prems"(5)] by simp_all
  have "i = e" using "0.hyps" dist_eq_0 [OF b(2) e(1)] by simp
  then have ei: "hash1 (?es ! i) = 0" using e by simp
  have ui: "unat (of_nat i :: 64 word) = i" using "0.prems"(1) b(2) by (rule unat_of_nat_idx)
  have "Map_repair m (of_nat i) = Some (Inr m)"
    by (subst Map_repair.simps) (use ui b ei in simp)
  moreover have "valid ?es" using "0.prems"(2,3) ei by (rule gapInv_exit)
  ultimately show ?case using "0.prems"(4) by (intro exI [of _ ?es]) simp
next
  case (Suc d)
  let ?es = "entries m"
  let ?n = "length ?es"
  let ?z = "zeroMapEntry :: ('k, 'v) mapEntry"
  let ?x = "?es ! i"
  let ?i' = "succMod ?n i"
  note p2 = Suc.prems(1) and gi = Suc.prems(2) and ne = Suc.prems(3) and nd = Suc.prems(4)
    and ffe = Suc.prems(5) and eg = Suc.prems(6) and sz = Suc.prems(7) and bd = Suc.prems(8)
  have z: "hash1 ?z = 0" by (simp add: zeroMapEntry_def)
  have b: "g < ?n" "i < ?n" "hash1 (?es ! g) = 0" using gapInv_bounds [OF gi] by simp_all
  have e: "e < ?n" "hash1 (?es ! e) = 0" using firstFree_free [OF ffe] by simp_all
  have "dist ?n i i < dist ?n i e" using Suc.hyps(2) by simp
  from firstFreeD [OF ffe b(2) this] have li: "hash1 ?x \<noteq> 0" .
  have ui: "unat (of_nat i :: 64 word) = i" using p2 b(2) by (rule unat_of_nat_idx)
  let ?m1 = "m\<lparr>entries := ?es[i := ?z], sizef := sizef m - 1\<rparr>"
  have p21: "pow2len (entries ?m1)" using p2 by simp
  have ab: "absent (entries ?m1) (hash1 ?x) (key ?x)"
    using absent_after_clear [OF nd b(2) li z] by simp
  have fr: "i < length (entries ?m1)" "hash1 (entries ?m1 ! i) = 0" using b z by simp_all
  from Map_putHash1_new [OF p21 ab fr, of "valuef ?x"] obtain f where
    ff: "firstFree (?es[i := ?z]) (homeOf ?es (hash1 ?x)) f" and
    put: "Map_putHash1 ?m1 (hash1 ?x) (key ?x) (valuef ?x) =
            (let m2 = ?m1\<lparr>entries := (entries ?m1)[f := \<lparr>hash1 = hash1 ?x, key = key ?x, valuef = valuef ?x\<rparr>],
                         sizef := sizef ?m1 + 1\<rparr> in
             if sizef m2 > 3 * int (length (entries m2)) div 4
             then Map_resize m2 (int (length (entries m2)) * 2) else Some (Inr m2))"
    by auto
  let ?T = "?es[i := ?z, f := ?x]"
  let ?m2 = "m\<lparr>entries := ?T\<rparr>"
  have put': "Map_putHash1 ?m1 (hash1 ?x) (key ?x) (valuef ?x) = Some (Inr ?m2)"
    using put bd by (simp add: mapEntry_eta Let_def)
  have f: "f < ?n" "hash1 (?es[i := ?z] ! f) = 0" using firstFree_free [OF ff] by simp_all
  from landing_cases [OF gi ne li z ff] have fgi: "f = g \<or> f = i" .
  have same: "\<And>s. s < ?n \<Longrightarrow> s \<noteq> i \<Longrightarrow> s \<noteq> g \<Longrightarrow> ?T ! s = ?es ! s"
    using fgi by auto
  from firstFree_step [OF ffe b(2) li b(3) eg _ same]
  have st: "firstFree ?T ?i' e" "dist ?n ?i' e < dist ?n i e" "?i' \<noteq> g" by simp_all
  have ei: "e \<noteq> i" using e li by auto
  have i'i: "?i' \<noteq> i" using st(2) by auto
  define g' where "g' = (if f = g then i else g)"
  have gi': "gapInv ?T g' ?i'"
  proof (cases "f = g")
    case True
    then show ?thesis using gapInv_step_move [OF gi ne li z refl] ff by (simp add: g'_def)
  next
    case False
    with fgi have fi: "f = i" by simp
    then have "?T = ?es[i := ?x]" by simp
    moreover have "g' = g" using False by (simp add: g'_def)
    ultimately show ?thesis using gapInv_step_stay [OF gi ne li z refl _ st(3)] ff fi by simp
  qed
  have g'i': "g' \<noteq> ?i'" using st(3) i'i by (auto simp: g'_def)
  have eg': "e \<noteq> g'" using eg ei by (simp add: g'_def)
  from liveSet_reinsert [OF nd b(2) li z f]
  have re: "liveSet ?T = liveSet ?es" "card (liveIdx ?T) = card (liveIdx ?es)" "nodup ?T" .
  have d: "d = dist (length (entries ?m2)) ?i' e"
    using Suc.hyps(2) dist_succ_left [OF b(2) e(1)] ei by simp
  have "\<exists>es'. Map_repair ?m2 (of_nat ?i') = Some (Inr (?m2\<lparr>entries := es'\<rparr>))
          \<and> length es' = length (entries ?m2) \<and> valid es' \<and> nodup es'
          \<and> liveSet es' = liveSet (entries ?m2) \<and> card (liveIdx es') = card (liveIdx (entries ?m2))"
    using p2 gi' g'i' re st(1) eg' sz bd
    by (intro Suc.hyps(1) [OF d, of g']) simp_all
  then obtain es' where
    r: "Map_repair ?m2 (of_nat ?i') = Some (Inr (m\<lparr>entries := es'\<rparr>))"
      "length es' = ?n" "valid es'" "nodup es'" "liveSet es' = liveSet ?es"
      "card (liveIdx es') = card (liveIdx ?es)"
    using re by auto
  have nx: "(of_nat i + 1) AND lenMask ?T = (of_nat ?i' :: 64 word)"
    using next_index [of ?T i] p2 b(2) by simp
  have "Map_repair m (of_nat i) = Some (Inr (m\<lparr>entries := es'\<rparr>))"
    by (subst Map_repair.simps) (use ui b li put' r(1) nx in \<open>simp add: Let_def bindR_def\<close>)
  with r show ?case by blast
qed

lemma dist_succ_back: "q < n \<Longrightarrow> dist n (succMod n q) q = n - 1"
  by (auto simp: dist_def succMod_def)

lemma second_free:
  fixes T :: "('k, 'z) setEntry_scheme list"
  assumes q: "q < length T" and c: "card (liveIdx T) + 1 < length T"
  shows "\<exists>e. firstFree T (succMod (length T) q) e \<and> e \<noteq> q"
proof -
  let ?n = "length T"
  let ?i = "succMod ?n q"
  have "\<exists>e'<?n. e' \<noteq> q \<and> hash1 (T ! e') = 0"
  proof (rule ccontr)
    assume "\<not> ?thesis"
    then have "{..<?n} - {q} \<subseteq> liveIdx T" by (auto simp: liveIdx_def)
    then have "card ({..<?n} - {q}) \<le> card (liveIdx T)" by (intro card_mono) simp_all
    moreover have "card ({..<?n} - {q}) = ?n - 1" using q by simp
    ultimately show False using c by simp
  qed
  then obtain e' where e': "e' < ?n" "e' \<noteq> q" "hash1 (T ! e') = 0" by blast
  have i: "?i < ?n" using q by (rule succMod_lt)
  from firstFree_ex [OF i e'(1) e'(3)] obtain e where e: "firstFree T ?i e" ..
  have "e \<noteq> q"
  proof
    assume "e = q"
    have "dist ?n ?i e' < ?n" using i e'(1) by (rule dist_lt)
    moreover have "dist ?n ?i e' \<noteq> dist ?n ?i q" using dist_inj [OF i e'(1) q] e'(2) by auto
    ultimately have "dist ?n ?i e' < dist ?n ?i q" using dist_succ_back [OF q] by simp
    with firstFreeD [OF e e'(1)] \<open>e = q\<close> e'(3) show False by simp
  qed
  with e show ?thesis by blast
qed

lemma capOK_shrink:
  assumes "capOK n sz" "16 < n" "sz - 1 < int n div 4"
  shows "capOK (n div 2) (sz - 1)" and "sz - 1 \<le> 3 * int (n div 2) div 4"
proof -
  from assms(1) obtain k where k: "4 \<le> k" "n = 2 ^ k" and lo: "n = 16 \<or> int n div 4 \<le> sz"
    unfolding capOK_def by blast
  have "k \<noteq> 4" using assms(2) k(2) by auto
  with k(1) have k5: "5 \<le> k" by simp
  have "(2::nat) ^ (1 + (k - 1)) = 2 ^ 1 * 2 ^ (k - 1)" by (rule power_add)
  moreover have "1 + (k - 1) = k" using k5 by simp
  ultimately have half: "n div 2 = 2 ^ (k - 1)" using k(2) by simp
  have "(2::nat) ^ (5 + (k - 5)) = 2 ^ 5 * 2 ^ (k - 5)" by (rule power_add)
  moreover have "5 + (k - 5) = k" using k5 by simp
  ultimately have "n = 32 * 2 ^ (k - 5)" using k(2) by simp
  then obtain j where j: "n = 32 * j" by blast
  have jpos: "1 \<le> j" using j assms(2) by simp
  have s: "sz = int n div 4" using lo assms(2,3) by simp
  show b: "sz - 1 \<le> 3 * int (n div 2) div 4" using s j by simp
  have "n div 2 = 16 \<or> int (n div 2) div 4 \<le> sz - 1" using s j jpos by simp
  moreover have "4 \<le> k - 1" using k5 by simp
  ultimately show "capOK (n div 2) (sz - 1)" using half b unfolding capOK_def by blast
qed

lemma pow2len_half:
  assumes "pow2len es" "1 < length es"
  shows "\<exists>k\<le>64. length es div 2 = 2 ^ k"
proof -
  from assms(1) obtain k where k: "k \<le> 64" "length es = 2 ^ k" by (auto simp: pow2len_def)
  have "k \<noteq> 0" using assms(2) k(2) by (cases k) simp_all
  then have "(2::nat) ^ k = 2 * 2 ^ (k - 1)" by (cases k) simp_all
  then have "length es div 2 = 2 ^ (k - 1)" using k(2) by simp
  moreover have "k - 1 \<le> 64" using k(1) by simp
  ultimately show ?thesis by blast
qed

lemma Map_Remove_inv:
  fixes m :: "('k::zero, 'v::zero) Map"
  assumes inv: "Map_inv m"
  shows "\<exists>m'. Map_Remove H m k = Some (Inr m') \<and> Map_inv m'
          \<and> length (entries m') \<le> length (entries m)"
proof (cases "sizef m = 0")
  case True
  then show ?thesis using inv by (simp add: Map_Remove_def)
next
  case nz: False
  let ?es = "entries m"
  let ?n = "length ?es"
  let ?h = "H k OR fullBit"
  let ?z = "zeroMapEntry :: ('k, 'v) mapEntry"
  have z: "hash1 ?z = 0" by (simp add: zeroMapEntry_def)
  have h: "?h \<noteq> 0" by (rule fullBit_nonzero)
  from inv nz have ti: "tabInv ?es (sizef m)" and co: "capOK ?n (sizef m)"
    by (auto simp: Map_inv_def)
  from ti have p2: "pow2len ?es" and v: "valid ?es" and nd: "nodup ?es"
    and sz: "sizef m = int (card (liveIdx ?es))" by (simp_all add: tabInv_def)
  have up: "sizef m \<le> 3 * int ?n div 4" using co by (simp add: capOK_def)
  have n16: "16 \<le> ?n" and lt: "3 * int ?n div 4 < int ?n" using capOK_len [OF co] by simp_all
  have a: "homeOf ?es ?h < ?n" using pow2len_pos [OF p2] by (rule homeOf_lt)
  have w: "unat (?h AND lenMask ?es) = homeOf ?es ?h" using p2 by (rule home_word)
  from present_or_absent [OF h, of ?es k] show ?thesis
  proof
    assume ab: "absent ?es ?h k"
    have "sizef m < int ?n" using up lt by simp
    from tabInv_free [OF ti this] obtain e where e: "e < ?n" "hash1 (?es ! e) = 0" by blast
    from firstFree_ex [OF a e] obtain f where ff: "firstFree ?es (homeOf ?es ?h) f" ..
    have "probe ?es ?h k (?h AND lenMask ?es) = Some (Inr (of_nat f, False))"
      using ff a by (intro probe_absent p2 ab) (simp_all add: w)
    then have "Map_Remove H m k = Some (Inr m)" using nz by (simp add: Map_Remove_def bindR_def)
    with inv show ?thesis by simp
  next
    assume "\<exists>q<?n. hash1 (?es ! q) = ?h \<and> key (?es ! q) = k"
    then obtain q where q: "q < ?n" "hash1 (?es ! q) = ?h" "key (?es ! q) = k" by blast
    have lq: "hash1 (?es ! q) \<noteq> 0" using q h by simp
    have pr: "probe ?es ?h k (?h AND lenMask ?es) = Some (Inr (of_nat q, True))"
      using p2 v nd q h by (rule probe_present)
    have uq: "unat (of_nat q :: 64 word) = q" using p2 q(1) by (rule unat_of_nat_idx)
    let ?m1 = "m\<lparr>entries := ?es[q := ?z], sizef := sizef m - 1\<rparr>"
    have rm: "Map_Remove H m k =
        (if int ?n > int initialCapacity \<and> sizef m - 1 < int ?n div 4
         then Map_resize ?m1 (int ?n div 2)
         else Map_repair ?m1 ((of_nat q + 1) AND lenMask (entries ?m1)))"
      using nz pr uq by (simp add: Map_Remove_def bindR_def Let_def)
    have nd1: "nodup (entries ?m1)" using nodup_clear [OF nd z] by simp
    have "q \<in> liveIdx ?es" using q(1) lq by (simp add: liveIdx_def)
    then have "liveIdx ?es \<noteq> {}" by blast
    then have "0 < card (liveIdx ?es)" by (simp add: card_gt_0_iff)
    then have c1: "int (card (liveIdx (entries ?m1))) = sizef m - 1"
      using card_liveIdx_clear [OF q(1) z lq] sz by simp
    show ?thesis
    proof (cases "16 < ?n \<and> sizef m - 1 < int ?n div 4")
      case True
      then have r: "Map_Remove H m k = Map_resize ?m1 (int (?n div 2))"
        using rm by (simp add: initialCapacity_def zdiv_int)
      from pow2len_half [OF p2] n16 obtain k' where k': "k' \<le> 64" "?n div 2 = 2 ^ k'" by auto
      have bd: "int (card (liveIdx (entries ?m1))) \<le> 3 * int (?n div 2) div 4"
        using capOK_shrink(2) [OF co] True c1 by simp
      from Map_resize_ok [OF nd1 k'(2) k'(1) bd] obtain es' where
        rs: "Map_resize ?m1 (int (?n div 2))
              = Some (Inr (?m1\<lparr>entries := es', sizef := int (card (liveIdx (entries ?m1)))\<rparr>))"
          "length es' = ?n div 2" "tabInv es' (int (card (liveIdx (entries ?m1))))"
        by blast
      let ?m' = "?m1\<lparr>entries := es', sizef := int (card (liveIdx (entries ?m1)))\<rparr>"
      have "capOK (length (entries ?m')) (sizef ?m')"
        using capOK_shrink(1) [OF co] True rs(2) c1 by simp
      then have "Map_inv ?m'" using rs(3) by (simp add: Map_inv_def)
      then show ?thesis using r rs(1,2) by simp
    next
      case False
      let ?T = "?es[q := ?z]"
      let ?i = "succMod ?n q"
      have r: "Map_Remove H m k = Map_repair ?m1 (of_nat ?i)"
        using rm False next_index [of ?T q] p2 q(1) by (simp add: initialCapacity_def)
      have gi: "gapInv ?T q ?i" using v q(1) z by (rule gapInv_init)
      have card: "card (liveIdx ?T) + 1 < length ?T" using c1 up lt by simp
      from second_free [of q ?T] q(1) card obtain e where e: "firstFree ?T ?i e" "e \<noteq> q" by auto
      have qi: "q \<noteq> ?i" using n16 by (auto simp: succMod_def)
      have "\<exists>es'. Map_repair ?m1 (of_nat ?i) = Some (Inr (?m1\<lparr>entries := es'\<rparr>))
          \<and> length es' = length (entries ?m1) \<and> valid es' \<and> nodup es'
          \<and> liveSet es' = liveSet (entries ?m1) \<and> card (liveIdx es') = card (liveIdx (entries ?m1))"
        using p2 gi qi nd1 e c1 up
        by (intro Map_repair_ok [of ?m1 q ?i e]) simp_all
      then obtain es' where
        rp: "Map_repair ?m1 (of_nat ?i) = Some (Inr (?m1\<lparr>entries := es'\<rparr>))"
          "length es' = ?n" "valid es'" "nodup es'" "card (liveIdx es') = card (liveIdx ?T)"
        by auto
      let ?m' = "?m1\<lparr>entries := es'\<rparr>"
      have p2': "pow2len es'" using p2 rp(2) by (simp add: pow2len_def)
      have "tabInv (entries ?m') (sizef ?m')"
        using p2' rp(3,4,5) c1 by (simp add: tabInv_def)
      moreover have "capOK (length (entries ?m')) (sizef ?m')"
        using co False n16 rp(2) unfolding capOK_def by auto
      ultimately have "Map_inv ?m'" by (simp add: Map_inv_def)
      then show ?thesis using r rp(1,2) by simp
    qed
  qed
qed

section \<open>The invariant of a Set\<close>

lemma xorAll_simps [simp]:
  "xorAll [] = 0"
  "xorAll (e # es) = hash1 e XOR xorAll es"
  by (simp_all add: xorAll_def)

lemma xorAll_update:
  "i < length es \<Longrightarrow> xorAll (es[i := x]) = xorAll es XOR hash1 (es ! i) XOR hash1 x"
proof (induction es arbitrary: i)
  case Nil
  then show ?case by simp
next
  case (Cons e es)
  show ?case
  proof (cases i)
    case 0
    then show ?thesis by (simp add: ac_simps)
  next
    case (Suc j)
    with Cons show ?thesis by (simp add: ac_simps)
  qed
qed

lemma xorAll_replicate: "hash1 z = 0 \<Longrightarrow> xorAll (replicate c z) = 0"
  by (induction c) simp_all

lemma Set_step_free: "hash1 e = 0 \<Longrightarrow> Set_step E s e = Some (Inr s)"
  by (simp add: Set_step_def)

lemma Set_step_live: "hash1 e \<noteq> 0 \<Longrightarrow> Set_step E s e = Set_addHash1Key E s (hash1 e) (key e)"
  by (simp add: Set_step_def)

lemma Set_resize_step:
  "Set_resize E s cap = foldR (Set_step E) (entries s)
     (s\<lparr>sizef := 0, hash := E, entries := replicate (nat cap) zeroSetEntry\<rparr>)"
  unfolding Set_resize_def Set_resizeWith_def Set_step_def [abs_def] ..

lemma Set_addHash1Key_new:
  fixes s :: "('k::zero) HSet"
  assumes p2: "pow2len (entries s)" and ab: "absent (entries s) h k"
    and fr: "e < length (entries s)" "hash1 (entries s ! e) = 0"
  shows "\<exists>f. firstFree (entries s) (homeOf (entries s) h) f
          \<and> Set_addHash1Key E s h k =
              (let s1 = s\<lparr>entries := (entries s)[f := \<lparr>hash1 = h, key = k\<rparr>],
                           sizef := sizef s + 1, hash := hash s XOR h\<rparr> in
               if sizef s1 > 3 * int (length (entries s1)) div 4
               then Set_resize E s1 (int (length (entries s1)) * 2) else Some (Inr s1))"
proof -
  let ?es = "entries s"
  have ne: "?es \<noteq> []" using fr(1) by auto
  have a: "homeOf ?es h < length ?es" using pow2len_pos [OF p2] by (rule homeOf_lt)
  from firstFree_ex [OF a fr] obtain f where ff: "firstFree ?es (homeOf ?es h) f" ..
  have f: "f < length ?es" using firstFree_free [OF ff] by simp
  have w: "unat (h AND lenMask ?es) = homeOf ?es h" using p2 by (rule home_word)
  have pr: "probe ?es h k (h AND lenMask ?es) = Some (Inr (of_nat f, False))"
    using ff a by (intro probe_absent p2 ab) (simp_all add: w)
  have uf: "unat (of_nat f :: 64 word) = f" using p2 f by (rule unat_of_nat_idx)
  have "Set_addHash1Key E s h k =
              (let s1 = s\<lparr>entries := (entries s)[f := \<lparr>hash1 = h, key = k\<rparr>],
                           sizef := sizef s + 1, hash := hash s XOR h\<rparr> in
               if sizef s1 > 3 * int (length (entries s1)) div 4
               then Set_resize E s1 (int (length (entries s1)) * 2) else Some (Inr s1))"
    by (subst Set_addHash1Key.simps) (simp add: ne pr bindR_def uf Set_resize_def Let_def)
  with ff show ?thesis by blast
qed

lemma Set_addHash1Key_present:
  fixes s :: "('k::zero) HSet"
  assumes "pow2len (entries s)" "valid (entries s)" "nodup (entries s)"
    and "q < length (entries s)" "hash1 (entries s ! q) = h" "key (entries s ! q) = k" "h \<noteq> 0"
  shows "Set_addHash1Key E s h k = Some (Inr s)"
proof -
  have "entries s \<noteq> []" using assms(4) by auto
  then show ?thesis
    by (subst Set_addHash1Key.simps) (simp add: probe_present [OF assms] bindR_def)
qed

lemma Set_fill:
  fixes acc :: "('k::zero) HSet"
  assumes "setOK E acc"
    and "distinct (map hk (liveL xs))"
    and "\<forall>x\<in>set (liveL xs). absent (entries acc) (hash1 x) (key x)"
    and "sizef acc + int (length (liveL xs)) \<le> 3 * int (length (entries acc)) div 4"
  shows "\<exists>s'. foldR (Set_step E) xs acc = Some (Inr s')
          \<and> length (entries s') = length (entries acc)
          \<and> sizef s' = sizef acc + int (length (liveL xs))
          \<and> setOK E s'
          \<and> liveSet (entries s') = liveSet (entries acc) \<union> set (liveL xs)"
  using assms
proof (induction xs arbitrary: acc)
  case Nil
  then show ?case by simp
next
  case (Cons x xs)
  show ?case
  proof (cases "hash1 x = 0")
    case True
    with Cons.prems have "\<exists>s'. foldR (Set_step E) xs acc = Some (Inr s')
          \<and> length (entries s') = length (entries acc)
          \<and> sizef s' = sizef acc + int (length (liveL xs))
          \<and> setOK E s'
          \<and> liveSet (entries s') = liveSet (entries acc) \<union> set (liveL xs)"
      by (intro Cons.IH) simp_all
    with True show ?thesis by (simp add: Set_step_free bindR_def)
  next
    case False
    let ?es = "entries acc"
    let ?n = "length ?es"
    have ti: "tabInv ?es (sizef acc)" and hs: "hash acc = E XOR xorAll ?es"
      using Cons.prems(1) by (simp_all add: setOK_def)
    then have p2: "pow2len ?es" by (simp add: tabInv_def)
    have npos: "0 < ?n" using p2 by (rule pow2len_pos)
    have bound: "sizef acc + 1 + int (length (liveL xs)) \<le> 3 * int ?n div 4"
      using Cons.prems(4) False by simp
    then have lt: "sizef acc < int ?n" using three_quarters_less [OF npos] by simp
    from tabInv_free [OF ti lt] obtain e where e: "e < ?n" "hash1 (?es ! e) = 0" by blast
    have ab: "absent ?es (hash1 x) (key x)" using Cons.prems(3) False by simp
    from Set_addHash1Key_new [OF p2 ab e, of E] obtain f where
      ff: "firstFree ?es (homeOf ?es (hash1 x)) f" and
      put: "Set_addHash1Key E acc (hash1 x) (key x) =
              (let s1 = acc\<lparr>entries := ?es[f := \<lparr>hash1 = hash1 x, key = key x\<rparr>],
                           sizef := sizef acc + 1, hash := hash acc XOR hash1 x\<rparr> in
               if sizef s1 > 3 * int (length (entries s1)) div 4
               then Set_resize E s1 (int (length (entries s1)) * 2) else Some (Inr s1))"
      by blast
    let ?s1 = "acc\<lparr>entries := ?es[f := x], sizef := sizef acc + 1, hash := hash acc XOR hash1 x\<rparr>"
    have put': "Set_addHash1Key E acc (hash1 x) (key x) = Some (Inr ?s1)"
      using put bound by (simp add: setEntry_eta Let_def)
    have f: "f < ?n" "hash1 (?es ! f) = 0" using firstFree_free [OF ff] by simp_all
    have ti1: "tabInv (entries ?s1) (sizef ?s1)"
      using tabInv_insert [OF ti ab False ff] by simp
    have hs1: "hash ?s1 = E XOR xorAll (entries ?s1)"
      using hs f by (simp add: xorAll_update ac_simps)
    have ok1: "setOK E ?s1" using ti1 hs1 by (simp add: setOK_def)
    have d1: "distinct (map hk (liveL xs))" using Cons.prems(2) False by simp
    have nx: "hk x \<notin> hk ` set (liveL xs)" using Cons.prems(2) False by simp
    have ab1: "\<forall>y\<in>set (liveL xs). absent (entries ?s1) (hash1 y) (key y)"
    proof
      fix y assume y: "y \<in> set (liveL xs)"
      then have "absent ?es (hash1 y) (key y)" using Cons.prems(3) False by simp
      moreover have "\<not> (hash1 x = hash1 y \<and> key x = key y)"
        using nx y by (auto simp: hk_def image_iff)
      ultimately show "absent (entries ?s1) (hash1 y) (key y)"
        by (simp add: absent_insert [OF f(1) False f(2)])
    qed
    have b1: "sizef ?s1 + int (length (liveL xs)) \<le> 3 * int (length (entries ?s1)) div 4"
      using bound by simp
    from Cons.IH [OF ok1 d1 ab1 b1] obtain s' where
      r: "foldR (Set_step E) xs ?s1 = Some (Inr s')"
      "length (entries s') = length (entries ?s1)"
      "sizef s' = sizef ?s1 + int (length (liveL xs))"
      "setOK E s'"
      "liveSet (entries s') = liveSet (entries ?s1) \<union> set (liveL xs)"
      by blast
    have "foldR (Set_step E) (x # xs) acc = Some (Inr s')"
      using r(1) False put' by (simp add: Set_step_live bindR_def)
    moreover have "length (entries s') = ?n" using r(2) by simp
    moreover have "sizef s' = sizef acc + int (length (liveL (x # xs)))"
      using r(3) False by simp
    moreover have "liveSet (entries s') = liveSet ?es \<union> set (liveL (x # xs))"
      using r(5) False by (simp add: liveSet_insert [OF f(1) False f(2)])
    ultimately show ?thesis using r(4) by blast
  qed
qed

lemma Set_resize_ok:
  fixes s :: "('k::zero) HSet"
  assumes nd: "nodup (entries s)" and c: "c = 2 ^ k" "k \<le> 64"
    and bd: "int (card (liveIdx (entries s))) \<le> 3 * int c div 4"
  shows "\<exists>s'. Set_resize E s (int c) = Some (Inr s')
          \<and> length (entries s') = c \<and> sizef s' = int (card (liveIdx (entries s)))
          \<and> setOK E s' \<and> liveSet (entries s') = liveSet (entries s)"
proof -
  let ?z = "zeroSetEntry :: 'k setEntry"
  let ?acc = "s\<lparr>sizef := 0, hash := E, entries := replicate c ?z\<rparr>"
  have z: "hash1 ?z = 0" by (simp add: zeroSetEntry_def)
  have 1: "setOK E ?acc"
    using fresh_table(1) [OF c z] z by (simp add: setOK_def xorAll_replicate)
  have 2: "distinct (map hk (liveL (entries s)))" using nd by (rule nodup_distinct)
  have 3: "\<forall>x\<in>set (liveL (entries s)). absent (entries ?acc) (hash1 x) (key x)"
    using fresh_table(2) [OF c z] by simp
  have 4: "sizef ?acc + int (length (liveL (entries s))) \<le> 3 * int (length (entries ?acc)) div 4"
    using bd by (simp add: length_liveL)
  from Set_fill [OF 1 2 3 4] obtain s' where
    r: "foldR (Set_step E) (entries s) ?acc = Some (Inr s')"
      "length (entries s') = length (entries ?acc)"
      "sizef s' = sizef ?acc + int (length (liveL (entries s)))"
      "setOK E s'"
      "liveSet (entries s') = liveSet (entries ?acc) \<union> set (liveL (entries s))"
    by blast
  have "Set_resize E s (int c) = Some (Inr s')" using r(1) by (simp add: Set_resize_step)
  moreover have "length (entries s') = c" using r(2) by simp
  moreover have "sizef s' = int (card (liveIdx (entries s)))" using r(3) by (simp add: length_liveL)
  moreover have "liveSet (entries s') = liveSet (entries s)"
    using r(5) fresh_table(3) [OF c z] by (simp add: set_liveL)
  ultimately show ?thesis using r(4) by blast
qed

lemma Set_addHash1Key_init:
  fixes s :: "('k::zero) HSet"
  assumes "entries s = []"
  shows "Set_addHash1Key E s h k = Set_addHash1Key E (Set_init E s) h k"
  apply (subst Set_addHash1Key.simps [of E s])
  apply (subst Set_addHash1Key.simps [of E "Set_init E s"])
  apply (simp add: assms Set_init_def initialCapacity_def)
  done

lemma Set_addHash1Key_ok:
  fixes s :: "('k::zero) HSet"
  assumes ok: "setOK E s" and co: "capOK (length (entries s)) (sizef s)"
    and h: "h \<noteq> 0" and fit: "length (entries s) < 2 ^ 64"
  shows "\<exists>s'. Set_addHash1Key E s h k = Some (Inr s')
          \<and> setOK E s' \<and> capOK (length (entries s')) (sizef s')
          \<and> liveSet (entries s') = insert \<lparr>hash1 = h, key = k\<rparr> (liveSet (entries s))
          \<and> (if absent (entries s) h k then sizef s' = sizef s + 1 else s' = s)"
proof -
  let ?es = "entries s"
  let ?n = "length ?es"
  let ?x = "\<lparr>hash1 = h, key = k\<rparr>"
  from ok have ti: "tabInv ?es (sizef s)" and hs: "hash s = E XOR xorAll ?es"
    by (simp_all add: setOK_def)
  from ti have p2: "pow2len ?es" and v: "valid ?es" and nd: "nodup ?es"
    and sz: "sizef s = int (card (liveIdx ?es))" by (simp_all add: tabInv_def)
  from present_or_absent [OF h, of ?es k] show ?thesis
  proof
    assume "\<exists>q<?n. hash1 (?es ! q) = h \<and> key (?es ! q) = k"
    then obtain q where q: "q < ?n" "hash1 (?es ! q) = h" "key (?es ! q) = k" by blast
    have xq: "?es ! q = ?x" using q setEntry_eta [of "?es ! q"] by simp
    have "?es ! q \<in> liveSet ?es" using liveSetI [of q ?es] q h by simp
    then have "?x \<in> liveSet ?es" by (simp only: xq)
    then have ls: "liveSet ?es = insert ?x (liveSet ?es)" by blast
    have "Set_addHash1Key E s h k = Some (Inr s)"
      using p2 v nd q h by (rule Set_addHash1Key_present)
    moreover have "\<not> absent ?es h k" using q h by (auto dest: absentD)
    ultimately show ?thesis using ok co ls by simp
  next
    assume ab: "absent ?es h k"
    have up: "sizef s \<le> 3 * int ?n div 4" using co by (simp add: capOK_def)
    have "sizef s < int ?n" using up capOK_len [OF co] by simp
    from tabInv_free [OF ti this] obtain e where e: "e < ?n" "hash1 (?es ! e) = 0" by blast
    from Set_addHash1Key_new [OF p2 ab e, of E] obtain f where
      ff: "firstFree ?es (homeOf ?es h) f" and
      put: "Set_addHash1Key E s h k =
              (let s1 = s\<lparr>entries := ?es[f := ?x], sizef := sizef s + 1, hash := hash s XOR h\<rparr> in
               if sizef s1 > 3 * int (length (entries s1)) div 4
               then Set_resize E s1 (int (length (entries s1)) * 2) else Some (Inr s1))"
      by blast
    let ?s1 = "s\<lparr>entries := ?es[f := ?x], sizef := sizef s + 1, hash := hash s XOR h\<rparr>"
    have f: "f < ?n" "hash1 (?es ! f) = 0" using firstFree_free [OF ff] by simp_all
    have ti1: "tabInv (?es[f := ?x]) (sizef s + 1)"
      using tabInv_insert [OF ti, of ?x f] ab h ff by simp
    have ls1: "liveSet (?es[f := ?x]) = insert ?x (liveSet ?es)"
      using liveSet_insert [OF f(1) _ f(2), of ?x] h by simp
    have ok1: "setOK E ?s1" using ti1 hs f by (simp add: setOK_def xorAll_update ac_simps)
    show ?thesis
    proof (cases "sizef s + 1 \<le> 3 * int ?n div 4")
      case True
      then have "Set_addHash1Key E s h k = Some (Inr ?s1)" using put by (simp add: Let_def)
      moreover have "capOK (length (entries ?s1)) (sizef ?s1)"
        using capOK_same_up [OF co True] by simp
      ultimately show ?thesis using ok1 ls1 ab by simp
    next
      case False
      then have r: "Set_addHash1Key E s h k = Set_resize E ?s1 (int (2 * ?n))"
        using put by (simp add: Let_def mult.commute)
      from pow2len_double [OF p2 fit] obtain k' where k': "k' \<le> 64" "2 * ?n = 2 ^ k'" by blast
      have nd1: "nodup (entries ?s1)" using ti1 by (simp add: tabInv_def)
      have c1: "int (card (liveIdx (entries ?s1))) = sizef s + 1" using ti1 by (simp add: tabInv_def)
      have bd: "int (card (liveIdx (entries ?s1))) \<le> 3 * int (2 * ?n) div 4"
        using capOK_grow(2) [OF co False] c1 by simp
      from Set_resize_ok [OF nd1 k'(2) k'(1) bd, of E] obtain s' where
        rs: "Set_resize E ?s1 (int (2 * ?n)) = Some (Inr s')"
          "length (entries s') = 2 * ?n" "sizef s' = int (card (liveIdx (entries ?s1)))"
          "setOK E s'" "liveSet (entries s') = liveSet (entries ?s1)"
        by blast
      have "Set_addHash1Key E s h k = Some (Inr s')" using r rs(1) by simp
      moreover have "capOK (length (entries s')) (sizef s')"
        using capOK_grow(1) [OF co False] rs(2,3) c1 by simp
      moreover have "liveSet (entries s') = insert ?x (liveSet ?es)" using rs(5) ls1 by simp
      moreover have "sizef s' = sizef s + 1" using rs(3) c1 by simp
      ultimately show ?thesis using ab rs(4) by (intro exI [of _ s']) simp
    qed
  qed
qed

lemma Set_addHash1Key_inv:
  fixes s :: "('k::zero) HSet"
  assumes inv: "Set_inv E s" and h: "h \<noteq> 0" and fit: "length (entries s) < 2 ^ 64"
  shows "\<exists>s'. Set_addHash1Key E s h k = Some (Inr s') \<and> Set_inv E s' \<and> entries s' \<noteq> []
          \<and> liveSet (entries s') = insert \<lparr>hash1 = h, key = k\<rparr> (liveSet (entries s))"
proof -
  let ?s0 = "if entries s = [] then Set_init E s else s"
  have z: "hash1 (zeroSetEntry :: 'k setEntry) = 0" by (simp add: zeroSetEntry_def)
  have eq: "Set_addHash1Key E s h k = Set_addHash1Key E ?s0 h k"
    using Set_addHash1Key_init [of s E h k] by simp
  have l0: "liveSet (entries ?s0) = liveSet (entries s)"
    using fresh_table(3) [of 16 4 "zeroSetEntry :: 'k setEntry"] z
    by (auto simp: Set_init_def initialCapacity_def elim!: liveSetE)
  have "setOK E ?s0 \<and> capOK (length (entries ?s0)) (sizef ?s0) \<and> length (entries ?s0) < 2 ^ 64"
  proof (cases "entries s = []")
    case True
    then have s0: "sizef s = 0" using inv by (auto simp: Set_inv_def setOK_def tabInv_def pow2len_def)
    have "tabInv (replicate 16 (zeroSetEntry :: 'k setEntry)) 0"
      by (rule fresh_table(1) [of 16 4]) (simp_all add: z)
    then show ?thesis
      using True s0 z by (simp add: Set_init_def initialCapacity_def capOK_16 setOK_def xorAll_replicate)
  next
    case False
    then show ?thesis using inv fit by (simp add: Set_inv_def)
  qed
  then obtain s' where "Set_addHash1Key E ?s0 h k = Some (Inr s')"
    "setOK E s'" "capOK (length (entries s')) (sizef s')"
    "liveSet (entries s') = insert \<lparr>hash1 = h, key = k\<rparr> (liveSet (entries ?s0))"
    using Set_addHash1Key_ok [of E ?s0 h k] h by blast
  moreover from this have "entries s' \<noteq> []" using capOK_len [of "length (entries s')"] by auto
  ultimately show ?thesis using eq l0 by (auto simp: Set_inv_def)
qed

lemma xorAll_reinsert:
  fixes es :: "('k, 'z) setEntry_scheme list"
  assumes "i < length es" "f < length es" "hash1 z = 0" "hash1 (es[i := z] ! f) = 0"
  shows "xorAll (es[i := z, f := es ! i]) = xorAll es"
proof -
  have "xorAll (es[i := z, f := es ! i])
      = xorAll (es[i := z]) XOR hash1 (es[i := z] ! f) XOR hash1 (es ! i)"
    using xorAll_update [of f "es[i := z]" "es ! i"] assms(2) by simp
  also have "\<dots> = (xorAll es XOR hash1 (es ! i) XOR hash1 z) XOR hash1 (es ! i)"
    using xorAll_update [of i es z] assms(1,4) by simp
  also have "\<dots> = xorAll es" using assms(3) by (simp add: ac_simps)
  finally show ?thesis .
qed

lemma Set_repair_ok:
  fixes s :: "('k::zero) HSet"
  assumes "pow2len (entries s)" "gapInv (entries s) g i" "g \<noteq> i" "nodup (entries s)"
    and "firstFree (entries s) i e" "e \<noteq> g"
    and "sizef s = int (card (liveIdx (entries s)))"
    and "sizef s \<le> 3 * int (length (entries s)) div 4"
    and "hash s = E XOR xorAll (entries s)"
  shows "\<exists>s'. Set_repair E s (of_nat i) = Some (Inr s')
          \<and> length (entries s') = length (entries s) \<and> valid (entries s') \<and> nodup (entries s')
          \<and> liveSet (entries s') = liveSet (entries s)
          \<and> card (liveIdx (entries s')) = card (liveIdx (entries s))
          \<and> sizef s' = sizef s \<and> hash s' = E XOR xorAll (entries s')"
  using assms
proof (induction "dist (length (entries s)) i e" arbitrary: s g i)
  case 0
  let ?es = "entries s"
  have b: "g < length ?es" "i < length ?es" using gapInv_bounds [OF "0.prems"(2)] by simp_all
  have e: "e < length ?es" "hash1 (?es ! e) = 0" using firstFree_free [OF "0.prems"(5)] by simp_all
  have "i = e" using "0.hyps" dist_eq_0 [OF b(2) e(1)] by simp
  then have ei: "hash1 (?es ! i) = 0" using e by simp
  have ui: "unat (of_nat i :: 64 word) = i" using "0.prems"(1) b(2) by (rule unat_of_nat_idx)
  have "Set_repair E s (of_nat i) = Some (Inr s)"
    by (subst Set_repair.simps) (use ui b ei in simp)
  moreover have "valid ?es" using "0.prems"(2,3) ei by (rule gapInv_exit)
  ultimately show ?case using "0.prems"(4,9) by (intro exI [of _ s]) simp
next
  case (Suc d)
  let ?es = "entries s"
  let ?n = "length ?es"
  let ?z = "zeroSetEntry :: 'k setEntry"
  let ?x = "?es ! i"
  let ?i' = "succMod ?n i"
  note p2 = Suc.prems(1) and gi = Suc.prems(2) and ne = Suc.prems(3) and nd = Suc.prems(4)
    and ffe = Suc.prems(5) and eg = Suc.prems(6) and sz = Suc.prems(7) and bd = Suc.prems(8)
    and hs = Suc.prems(9)
  have z: "hash1 ?z = 0" by (simp add: zeroSetEntry_def)
  have b: "g < ?n" "i < ?n" "hash1 (?es ! g) = 0" using gapInv_bounds [OF gi] by simp_all
  have e: "e < ?n" "hash1 (?es ! e) = 0" using firstFree_free [OF ffe] by simp_all
  have "dist ?n i i < dist ?n i e" using Suc.hyps(2) by simp
  from firstFreeD [OF ffe b(2) this] have li: "hash1 ?x \<noteq> 0" .
  have ui: "unat (of_nat i :: 64 word) = i" using p2 b(2) by (rule unat_of_nat_idx)
  let ?s1 = "s\<lparr>entries := ?es[i := ?z], sizef := sizef s - 1, hash := hash s XOR hash1 ?x\<rparr>"
  have p21: "pow2len (entries ?s1)" using p2 by simp
  have ab: "absent (entries ?s1) (hash1 ?x) (key ?x)"
    using absent_after_clear [OF nd b(2) li z] by simp
  have fr: "i < length (entries ?s1)" "hash1 (entries ?s1 ! i) = 0" using b z by simp_all
  from Set_addHash1Key_new [OF p21 ab fr, of E] obtain f where
    ff: "firstFree (?es[i := ?z]) (homeOf ?es (hash1 ?x)) f" and
    put: "Set_addHash1Key E ?s1 (hash1 ?x) (key ?x) =
            (let s2 = ?s1\<lparr>entries := (entries ?s1)[f := \<lparr>hash1 = hash1 ?x, key = key ?x\<rparr>],
                         sizef := sizef ?s1 + 1, hash := hash ?s1 XOR hash1 ?x\<rparr> in
             if sizef s2 > 3 * int (length (entries s2)) div 4
             then Set_resize E s2 (int (length (entries s2)) * 2) else Some (Inr s2))"
    by auto
  let ?T = "?es[i := ?z, f := ?x]"
  let ?s2 = "s\<lparr>entries := ?T\<rparr>"
  have put': "Set_addHash1Key E ?s1 (hash1 ?x) (key ?x) = Some (Inr ?s2)"
    using put bd by (simp add: setEntry_eta Let_def ac_simps)
  have f: "f < ?n" "hash1 (?es[i := ?z] ! f) = 0" using firstFree_free [OF ff] by simp_all
  from landing_cases [OF gi ne li z ff] have fgi: "f = g \<or> f = i" .
  have same: "\<And>s. s < ?n \<Longrightarrow> s \<noteq> i \<Longrightarrow> s \<noteq> g \<Longrightarrow> ?T ! s = ?es ! s"
    using fgi by auto
  from firstFree_step [OF ffe b(2) li b(3) eg _ same]
  have st: "firstFree ?T ?i' e" "dist ?n ?i' e < dist ?n i e" "?i' \<noteq> g" by simp_all
  have ei: "e \<noteq> i" using e li by auto
  have i'i: "?i' \<noteq> i" using st(2) by auto
  define g' where "g' = (if f = g then i else g)"
  have gi': "gapInv ?T g' ?i'"
  proof (cases "f = g")
    case True
    then show ?thesis using gapInv_step_move [OF gi ne li z refl] ff by (simp add: g'_def)
  next
    case False
    with fgi have fi: "f = i" by simp
    then have "?T = ?es[i := ?x]" by simp
    moreover have "g' = g" using False by (simp add: g'_def)
    ultimately show ?thesis using gapInv_step_stay [OF gi ne li z refl _ st(3)] ff fi by simp
  qed
  have g'i': "g' \<noteq> ?i'" using st(3) i'i by (auto simp: g'_def)
  have eg': "e \<noteq> g'" using eg ei by (simp add: g'_def)
  from liveSet_reinsert [OF nd b(2) li z f]
  have re: "liveSet ?T = liveSet ?es" "card (liveIdx ?T) = card (liveIdx ?es)" "nodup ?T" .
  have xr: "xorAll ?T = xorAll ?es" using b(2) f(1) z f(2) by (rule xorAll_reinsert)
  have d: "d = dist (length (entries ?s2)) ?i' e"
    using Suc.hyps(2) dist_succ_left [OF b(2) e(1)] ei by simp
  have "\<exists>s'. Set_repair E ?s2 (of_nat ?i') = Some (Inr s')
          \<and> length (entries s') = length (entries ?s2) \<and> valid (entries s') \<and> nodup (entries s')
          \<and> liveSet (entries s') = liveSet (entries ?s2)
          \<and> card (liveIdx (entries s')) = card (liveIdx (entries ?s2))
          \<and> sizef s' = sizef ?s2 \<and> hash s' = E XOR xorAll (entries s')"
    using p2 gi' g'i' re st(1) eg' sz bd hs xr
    by (intro Suc.hyps(1) [OF d, of g']) simp_all
  then obtain s' where
    r: "Set_repair E ?s2 (of_nat ?i') = Some (Inr s')"
      "length (entries s') = ?n" "valid (entries s')" "nodup (entries s')"
      "liveSet (entries s') = liveSet ?es"
      "card (liveIdx (entries s')) = card (liveIdx ?es)"
      "sizef s' = sizef s" "hash s' = E XOR xorAll (entries s')"
    using re by auto
  have nx: "(of_nat i + 1) AND lenMask ?T = (of_nat ?i' :: 64 word)"
    using next_index [of ?T i] p2 b(2) by simp
  have "Set_repair E s (of_nat i) = Some (Inr s')"
    by (subst Set_repair.simps) (use ui b li put' r(1) nx in \<open>simp add: Let_def bindR_def\<close>)
  with r show ?case by blast
qed

lemma dist_after:
  "g < n \<Longrightarrow> j < n \<Longrightarrow> s < n \<Longrightarrow> g \<noteq> j \<Longrightarrow> dist n g j < dist n g s \<Longrightarrow>
   dist n j s < dist n j g"
  by (auto simp: dist_def split: if_splits)

lemma free_after_differs:
  fixes es :: "('k, 'z) setEntry_scheme list"
  assumes gi: "gapInv es g j" and lj: "hash1 (es ! j) \<noteq> 0" and ff: "firstFree es j e"
    and c: "card (liveIdx es) + 1 < length es"
  shows "e \<noteq> g"
proof
  assume eg: "e = g"
  let ?n = "length es"
  have b: "g < ?n" "j < ?n" "hash1 (es ! g) = 0" using gapInv_bounds [OF gi] by simp_all
  have gj: "g \<noteq> j" using b lj by auto
  have "hash1 (es ! s) \<noteq> 0" if s: "s < ?n" "s \<noteq> g" for s
  proof -
    have pos: "0 < dist ?n g s" using dist_eq_0 [OF b(1) s(1)] s(2) by auto
    consider "dist ?n g s < dist ?n g j" | "dist ?n g s = dist ?n g j" | "dist ?n g j < dist ?n g s"
      by linarith
    then show ?thesis
    proof cases
      case 1
      from gapInv_between [OF gi s(1) pos 1] show ?thesis .
    next
      case 2
      then have "s = j" using dist_inj [OF b(1) s(1) b(2)] by simp
      then show ?thesis using lj by simp
    next
      case 3
      from dist_after [OF b(1) b(2) s(1) gj 3] have "dist ?n j s < dist ?n j e" using eg by simp
      from firstFreeD [OF ff s(1) this] show ?thesis .
    qed
  qed
  then have "{..<?n} - {g} \<subseteq> liveIdx es" by (auto simp: liveIdx_def)
  then have "card ({..<?n} - {g}) \<le> card (liveIdx es)" by (intro card_mono) simp_all
  moreover have "card ({..<?n} - {g}) = ?n - 1" using b(1) by simp
  ultimately show False using c by simp
qed

lemma capOK_room: "capOK n sz \<Longrightarrow> sz + 1 < int n \<and> sz \<le> 3 * int n div 4"
proof -
  assume c: "capOK n sz"
  then obtain k where k: "4 \<le> k" "n = 2 ^ k" and up: "sz \<le> 3 * int n div 4"
    unfolding capOK_def by blast
  from pow2_ge4 [OF k] obtain j where "1 \<le> j" "n = 16 * j" by blast
  with up show ?thesis by simp
qed

lemma Set_repair_valid:
  fixes s :: "('k::zero) HSet"
  assumes ok: "setOK E s" and j: "j < length (entries s)"
    and c: "sizef s + 1 < int (length (entries s))"
    and bd: "sizef s \<le> 3 * int (length (entries s)) div 4"
  shows "\<exists>s'. Set_repair E s (of_nat j) = Some (Inr s')
          \<and> length (entries s') = length (entries s) \<and> setOK E s'
          \<and> liveSet (entries s') = liveSet (entries s) \<and> sizef s' = sizef s"
proof -
  let ?es = "entries s"
  let ?n = "length ?es"
  from ok have ti: "tabInv ?es (sizef s)" and hs: "hash s = E XOR xorAll ?es"
    by (simp_all add: setOK_def)
  from ti have p2: "pow2len ?es" and v: "valid ?es" and nd: "nodup ?es"
    and sz: "sizef s = int (card (liveIdx ?es))" by (simp_all add: tabInv_def)
  have uj: "unat (of_nat j :: 64 word) = j" using p2 j by (rule unat_of_nat_idx)
  show ?thesis
  proof (cases "hash1 (?es ! j) = 0")
    case True
    have "Set_repair E s (of_nat j) = Some (Inr s)"
      by (subst Set_repair.simps) (use uj j True in simp)
    then show ?thesis using ok by simp
  next
    case False
    have "sizef s < int ?n" using c by simp
    from tabInv_free [OF ti this] obtain e0 where e0: "e0 < ?n" "hash1 (?es ! e0) = 0" by blast
    from gapInv_of_valid [OF v j e0] obtain g where gi: "gapInv ?es g j" ..
    have gj: "g \<noteq> j" using gapInv_bounds [OF gi] False by auto
    from firstFree_ex [OF j e0] obtain e where ff: "firstFree ?es j e" ..
    have card: "card (liveIdx ?es) + 1 < ?n" using c sz by simp
    have eg: "e \<noteq> g" using gi False ff card by (rule free_after_differs)
    from Set_repair_ok [OF p2 gi gj nd ff eg sz bd hs] obtain s' where
      r: "Set_repair E s (of_nat j) = Some (Inr s')"
        "length (entries s') = ?n" "valid (entries s')" "nodup (entries s')"
        "liveSet (entries s') = liveSet ?es"
        "card (liveIdx (entries s')) = card (liveIdx ?es)"
        "sizef s' = sizef s" "hash s' = E XOR xorAll (entries s')"
      by blast
    have "pow2len (entries s')" using p2 r(2) by (simp add: pow2len_def)
    then have "setOK E s'" using r sz by (simp add: setOK_def tabInv_def)
    with r show ?thesis by blast
  qed
qed

lemma index_after_resize:
  assumes p2: "pow2len es" and ne: "0 < length es"
  shows "\<exists>j<length es. (w + 1) AND lenMask es = (of_nat j :: 64 word)"
proof -
  obtain k where k: "k \<le> 64" "length es = 2 ^ k" using p2 by (auto simp: pow2len_def)
  have "unat ((w + 1) AND lenMask es) = (unat w + 1) mod length es"
    using k by (intro unat_succ_and_lenMask) simp_all
  moreover have "(unat w + 1) mod length es < length es" using ne by simp
  ultimately show ?thesis using word_of_unat_eq by blast
qed

lemma Set_removeHash1Key_ok:
  fixes s :: "('k::zero) HSet"
  assumes ok: "setOK E s" and co: "capOK (length (entries s)) (sizef s)" and h: "h \<noteq> 0"
  shows "\<exists>s'. Set_removeHash1Key E s h k = Some (Inr s')
          \<and> setOK E s' \<and> capOK (length (entries s')) (sizef s')
          \<and> liveSet (entries s') = liveSet (entries s) - {\<lparr>hash1 = h, key = k\<rparr>}
          \<and> (if absent (entries s) h k then s' = s else sizef s' = sizef s - 1)
          \<and> length (entries s') \<le> length (entries s)"
proof -
  let ?es = "entries s"
  let ?n = "length ?es"
  let ?z = "zeroSetEntry :: 'k setEntry"
  let ?x = "\<lparr>hash1 = h, key = k\<rparr>"
  have z: "hash1 ?z = 0" by (simp add: zeroSetEntry_def)
  from ok have ti: "tabInv ?es (sizef s)" and hs: "hash s = E XOR xorAll ?es"
    by (simp_all add: setOK_def)
  from ti have p2: "pow2len ?es" and v: "valid ?es" and nd: "nodup ?es"
    and sz: "sizef s = int (card (liveIdx ?es))" by (simp_all add: tabInv_def)
  have up: "sizef s \<le> 3 * int ?n div 4" using co by (simp add: capOK_def)
  have n16: "16 \<le> ?n" and lt: "3 * int ?n div 4 < int ?n" using capOK_len [OF co] by simp_all
  have a: "homeOf ?es h < ?n" using pow2len_pos [OF p2] by (rule homeOf_lt)
  have w: "unat (h AND lenMask ?es) = homeOf ?es h" using p2 by (rule home_word)
  from present_or_absent [OF h, of ?es k] show ?thesis
  proof
    assume ab: "absent ?es h k"
    have "sizef s < int ?n" using up lt by simp
    from tabInv_free [OF ti this] obtain e where e: "e < ?n" "hash1 (?es ! e) = 0" by blast
    from firstFree_ex [OF a e] obtain f where ff: "firstFree ?es (homeOf ?es h) f" ..
    have "probe ?es h k (h AND lenMask ?es) = Some (Inr (of_nat f, False))"
      using ff a by (intro probe_absent p2 ab) (simp_all add: w)
    then have "Set_removeHash1Key E s h k = Some (Inr s)"
      by (simp add: Set_removeHash1Key_def bindR_def)
    moreover have "?x \<notin> liveSet ?es" using ab by (auto simp: absent_iff_liveSet)
    ultimately show ?thesis using ok co ab by simp
  next
    assume "\<exists>q<?n. hash1 (?es ! q) = h \<and> key (?es ! q) = k"
    then obtain q where q: "q < ?n" "hash1 (?es ! q) = h" "key (?es ! q) = k" by blast
    have lq: "hash1 (?es ! q) \<noteq> 0" using q h by simp
    have nab: "\<not> absent ?es h k" using q h by (auto dest: absentD)
    have xq: "?es ! q = ?x" using q setEntry_eta [of "?es ! q"] by simp
    have pr: "probe ?es h k (h AND lenMask ?es) = Some (Inr (of_nat q, True))"
      using p2 v nd q h by (rule probe_present)
    have uq: "unat (of_nat q :: 64 word) = q" using p2 q(1) by (rule unat_of_nat_idx)
    let ?T = "?es[q := ?z]"
    let ?s1 = "s\<lparr>entries := ?T, sizef := sizef s - 1, hash := hash s XOR h\<rparr>"
    have rm: "Set_removeHash1Key E s h k =
        bindR (if int ?n > int initialCapacity \<and> sizef s - 1 < int ?n div 4
               then Set_resize E ?s1 (int ?n div 2) else Some (Inr ?s1))
          (\<lambda>s2. Set_repair E s2 ((of_nat q + 1) AND lenMask (entries s2)))"
      using pr uq by (simp add: Set_removeHash1Key_def bindR_def Let_def)
    have nd1: "nodup ?T" using nodup_clear [OF nd z] by simp
    have "q \<in> liveIdx ?es" using q(1) lq by (simp add: liveIdx_def)
    then have "liveIdx ?es \<noteq> {}" by blast
    then have "0 < card (liveIdx ?es)" by (simp add: card_gt_0_iff)
    then have c1: "int (card (liveIdx ?T)) = sizef s - 1"
      using card_liveIdx_clear [OF q(1) z lq] sz by simp
    have hs1: "hash ?s1 = E XOR xorAll ?T"
      using hs q z by (simp add: xorAll_update ac_simps)
    have ls1: "liveSet ?T = liveSet ?es - {?x}" using liveSet_clear [OF nd z q(1) lq] xq by simp
    show ?thesis
    proof (cases "16 < ?n \<and> sizef s - 1 < int ?n div 4")
      case True
      from pow2len_half [OF p2] n16 obtain k' where k': "k' \<le> 64" "?n div 2 = 2 ^ k'" by auto
      have bd: "int (card (liveIdx (entries ?s1))) \<le> 3 * int (?n div 2) div 4"
        using capOK_shrink(2) [OF co] True c1 by simp
      have nd1': "nodup (entries ?s1)" using nd1 by simp
      from Set_resize_ok [OF nd1' k'(2) k'(1) bd, of E] obtain s2 where
        rs: "Set_resize E ?s1 (int (?n div 2)) = Some (Inr s2)"
          "length (entries s2) = ?n div 2" "sizef s2 = int (card (liveIdx (entries ?s1)))"
          "setOK E s2" "liveSet (entries s2) = liveSet (entries ?s1)"
        by blast
      have co2: "capOK (length (entries s2)) (sizef s2)"
        using capOK_shrink(1) [OF co] True rs(2,3) c1 by simp
      have p22: "pow2len (entries s2)" using rs(4) by (simp add: setOK_def tabInv_def)
      from index_after_resize [OF p22 pow2len_pos [OF p22], of "of_nat q"] obtain j where
        j: "j < length (entries s2)" "(of_nat q + 1) AND lenMask (entries s2) = (of_nat j :: 64 word)"
        by blast
      have c2: "sizef s2 + 1 < int (length (entries s2))"
        and b2: "sizef s2 \<le> 3 * int (length (entries s2)) div 4"
        using capOK_room [OF co2] by simp_all
      from Set_repair_valid [OF rs(4) j(1) c2 b2] obtain s' where
        r: "Set_repair E s2 (of_nat j) = Some (Inr s')"
          "length (entries s') = length (entries s2)" "setOK E s'"
          "liveSet (entries s') = liveSet (entries s2)" "sizef s' = sizef s2"
        by blast
      have "Set_removeHash1Key E s h k = Some (Inr s')"
        using rm True rs(1) r(1) j(2) by (simp add: initialCapacity_def zdiv_int bindR_def)
      moreover have "capOK (length (entries s')) (sizef s')" using co2 r(2,5) by simp
      moreover have "liveSet (entries s') = liveSet ?es - {?x}" using r(4) rs(5) ls1 by simp
      moreover have "sizef s' = sizef s - 1" using r(5) rs(3) c1 by simp
      moreover have "length (entries s') \<le> ?n" using r(2) rs(2) by simp
      ultimately show ?thesis using r(3) nab by (intro exI [of _ s']) simp
    next
      case False
      let ?i = "succMod ?n q"
      have r: "Set_removeHash1Key E s h k = Set_repair E ?s1 (of_nat ?i)"
        using rm False next_index [of ?T q] p2 q(1) by (simp add: initialCapacity_def bindR_def)
      have gi: "gapInv ?T q ?i" using v q(1) z by (rule gapInv_init)
      have card: "card (liveIdx ?T) + 1 < length ?T" using c1 up lt by simp
      from second_free [of q ?T] q(1) card obtain e where e: "firstFree ?T ?i e" "e \<noteq> q" by auto
      have qi: "q \<noteq> ?i" using n16 by (auto simp: succMod_def)
      have "\<exists>s'. Set_repair E ?s1 (of_nat ?i) = Some (Inr s')
          \<and> length (entries s') = length (entries ?s1) \<and> valid (entries s') \<and> nodup (entries s')
          \<and> liveSet (entries s') = liveSet (entries ?s1)
          \<and> card (liveIdx (entries s')) = card (liveIdx (entries ?s1))
          \<and> sizef s' = sizef ?s1 \<and> hash s' = E XOR xorAll (entries s')"
        using p2 gi qi nd1 e c1 up hs1
        by (intro Set_repair_ok [of ?s1 q ?i e]) simp_all
      then obtain s' where
        rp: "Set_repair E ?s1 (of_nat ?i) = Some (Inr s')"
          "length (entries s') = ?n" "valid (entries s')" "nodup (entries s')"
          "liveSet (entries s') = liveSet ?T"
          "card (liveIdx (entries s')) = card (liveIdx ?T)"
          "sizef s' = sizef s - 1" "hash s' = E XOR xorAll (entries s')"
        by auto
      have p2': "pow2len (entries s')" using p2 rp(2) by (simp add: pow2len_def)
      have "setOK E s'" using p2' rp c1 by (simp add: setOK_def tabInv_def)
      moreover have "capOK (length (entries s')) (sizef s')"
        using co False n16 rp(2,7) unfolding capOK_def by auto
      moreover have "liveSet (entries s') = liveSet ?es - {?x}" using rp(5) ls1 by simp
      ultimately show ?thesis using r rp(1,2,7) nab by (intro exI [of _ s']) simp
    qed
  qed
qed

lemma Set_Remove_inv:
  fixes s :: "('k::zero) HSet"
  assumes inv: "Set_inv E s"
  shows "\<exists>s'. Set_Remove H E s k = Some (Inr s') \<and> Set_inv E s'
          \<and> liveSet (entries s') = liveSet (entries s) - {\<lparr>hash1 = H k OR fullBit, key = k\<rparr>}
          \<and> length (entries s') \<le> length (entries s)"
proof (cases "sizef s = 0")
  case True
  have "liveSet (entries s) = {}"
  proof (cases "entries s = []")
    case True
    then show ?thesis by (auto elim!: liveSetE)
  next
    case False
    with inv \<open>sizef s = 0\<close> have "card (liveIdx (entries s)) = 0"
      by (simp add: Set_inv_def setOK_def tabInv_def)
    then have "liveIdx (entries s) = {}" by simp
    then show ?thesis by (auto simp: liveIdx_def elim!: liveSetE)
  qed
  with True inv show ?thesis by (simp add: Set_Remove_def)
next
  case False
  with inv have "setOK E s" "capOK (length (entries s)) (sizef s)" by (auto simp: Set_inv_def)
  from Set_removeHash1Key_ok [OF this fullBit_nonzero [of "H k"], of k] False
  show ?thesis by (auto simp: Set_Remove_def Set_inv_def)
qed

lemma Set_Add_inv:
  fixes s :: "('k::zero) HSet"
  assumes "Set_inv E s" "length (entries s) < 2 ^ 64"
  shows "\<exists>s'. Set_Add H E s k = Some (Inr s') \<and> Set_inv E s' \<and> entries s' \<noteq> []
          \<and> liveSet (entries s') = insert \<lparr>hash1 = H k OR fullBit, key = k\<rparr> (liveSet (entries s))"
  unfolding Set_Add_def using assms(1) fullBit_nonzero assms(2) by (rule Set_addHash1Key_inv)

section \<open>Termination of the probing loop\<close>

lemma probeN_probe: "probeN c es h k w = Some r \<Longrightarrow> probe es h k w = Some r"
proof (induction c arbitrary: w)
  case 0
  then show ?case by simp
next
  case (Suc c)
  then show ?case by (subst probe.simps) (auto split: if_splits)
qed

lemma probeN_mono: "probeN c es h k w = Some r \<Longrightarrow> c \<le> c' \<Longrightarrow> probeN c' es h k w = Some r"
proof (induction c arbitrary: w c')
  case 0
  then show ?case by simp
next
  case (Suc c)
  then obtain d where d: "c' = Suc d" "c \<le> d" by (cases c') simp_all
  with Suc show ?case by (auto split: if_splits)
qed

lemma probeN_stops:
  fixes es :: "('k, 'z) setEntry_scheme list"
  assumes p2: "pow2len es"
    and f: "f < length es"
    and stop: "hash1 (es ! f) = 0 \<or> (hash1 (es ! f) = h \<and> key (es ! f) = k)"
  shows "unat w < length es \<Longrightarrow>
     (\<forall>s<length es. dist (length es) (unat w) s < dist (length es) (unat w) f \<longrightarrow>
        hash1 (es ! s) \<noteq> 0 \<and> \<not> (hash1 (es ! s) = h \<and> key (es ! s) = k)) \<Longrightarrow>
     probeN (Suc (dist (length es) (unat w) f)) es h k w = Some (Inr (of_nat f, hash1 (es ! f) \<noteq> 0))"
proof (induction "dist (length es) (unat w) f" arbitrary: w)
  case 0
  then have "unat w = f" using f by (simp add: dist_eq_0)
  then have "w = of_nat f" by (rule word_of_unat_eq)
  with 0 f stop \<open>unat w = f\<close> show ?case by auto
next
  case (Suc d)
  let ?n = "length es"
  obtain k' where k': "k' \<le> 64" "?n = 2 ^ k'" using p2 by (auto simp: pow2len_def)
  let ?w' = "(w + 1) AND lenMask es"
  have w': "unat ?w' = succMod ?n (unat w)"
    using unat_succ_and_lenMask [OF k'(2) k'(1), of w] succMod_eq [OF Suc.prems(1)] by simp
  have ne: "unat w \<noteq> f" using Suc.hyps(2) by auto
  have here: "hash1 (es ! unat w) \<noteq> 0 \<and> \<not> (hash1 (es ! unat w) = h \<and> key (es ! unat w) = k)"
    using Suc.prems(2) [rule_format, of "unat w"] Suc.prems(1) Suc.hyps(2) by simp
  have d: "d = dist ?n (unat ?w') f"
    using dist_succ_left [OF Suc.prems(1) f ne] Suc.hyps(2) w' by simp
  have lt: "unat ?w' < ?n" using w' Suc.prems(1) by (simp add: succMod_lt)
  have rest: "\<forall>s<?n. dist ?n (unat ?w') s < dist ?n (unat ?w') f \<longrightarrow>
        hash1 (es ! s) \<noteq> 0 \<and> \<not> (hash1 (es ! s) = h \<and> key (es ! s) = k)"
  proof (intro allI impI)
    fix s assume s: "s < ?n" and ds: "dist ?n (unat ?w') s < dist ?n (unat ?w') f"
    have "dist ?n (unat ?w') f < ?n" using lt f by (rule dist_lt)
    then have "dist ?n (succMod ?n (unat w)) s < ?n - 1" using ds w' by simp
    from dist_succ_left' [OF Suc.prems(1) s this]
    have "dist ?n (unat w) s = dist ?n (unat ?w') s + 1" using w' by simp
    then have "dist ?n (unat w) s < dist ?n (unat w) f" using ds d Suc.hyps(2) by simp
    with Suc.prems(2) s show "hash1 (es ! s) \<noteq> 0 \<and> \<not> (hash1 (es ! s) = h \<and> key (es ! s) = k)"
      by blast
  qed
  have "probeN (Suc (dist ?n (unat ?w') f)) es h k ?w' = Some (Inr (of_nat f, hash1 (es ! f) \<noteq> 0))"
    by (rule Suc.hyps(1) [OF d lt rest])
  then have r: "probeN (Suc d) es h k ?w' = Some (Inr (of_nat f, hash1 (es ! f) \<noteq> 0))"
    by (simp only: d [symmetric])
  have "probeN (Suc (Suc d)) es h k w = probeN (Suc d) es h k ?w'"
    by (subst probeN.simps(2)) (use here Suc.prems(1) in \<open>auto simp del: probeN.simps\<close>)
  then show ?case by (simp only: r Suc.hyps(2) [symmetric])
qed

lemma first_stop_ex:
  fixes es :: "('k, 'z) setEntry_scheme list"
  assumes a: "a < length es" and e: "e < length es" "hash1 (es ! e) = 0"
  shows "\<exists>f<length es. (hash1 (es ! f) = 0 \<or> (hash1 (es ! f) = h \<and> key (es ! f) = k))
          \<and> (\<forall>s<length es. dist (length es) a s < dist (length es) a f \<longrightarrow>
                hash1 (es ! s) \<noteq> 0 \<and> \<not> (hash1 (es ! s) = h \<and> key (es ! s) = k))"
proof -
  let ?n = "length es"
  let ?P = "\<lambda>x. x < ?n \<and> (hash1 (es ! x) = 0 \<or> (hash1 (es ! x) = h \<and> key (es ! x) = k))"
  from e have "?P e" by simp
  from ex_has_least_nat [of ?P e "dist ?n a"] this
  obtain f where f: "?P f" and least: "\<And>y. ?P y \<Longrightarrow> dist ?n a f \<le> dist ?n a y"
    by blast
  have "hash1 (es ! s) \<noteq> 0 \<and> \<not> (hash1 (es ! s) = h \<and> key (es ! s) = k)"
    if s: "s < ?n" "dist ?n a s < dist ?n a f" for s
  proof (rule ccontr)
    assume "\<not> ?thesis"
    then have "?P s" using s(1) by blast
    from least [OF this] s(2) show False by simp
  qed
  with f show ?thesis by blast
qed

lemma probe_total:
  fixes es :: "('k, 'z) setEntry_scheme list"
  assumes p2: "pow2len es" and w: "unat w < length es" and e: "e < length es" "hash1 (es ! e) = 0"
  shows "\<exists>r. probeN (length es) es h k w = Some (Inr r) \<and> probe es h k w = Some (Inr r)"
proof -
  let ?n = "length es"
  from first_stop_ex [OF w e, of h k] obtain f where
    f: "f < ?n" "hash1 (es ! f) = 0 \<or> (hash1 (es ! f) = h \<and> key (es ! f) = k)"
      "\<forall>s<?n. dist ?n (unat w) s < dist ?n (unat w) f \<longrightarrow>
          hash1 (es ! s) \<noteq> 0 \<and> \<not> (hash1 (es ! s) = h \<and> key (es ! s) = k)"
    by blast
  have "probeN (Suc (dist ?n (unat w) f)) es h k w = Some (Inr (of_nat f, hash1 (es ! f) \<noteq> 0))"
    using p2 f(1,2) w f(3) by (rule probeN_stops)
  moreover have "Suc (dist ?n (unat w) f) \<le> ?n" using dist_lt [OF w f(1)] by simp
  ultimately have r: "probeN ?n es h k w = Some (Inr (of_nat f, hash1 (es ! f) \<noteq> 0))"
    by (rule probeN_mono)
  from probeN_probe [OF r] r show ?thesis by simp
qed

section \<open>Operations on two sets\<close>

lemma liveSet_member:
  fixes es :: "'k setEntry list"
  shows "\<lparr>hash1 = h, key = k\<rparr> \<in> liveSet es \<longleftrightarrow> \<not> absent es h k"
proof
  assume "\<lparr>hash1 = h, key = k\<rparr> \<in> liveSet es"
  then show "\<not> absent es h k" unfolding absent_iff_liveSet by force
next
  assume "\<not> absent es h k"
  then obtain e where e: "e \<in> liveSet es" "hash1 e = h" "key e = k"
    unfolding absent_iff_liveSet by blast
  then have "e = \<lparr>hash1 = h, key = k\<rparr>" by (cases e) simp
  with e(1) show "\<lparr>hash1 = h, key = k\<rparr> \<in> liveSet es" by simp
qed

lemma Set_containsHash1Key_ok:
  fixes s :: "'k HSet"
  assumes ok: "setOK E s" and co: "capOK (length (entries s)) (sizef s)" and h: "h \<noteq> 0"
  shows "Set_containsHash1Key s h k = Some (Inr (\<lparr>hash1 = h, key = k\<rparr> \<in> liveSet (entries s)))"
proof -
  let ?es = "entries s"
  from ok have ti: "tabInv ?es (sizef s)" by (simp add: setOK_def)
  then have p2: "pow2len ?es" and v: "valid ?es" and nd: "nodup ?es" by (simp_all add: tabInv_def)
  have hw: "unat (h AND lenMask ?es) = homeOf ?es h" using home_word [OF p2] .
  have hl: "homeOf ?es h < length ?es" using homeOf_lt [OF pow2len_pos [OF p2]] .
  show ?thesis
  proof (cases "absent ?es h k")
    case True
    have "sizef s < int (length ?es)" using capOK_room [OF co] by simp
    from tabInv_free [OF ti this] obtain e where e: "e < length ?es" "hash1 (?es ! e) = 0" by blast
    from firstFree_ex [OF hl e] obtain f where f: "firstFree ?es (homeOf ?es h) f" by blast
    have "probe ?es h k (h AND lenMask ?es) = Some (Inr (of_nat f, False))"
      using probe_absent [OF p2, of "h AND lenMask ?es" f h k] hw hl f True by simp
    moreover have "\<lparr>hash1 = h, key = k\<rparr> \<notin> liveSet ?es" using True liveSet_member [of h k ?es] by simp
    ultimately show ?thesis by (simp add: Set_containsHash1Key_def bindR_def)
  next
    case False
    then obtain q where q: "q < length ?es" "hash1 (?es ! q) = h" "key (?es ! q) = k"
      unfolding absent_def by blast
    have "probe ?es h k (h AND lenMask ?es) = Some (Inr (of_nat q, True))"
      using probe_present [OF p2 v nd q h] .
    moreover have "\<lparr>hash1 = h, key = k\<rparr> \<in> liveSet ?es" using False liveSet_member [of h k ?es] by simp
    ultimately show ?thesis by (simp add: Set_containsHash1Key_def bindR_def)
  qed
qed

lemma liveL_member: "e \<in> set (liveL es) \<Longrightarrow> hash1 e \<noteq> 0"
  by (simp add: liveL_def)

lemma Set_scan_ok:
  fixes t :: "'k HSet"
  assumes ok: "setOK E t" and co: "capOK (length (entries t)) (sizef t)"
  shows "Set_scan hit t es = Some (Inr (\<forall>e\<in>set (liveL es). (e \<in> liveSet (entries t)) \<noteq> hit))"
proof (induction es)
  case Nil
  show ?case by simp
next
  case (Cons e es)
  show ?case
  proof (cases "hash1 e = 0")
    case True
    then show ?thesis using Cons.IH by simp
  next
    case False
    have "Set_containsHash1Key t (hash1 e) (key e)
            = Some (Inr (\<lparr>hash1 = hash1 e, key = key e\<rparr> \<in> liveSet (entries t)))"
      using Set_containsHash1Key_ok [OF ok co False] .
    then have c: "Set_containsHash1Key t (hash1 e) (key e) = Some (Inr (e \<in> liveSet (entries t)))"
      by (simp add: setEntry_eta)
    show ?thesis using False Cons.IH by (auto simp: c bindR_def)
  qed
qed

text \<open>The exclusive-or of the tagged hashes of a table depends on its live entries only.\<close>

lemma liveXor_remove1:
  "x \<in> set xs \<Longrightarrow>
   foldr (\<lambda>e a. hash1 e XOR a) xs (0::64 word) = hash1 x XOR foldr (\<lambda>e a. hash1 e XOR a) (remove1 x xs) 0"
proof (induction xs)
  case Nil
  then show ?case by simp
next
  case (Cons y xs)
  show ?case
  proof (cases "x = y")
    case True
    then show ?thesis by simp
  next
    case False
    with Cons.prems have "x \<in> set xs" by simp
    from Cons.IH [OF this] False show ?thesis by (simp add: xor.left_commute)
  qed
qed

lemma liveXor_distinct:
  "distinct xs \<Longrightarrow> distinct ys \<Longrightarrow> set xs = set ys \<Longrightarrow>
   foldr (\<lambda>e a. hash1 e XOR a) xs (0::64 word) = foldr (\<lambda>e a. hash1 e XOR a) ys 0"
proof (induction xs arbitrary: ys)
  case Nil
  then show ?case by simp
next
  case (Cons x xs)
  from Cons.prems have x: "x \<in> set ys" by auto
  have "distinct (remove1 x ys)" using Cons.prems by simp
  moreover have "set xs = set (remove1 x ys)" using Cons.prems by auto
  moreover have "distinct xs" using Cons.prems by simp
  ultimately have "foldr (\<lambda>e a. hash1 e XOR a) xs (0::64 word)
                    = foldr (\<lambda>e a. hash1 e XOR a) (remove1 x ys) 0"
    using Cons.IH by blast
  with liveXor_remove1 [OF x] show ?case by simp
qed

lemma xorAll_liveL: "xorAll es = foldr (\<lambda>e a. hash1 e XOR a) (liveL es) 0"
  by (induction es) simp_all

lemma distinct_liveL:
  fixes es :: "('k, 'z) setEntry_scheme list"
  shows "nodup es \<Longrightarrow> distinct (liveL es)"
  using nodup_distinct [of es] by (simp add: distinct_map)

lemma xorAll_liveSet:
  fixes es :: "('k, 'z) setEntry_scheme list"
  assumes "nodup es" "nodup es'" "liveSet es = liveSet es'"
  shows "xorAll es = xorAll es'"
proof -
  have "set (liveL es) = set (liveL es')" using assms(3) by (simp add: set_liveL)
  with liveXor_distinct [OF distinct_liveL [OF assms(1)] distinct_liveL [OF assms(2)]]
  show ?thesis by (simp add: xorAll_liveL)
qed

lemma card_liveSet:
  fixes es :: "('k, 'z) setEntry_scheme list"
  assumes "nodup es"
  shows "card (liveSet es) = card (liveIdx es)"
proof -
  have "card (set (liveL es)) = length (liveL es)"
    using distinct_liveL [OF assms] by (rule distinct_card)
  then show ?thesis by (simp add: set_liveL length_liveL)
qed

lemma finite_liveSet [simp]: "finite (liveSet es)"
  using finite_set [of "liveL es"] by (simp add: set_liveL)

lemma Set_inv_size:
  assumes "Set_inv E s"
  shows "sizef s = int (card (liveSet (entries s)))"
proof (cases "entries s = []")
  case True
  with assms have "sizef s = 0" by (auto simp: Set_inv_def setOK_def tabInv_def liveIdx_def)
  moreover have "liveSet (entries s) = {}" using True by (simp add: liveSet_def)
  ultimately show ?thesis by simp
next
  case False
  with assms have "tabInv (entries s) (sizef s)" by (auto simp: Set_inv_def setOK_def)
  then show ?thesis using card_liveSet [of "entries s"] by (simp add: tabInv_def)
qed

lemma Set_inv_allocated:
  assumes "Set_inv E s" "sizef s \<noteq> 0"
  shows "setOK E s \<and> capOK (length (entries s)) (sizef s)"
  using assms by (auto simp: Set_inv_def)

text \<open>\<open>Equals\<close> on two sets that satisfy the invariant compares their live entries.\<close>

lemma Set_Equals_liveSet:
  fixes s t :: "'k HSet"
  assumes s: "Set_inv E s" and t: "Set_inv E t"
  shows "Set_Equals E s t = Some (Inr (liveSet (entries s) = liveSet (entries t)))"
proof -
  let ?S = "liveSet (entries s)" and ?T = "liveSet (entries t)"
  have cs: "sizef s = int (card ?S)" using Set_inv_size [OF s] .
  have ct: "sizef t = int (card ?T)" using Set_inv_size [OF t] .
  show ?thesis
  proof (cases "sizef s = sizef t")
    case False
    then have "?S \<noteq> ?T" using cs ct by auto
    with False show ?thesis by (simp add: Set_Equals_def)
  next
    case eq: True
    show ?thesis
    proof (cases "sizef s = 0")
      case True
      then have "?S = {}" "?T = {}" using cs ct eq by simp_all
      with True eq show ?thesis by (simp add: Set_Equals_def)
    next
      case nz: False
      from Set_inv_allocated [OF s nz] have oks: "setOK E s" "capOK (length (entries s)) (sizef s)"
        by simp_all
      from Set_inv_allocated [OF t] nz eq have okt: "setOK E t" "capOK (length (entries t)) (sizef t)"
        by simp_all
      have nds: "nodup (entries s)" and ndt: "nodup (entries t)"
        using oks okt by (simp_all add: setOK_def tabInv_def)
      have hs: "Set_Hash E s = E XOR xorAll (entries s)" using oks nz by (simp add: Set_Hash_def setOK_def)
      have ht: "Set_Hash E t = E XOR xorAll (entries t)" using okt nz eq by (simp add: Set_Hash_def setOK_def)
      have card: "card ?S = card ?T" using cs ct eq by simp
      show ?thesis
      proof (cases "Set_Hash E s = Set_Hash E t")
        case False
        have "?S \<noteq> ?T"
        proof
          assume "?S = ?T"
          from xorAll_liveSet [OF nds ndt this] hs ht False show False by simp
        qed
        with False nz eq show ?thesis by (simp add: Set_Equals_def)
      next
        case he: True
        have sub_s: "(\<forall>e\<in>set (liveL (entries s)). (e \<in> ?T) \<noteq> False) \<longleftrightarrow> ?S = ?T"
        proof -
          have "(\<forall>e\<in>set (liveL (entries s)). (e \<in> ?T) \<noteq> False) \<longleftrightarrow> ?S \<subseteq> ?T"
            by (auto simp: set_liveL)
          moreover have "?S \<subseteq> ?T \<longleftrightarrow> ?S = ?T"
            using card_subset_eq [of ?T ?S] card by auto
          ultimately show ?thesis by simp
        qed
        have sub_t: "(\<forall>e\<in>set (liveL (entries t)). (e \<in> ?S) \<noteq> False) \<longleftrightarrow> ?S = ?T"
        proof -
          have "(\<forall>e\<in>set (liveL (entries t)). (e \<in> ?S) \<noteq> False) \<longleftrightarrow> ?T \<subseteq> ?S"
            by (auto simp: set_liveL)
          moreover have "?T \<subseteq> ?S \<longleftrightarrow> ?S = ?T"
            using card_subset_eq [of ?S ?T] card by auto
          ultimately show ?thesis by simp
        qed
        show ?thesis
        proof (cases "length (entries s) > length (entries t)")
          case True
          then have "Set_Equals E s t = Set_scan False s (entries t)"
            using nz eq he by (simp add: Set_Equals_def swapByLen_def)
          also have "\<dots> = Some (Inr (\<forall>e\<in>set (liveL (entries t)). (e \<in> ?S) \<noteq> False))"
            using Set_scan_ok [OF oks] .
          finally show ?thesis using sub_t by simp
        next
          case False
          then have "Set_Equals E s t = Set_scan False t (entries s)"
            using nz eq he by (simp add: Set_Equals_def swapByLen_def)
          also have "\<dots> = Some (Inr (\<forall>e\<in>set (liveL (entries s)). (e \<in> ?T) \<noteq> False))"
            using Set_scan_ok [OF okt] .
          finally show ?thesis using sub_s by simp
        qed
      qed
    qed
  qed
qed

lemma Set_inv_size_le:
  assumes "Set_inv E s"
  shows "sizef s \<le> 3 * int (length (entries s)) div 4"
  using assms by (auto simp: Set_inv_def capOK_def)

lemma Set_inv_length:
  assumes "Set_inv E s" "sizef s < 2 ^ 62"
  shows "length (entries s) < 2 ^ 64"
proof (cases "entries s = []")
  case True
  then show ?thesis by simp
next
  case False
  with assms have "capOK (length (entries s)) (sizef s)" by (auto simp: Set_inv_def)
  then have "length (entries s) = 16 \<or> int (length (entries s)) div 4 \<le> sizef s"
    by (simp add: capOK_def)
  then show ?thesis
  proof
    assume "length (entries s) = 16"
    then show ?thesis by simp
  next
    assume "int (length (entries s)) div 4 \<le> sizef s"
    with assms(2) have "int (length (entries s)) div 4 < 2 ^ 62" by simp
    then have "int (length (entries s)) < 2 ^ 64" by simp
    then show ?thesis by (metis of_nat_less_iff of_nat_numeral of_nat_power)
  qed
qed

lemma Set_inv_card_length:
  assumes "Set_inv E r" "finite U" "liveSet (entries r) \<subseteq> U" "card U < 2 ^ 62"
  shows "length (entries r) < 2 ^ 64"
proof -
  have "card (liveSet (entries r)) \<le> card U" using assms(2,3) by (rule card_mono)
  with assms(4) have "card (liveSet (entries r)) < 2 ^ 62" by simp
  then have "int (card (liveSet (entries r))) < 2 ^ 62"
    by (metis of_nat_less_iff of_nat_numeral of_nat_power)
  then have "sizef r < 2 ^ 62" using Set_inv_size [OF assms(1)] by simp
  with assms(1) show ?thesis by (rule Set_inv_length)
qed

lemma Set_Union_fold:
  fixes r :: "('k::zero) HSet"
  assumes "Set_inv E r" "finite U" "liveSet (entries r) \<subseteq> U" "set (liveL xs) \<subseteq> U" "card U < 2 ^ 62"
  shows "\<exists>r'. foldR (Set_Union_body E) xs r = Some (Inr r') \<and> Set_inv E r'
          \<and> liveSet (entries r') = liveSet (entries r) \<union> set (liveL xs)"
  using assms
proof (induction xs arbitrary: r)
  case Nil
  then show ?case by simp
next
  case (Cons x xs)
  show ?case
  proof (cases "hash1 x = 0")
    case True
    have "set (liveL xs) \<subseteq> U" using Cons.prems(4) True by simp
    from Cons.IH [OF Cons.prems(1,2,3) this Cons.prems(5)] True show ?thesis
      by (simp add: Set_Union_body_def bindR_def)
  next
    case False
    have len: "length (entries r) < 2 ^ 64"
      using Set_inv_card_length [OF Cons.prems(1,2,3,5)] .
    from Set_addHash1Key_inv [OF Cons.prems(1) False len, of "key x"]
    obtain r1 where r1: "Set_addHash1Key E r (hash1 x) (key x) = Some (Inr r1)" "Set_inv E r1"
      "liveSet (entries r1) = insert x (liveSet (entries r))"
      by (auto simp: setEntry_eta)
    have xU: "x \<in> U" and rest: "set (liveL xs) \<subseteq> U" using Cons.prems(4) False by simp_all
    have "liveSet (entries r1) \<subseteq> U" using r1(3) xU Cons.prems(3) by simp
    from Cons.IH [OF r1(2) Cons.prems(2) this rest Cons.prems(5)]
    obtain r' where r': "foldR (Set_Union_body E) xs r1 = Some (Inr r')" "Set_inv E r'"
      "liveSet (entries r') = liveSet (entries r1) \<union> set (liveL xs)" by blast
    have "foldR (Set_Union_body E) (x # xs) r = Some (Inr r')"
      using False r1(1) r'(1) by (simp add: Set_Union_body_def bindR_def)
    moreover have "liveSet (entries r') = liveSet (entries r) \<union> set (liveL (x # xs))"
      using r'(3) r1(3) False by simp
    ultimately show ?thesis using r'(2) by blast
  qed
qed

lemma Set_Intersection_fold:
  fixes r :: "('k::zero) HSet"
  assumes "Set_inv E r" "finite U" "liveSet (entries r) \<subseteq> U" "set (liveL xs) \<subseteq> U" "card U < 2 ^ 62"
    and okt: "setOK E t" and cot: "capOK (length (entries t)) (sizef t)"
  shows "\<exists>r'. foldR (Set_Intersection_body E t) xs r = Some (Inr r') \<and> Set_inv E r'
          \<and> liveSet (entries r') = liveSet (entries r) \<union> (set (liveL xs) \<inter> liveSet (entries t))"
  using assms(1-5)
proof (induction xs arbitrary: r)
  case Nil
  then show ?case by simp
next
  case (Cons x xs)
  show ?case
  proof (cases "hash1 x = 0")
    case True
    have "set (liveL xs) \<subseteq> U" using Cons.prems(4) True by simp
    from Cons.IH [OF Cons.prems(1,2,3) this Cons.prems(5)] True show ?thesis
      by (simp add: Set_Intersection_body_def bindR_def)
  next
    case False
    have xU: "x \<in> U" and rest: "set (liveL xs) \<subseteq> U" using Cons.prems(4) False by simp_all
    have c: "Set_containsHash1Key t (hash1 x) (key x) = Some (Inr (x \<in> liveSet (entries t)))"
      using Set_containsHash1Key_ok [OF okt cot False, of "key x"] by (simp add: setEntry_eta)
    show ?thesis
    proof (cases "x \<in> liveSet (entries t)")
      case inT: True
      have len: "length (entries r) < 2 ^ 64"
        using Set_inv_card_length [OF Cons.prems(1,2,3,5)] .
      from Set_addHash1Key_inv [OF Cons.prems(1) False len, of "key x"]
      obtain r1 where r1: "Set_addHash1Key E r (hash1 x) (key x) = Some (Inr r1)" "Set_inv E r1"
        "liveSet (entries r1) = insert x (liveSet (entries r))"
        by (auto simp: setEntry_eta)
      have "liveSet (entries r1) \<subseteq> U" using r1(3) xU Cons.prems(3) by simp
      from Cons.IH [OF r1(2) Cons.prems(2) this rest Cons.prems(5)]
      obtain r' where r': "foldR (Set_Intersection_body E t) xs r1 = Some (Inr r')" "Set_inv E r'"
        "liveSet (entries r') = liveSet (entries r1) \<union> (set (liveL xs) \<inter> liveSet (entries t))"
        by blast
      have "foldR (Set_Intersection_body E t) (x # xs) r = Some (Inr r')"
        using False r1(1) r'(1) inT by (simp add: Set_Intersection_body_def bindR_def c)
      moreover have "liveSet (entries r')
          = liveSet (entries r) \<union> (set (liveL (x # xs)) \<inter> liveSet (entries t))"
        using r'(3) r1(3) False inT by simp
      ultimately show ?thesis using r'(2) by blast
    next
      case notT: False
      from Cons.IH [OF Cons.prems(1,2,3) rest Cons.prems(5)]
      obtain r' where r': "foldR (Set_Intersection_body E t) xs r = Some (Inr r')" "Set_inv E r'"
        "liveSet (entries r') = liveSet (entries r) \<union> (set (liveL xs) \<inter> liveSet (entries t))"
        by blast
      have "foldR (Set_Intersection_body E t) (x # xs) r = Some (Inr r')"
        using False r'(1) notT by (simp add: Set_Intersection_body_def bindR_def c)
      moreover have "liveSet (entries r')
          = liveSet (entries r) \<union> (set (liveL (x # xs)) \<inter> liveSet (entries t))"
        using r'(3) False notT by simp
      ultimately show ?thesis using r'(2) by blast
    qed
  qed
qed

lemma Set_Difference_fold:
  fixes r :: "('k::zero) HSet"
  assumes "setOK E r" "capOK (length (entries r)) (sizef r)"
  shows "\<exists>r'. foldR (Set_Difference_body E) xs r = Some (Inr r')
          \<and> setOK E r' \<and> capOK (length (entries r')) (sizef r')
          \<and> liveSet (entries r') = liveSet (entries r) - set (liveL xs)
          \<and> length (entries r') \<le> length (entries r)"
  using assms
proof (induction xs arbitrary: r)
  case Nil
  then show ?case by simp
next
  case (Cons x xs)
  show ?case
  proof (cases "hash1 x = 0")
    case True
    from Cons.IH [OF Cons.prems] True show ?thesis
      by (simp add: Set_Difference_body_def bindR_def)
  next
    case False
    from Set_removeHash1Key_ok [OF Cons.prems False, of "key x"]
    obtain r1 where r1: "Set_removeHash1Key E r (hash1 x) (key x) = Some (Inr r1)"
      "setOK E r1" "capOK (length (entries r1)) (sizef r1)"
      "liveSet (entries r1) = liveSet (entries r) - {x}"
      "length (entries r1) \<le> length (entries r)"
      by (auto simp: setEntry_eta)
    from Cons.IH [OF r1(2,3)]
    obtain r' where r': "foldR (Set_Difference_body E) xs r1 = Some (Inr r')"
      "setOK E r'" "capOK (length (entries r')) (sizef r')"
      "liveSet (entries r') = liveSet (entries r1) - set (liveL xs)"
      "length (entries r') \<le> length (entries r1)" by blast
    have "foldR (Set_Difference_body E) (x # xs) r = Some (Inr r')"
      using False r1(1) r'(1) by (simp add: Set_Difference_body_def bindR_def)
    moreover have "liveSet (entries r') = liveSet (entries r) - set (liveL (x # xs))"
      using r'(4) r1(4) False by auto
    moreover have "length (entries r') \<le> length (entries r)" using r'(5) r1(5) by simp
    ultimately show ?thesis using r'(2,3) by blast
  qed
qed

lemma liveSet_Nil [simp]: "liveSet [] = {}"
  by (simp add: liveSet_def)

lemma liveSet_size_0:
  assumes "Set_inv E s" "sizef s = 0"
  shows "liveSet (entries s) = {}"
  using Set_inv_size [OF assms(1)] assms(2) by simp

lemma liveSet_Copy:
  assumes "Set_inv E s"
  shows "liveSet (entries (Set_Copy s)) = liveSet (entries s)"
  using liveSet_size_0 [OF assms] by (simp add: Set_Copy_def zeroSet_def)

lemma Set_inv_zero: "Set_inv E zeroSet"
  by (simp add: Set_inv_def zeroSet_def)

lemma Set_inv_Copy: "Set_inv E s \<Longrightarrow> Set_inv E (Set_Copy s)"
  by (auto simp: Set_Copy_def Set_inv_zero) (simp add: Set_inv_def setOK_def)

lemma fits_Set_Copy: "fits (entries s) \<Longrightarrow> fits (entries (Set_Copy s))"
  by (simp add: Set_Copy_def zeroSet_def fits_def)

lemma fits_card:
  assumes "Set_inv E s" "fits (entries s)"
  shows "card (liveSet (entries s)) < 2 ^ 61"
proof -
  have "sizef s \<le> 3 * int (length (entries s)) div 4" using Set_inv_size_le [OF assms(1)] .
  moreover have "int (length (entries s)) \<le> 2 ^ 61" using assms(2) unfolding fits_def
    by (metis of_nat_le_iff of_nat_numeral of_nat_power)
  ultimately have "sizef s < 2 ^ 61" by simp
  then have "int (card (liveSet (entries s))) < 2 ^ 61" using Set_inv_size [OF assms(1)] by simp
  then show ?thesis by (metis of_nat_less_iff of_nat_numeral of_nat_power)
qed

lemma fits_card_Un:
  assumes "Set_inv E s" "fits (entries s)" "Set_inv E t" "fits (entries t)"
  shows "card (liveSet (entries s) \<union> liveSet (entries t)) < 2 ^ 62"
proof -
  have "card (liveSet (entries s) \<union> liveSet (entries t))
          \<le> card (liveSet (entries s)) + card (liveSet (entries t))" by (rule card_Un_le)
  moreover have "card (liveSet (entries s)) + card (liveSet (entries t)) < 2 ^ 61 + 2 ^ 61"
    using fits_card [OF assms(1,2)] fits_card [OF assms(3,4)] by (rule add_strict_mono)
  moreover have "(2::nat) ^ 61 + 2 ^ 61 = 2 ^ 62" by simp
  ultimately show ?thesis by simp
qed

lemma Set_Union_ok:
  fixes s t :: "('k::zero) HSet"
  assumes s: "Set_inv E s" "fits (entries s)" and t: "Set_inv E t" "fits (entries t)"
  shows "\<exists>r. Set_Union E s t = Some (Inr r) \<and> Set_inv E r
          \<and> liveSet (entries r) = liveSet (entries s) \<union> liveSet (entries t)"
proof -
  let ?S = "liveSet (entries s)" and ?T = "liveSet (entries t)"
  consider "sizef s = 0" | "sizef s \<noteq> 0" "sizef t = 0" | "sizef s \<noteq> 0" "sizef t \<noteq> 0" by blast
  then show ?thesis
  proof cases
    case 1
    then show ?thesis
      using liveSet_size_0 [OF s(1)] liveSet_Copy [OF t(1)] Set_inv_Copy [OF t(1)]
      by (simp add: Set_Union_def)
  next
    case 2
    then show ?thesis
      using liveSet_size_0 [OF t(1)] liveSet_Copy [OF s(1)] Set_inv_Copy [OF s(1)]
      by (simp add: Set_Union_def)
  next
    case 3
    have fin: "finite (?S \<union> ?T)" by simp
    have card: "card (?S \<union> ?T) < 2 ^ 62" using fits_card_Un [OF s t] .
    show ?thesis
    proof (cases "length (entries s) > length (entries t)")
      case True
      have "liveSet (entries (Set_Copy s)) \<subseteq> ?S \<union> ?T" using liveSet_Copy [OF s(1)] by simp
      moreover have "set (liveL (entries t)) \<subseteq> ?S \<union> ?T" by (simp add: set_liveL)
      ultimately obtain r where r: "foldR (Set_Union_body E) (entries t) (Set_Copy s) = Some (Inr r)"
        "Set_inv E r" "liveSet (entries r) = liveSet (entries (Set_Copy s)) \<union> set (liveL (entries t))"
        using Set_Union_fold [OF Set_inv_Copy [OF s(1)] fin _ _ card, of "entries t"] by blast
      have "Set_Union E s t = Some (Inr r)"
        using 3 True r(1) by (simp add: Set_Union_def swapByLen_def)
      moreover have "liveSet (entries r) = ?S \<union> ?T"
        using r(3) liveSet_Copy [OF s(1)] by (simp add: set_liveL)
      ultimately show ?thesis using r(2) by blast
    next
      case False
      have "liveSet (entries (Set_Copy t)) \<subseteq> ?S \<union> ?T" using liveSet_Copy [OF t(1)] by simp
      moreover have "set (liveL (entries s)) \<subseteq> ?S \<union> ?T" by (simp add: set_liveL)
      ultimately obtain r where r: "foldR (Set_Union_body E) (entries s) (Set_Copy t) = Some (Inr r)"
        "Set_inv E r" "liveSet (entries r) = liveSet (entries (Set_Copy t)) \<union> set (liveL (entries s))"
        using Set_Union_fold [OF Set_inv_Copy [OF t(1)] fin _ _ card, of "entries s"] by blast
      have "Set_Union E s t = Some (Inr r)"
        using 3 False r(1) by (simp add: Set_Union_def swapByLen_def)
      moreover have "liveSet (entries r) = ?S \<union> ?T"
        using r(3) liveSet_Copy [OF t(1)] by (auto simp: set_liveL)
      ultimately show ?thesis using r(2) by blast
    qed
  qed
qed

lemma Set_Intersection_ok:
  fixes s t :: "('k::zero) HSet"
  assumes s: "Set_inv E s" "fits (entries s)" and t: "Set_inv E t" "fits (entries t)"
  shows "\<exists>r. Set_Intersection E s t = Some (Inr r) \<and> Set_inv E r
          \<and> liveSet (entries r) = liveSet (entries s) \<inter> liveSet (entries t)"
proof -
  let ?S = "liveSet (entries s)" and ?T = "liveSet (entries t)"
  have z: "liveSet (entries (zeroSet :: 'k HSet)) = {}" by (simp add: zeroSet_def)
  consider "sizef s = 0" | "sizef s \<noteq> 0" "sizef t = 0" | "sizef s \<noteq> 0" "sizef t \<noteq> 0" by blast
  then show ?thesis
  proof cases
    case 1
    then show ?thesis
      using liveSet_size_0 [OF s(1)] z Set_inv_zero [of E] by (simp add: Set_Intersection_def)
  next
    case 2
    then show ?thesis
      using liveSet_size_0 [OF t(1)] z Set_inv_zero [of E] by (simp add: Set_Intersection_def)
  next
    case 3
    have fin: "finite (?S \<union> ?T)" by simp
    have card: "card (?S \<union> ?T) < 2 ^ 62" using fits_card_Un [OF s t] .
    have z': "liveSet (entries (zeroSet :: 'k HSet)) \<subseteq> ?S \<union> ?T" using z by simp
    from Set_inv_allocated [OF s(1) 3(1)] have oks: "setOK E s" "capOK (length (entries s)) (sizef s)"
      by simp_all
    from Set_inv_allocated [OF t(1) 3(2)] have okt: "setOK E t" "capOK (length (entries t)) (sizef t)"
      by simp_all
    show ?thesis
    proof (cases "length (entries s) > length (entries t)")
      case True
      have "set (liveL (entries t)) \<subseteq> ?S \<union> ?T" by (simp add: set_liveL)
      from Set_Intersection_fold [OF Set_inv_zero fin z' this card oks]
      obtain r where r: "foldR (Set_Intersection_body E s) (entries t) zeroSet = Some (Inr r)"
        "Set_inv E r"
        "liveSet (entries r) = liveSet (entries (zeroSet :: 'k HSet)) \<union> (set (liveL (entries t)) \<inter> ?S)"
        by blast
      have "Set_Intersection E s t = Some (Inr r)"
        using 3 True r(1) by (simp add: Set_Intersection_def swapByLen_def)
      moreover have "liveSet (entries r) = ?S \<inter> ?T"
        using r(3) z by (auto simp: set_liveL)
      ultimately show ?thesis using r(2) by blast
    next
      case False
      have "set (liveL (entries s)) \<subseteq> ?S \<union> ?T" by (simp add: set_liveL)
      from Set_Intersection_fold [OF Set_inv_zero fin z' this card okt]
      obtain r where r: "foldR (Set_Intersection_body E t) (entries s) zeroSet = Some (Inr r)"
        "Set_inv E r"
        "liveSet (entries r) = liveSet (entries (zeroSet :: 'k HSet)) \<union> (set (liveL (entries s)) \<inter> ?T)"
        by blast
      have "Set_Intersection E s t = Some (Inr r)"
        using 3 False r(1) by (simp add: Set_Intersection_def swapByLen_def)
      moreover have "liveSet (entries r) = ?S \<inter> ?T"
        using r(3) z by (auto simp: set_liveL)
      ultimately show ?thesis using r(2) by blast
    qed
  qed
qed

lemma Set_Difference_ok:
  fixes s t :: "('k::zero) HSet"
  assumes s: "Set_inv E s" and t: "Set_inv E t"
  shows "\<exists>r. Set_Difference E s t = Some (Inr r) \<and> Set_inv E r
          \<and> liveSet (entries r) = liveSet (entries s) - liveSet (entries t)
          \<and> length (entries r) \<le> length (entries s)"
proof -
  let ?S = "liveSet (entries s)" and ?T = "liveSet (entries t)"
  have len: "length (entries (Set_Copy s)) \<le> length (entries s)"
    by (simp add: Set_Copy_def zeroSet_def)
  consider "sizef s = 0" | "sizef s \<noteq> 0" "sizef t = 0" | "sizef s \<noteq> 0" "sizef t \<noteq> 0" by blast
  then show ?thesis
  proof cases
    case 1
    then show ?thesis
      using liveSet_size_0 [OF s] liveSet_Copy [OF s] Set_inv_Copy [OF s] len
      by (simp add: Set_Difference_def)
  next
    case 2
    then show ?thesis
      using liveSet_size_0 [OF t] liveSet_Copy [OF s] Set_inv_Copy [OF s] len
      by (simp add: Set_Difference_def)
  next
    case 3
    have c: "Set_Copy s = \<lparr>entries = entries s, sizef = sizef s, hash = hash s\<rparr>"
      using 3 by (simp add: Set_Copy_def)
    from Set_inv_allocated [OF s 3(1)] have "setOK E (Set_Copy s)"
      "capOK (length (entries (Set_Copy s))) (sizef (Set_Copy s))"
      by (simp_all add: c setOK_def)
    from Set_Difference_fold [OF this, of "entries t"]
    obtain r where r: "foldR (Set_Difference_body E) (entries t) (Set_Copy s) = Some (Inr r)"
      "setOK E r" "capOK (length (entries r)) (sizef r)"
      "liveSet (entries r) = liveSet (entries (Set_Copy s)) - set (liveL (entries t))"
      "length (entries r) \<le> length (entries (Set_Copy s))" by blast
    have "Set_Difference E s t = Some (Inr r)" using 3 r(1) by (simp add: Set_Difference_def)
    moreover have "Set_inv E r" using r(2,3) by (simp add: Set_inv_def)
    moreover have "liveSet (entries r) = ?S - ?T" using r(4) by (simp add: c set_liveL)
    moreover have "length (entries r) \<le> length (entries s)" using r(5) len by simp
    ultimately show ?thesis by blast
  qed
qed

section \<open>Reachable states\<close>

lemma liveCount_card: "liveCount es = card (liveIdx es)"
  using length_liveL [of es] by (simp add: liveCount_def liveL_def)

lemma fits_lt: "fits es \<Longrightarrow> length es < 2 ^ 64"
proof -
  assume "fits es"
  then have "length es \<le> 2 ^ 61" by (simp add: fits_def)
  moreover have "(2::nat) ^ 61 < 2 ^ 64" by simp
  ultimately show ?thesis by (rule le_less_trans)
qed

lemma Map_inv_zero: "Map_inv zeroMap"
  by (simp add: Map_inv_def zeroMap_def)

lemma Map_inv_Copy: "Map_inv m \<Longrightarrow> Map_inv (Map_Copy m)"
  by (auto simp: Map_Copy_def Map_inv_zero) (simp add: Map_inv_def)

lemma fits_Copy: "fits (entries m) \<Longrightarrow> fits (entries (Map_Copy m))"
  by (simp add: Map_Copy_def zeroMap_def fits_def)

lemma Map_reach_inv:
  fixes m :: "('k::zero, 'v::zero) Map"
  shows "Map_reach H m \<Longrightarrow> Map_inv m \<and> fits (entries m)"
proof (induction rule: Map_reach.induct)
  case zero
  have "fits (entries (zeroMap :: ('k, 'v) Map))" by (simp add: fits_def zeroMap_def)
  then show ?case by (simp add: Map_inv_zero)
next
  case (put m k v m')
  from Map_Put_inv [of m H k v] put.IH fits_lt have "\<exists>m''. Map_Put H m k v = Some (Inr m'') \<and> Map_inv m''"
    by blast
  with put.hyps show ?case by simp
next
  case (remove m k m')
  from Map_Remove_inv [of m H k] remove.IH remove.hyps show ?case by (auto simp: fits_def)
next
  case (copy m)
  then show ?case by (simp add: Map_inv_Copy fits_Copy)
qed

lemma Set_reach_good:
  fixes s :: "('k::zero) HSet"
  shows "Set_reach H E s \<Longrightarrow> Set_inv E s \<and> fits (entries s) \<and> tagged H (entries s)"
proof (induction rule: Set_reach.induct)
  case zero
  have "fits (entries (zeroSet :: 'k HSet))" by (simp add: fits_def zeroSet_def)
  moreover have "tagged H (entries (zeroSet :: 'k HSet))" by (simp add: tagged_def zeroSet_def)
  ultimately show ?case by (simp add: Set_inv_zero)
next
  case (add s k s')
  from add.IH have inv: "Set_inv E s" and len: "length (entries s) < 2 ^ 64" and tg: "tagged H (entries s)"
    using fits_lt by blast+
  from Set_Add_inv [OF inv len, of H k] add.hyps(2)
  have "Set_inv E s'" "liveSet (entries s') = insert (tagEntry H k) (liveSet (entries s))"
    by (auto simp: tagEntry_def)
  with tg add.hyps(3) show ?case by (auto simp: tagged_def)
next
  case (remove s k s')
  from remove.IH have inv: "Set_inv E s" and ft: "fits (entries s)" and tg: "tagged H (entries s)"
    by blast+
  from Set_Remove_inv [OF inv, of H k] remove.hyps(2)
  have "Set_inv E s'" "liveSet (entries s') \<subseteq> liveSet (entries s)"
    "length (entries s') \<le> length (entries s)" by auto
  with tg ft show ?case by (auto simp: tagged_def fits_def)
next
  case (copy s)
  from copy.IH have inv: "Set_inv E s" and ft: "fits (entries s)" and tg: "tagged H (entries s)"
    by blast+
  from tg have "tagged H (entries (Set_Copy s))" using liveSet_Copy [OF inv] by (simp add: tagged_def)
  with inv ft show ?case by (simp add: Set_inv_Copy fits_Set_Copy)
next
  case (union s t r)
  from union.IH have s: "Set_inv E s" "fits (entries s)" "tagged H (entries s)"
    and t: "Set_inv E t" "fits (entries t)" "tagged H (entries t)" by blast+
  from Set_Union_ok [OF s(1,2) t(1,2)] union.hyps(3)
  have "Set_inv E r" "liveSet (entries r) = liveSet (entries s) \<union> liveSet (entries t)" by auto
  with s(3) t(3) union.hyps(4) show ?case by (simp add: tagged_def)
next
  case (intersection s t r)
  from intersection.IH have s: "Set_inv E s" "fits (entries s)" "tagged H (entries s)"
    and t: "Set_inv E t" "fits (entries t)" "tagged H (entries t)" by blast+
  from Set_Intersection_ok [OF s(1,2) t(1,2)] intersection.hyps(3)
  have "Set_inv E r" "liveSet (entries r) = liveSet (entries s) \<inter> liveSet (entries t)" by auto
  with s(3) intersection.hyps(4) show ?case by (auto simp: tagged_def)
next
  case (difference s t r)
  from difference.IH have s: "Set_inv E s" "fits (entries s)" "tagged H (entries s)"
    and t: "Set_inv E t" by blast+
  from Set_Difference_ok [OF s(1) t] difference.hyps(3)
  have "Set_inv E r" "liveSet (entries r) = liveSet (entries s) - liveSet (entries t)"
    "length (entries r) \<le> length (entries s)" by auto
  with s(2,3) show ?case by (auto simp: tagged_def fits_def)
qed

lemma Set_reach_inv:
  fixes s :: "('k::zero) HSet"
  shows "Set_reach H E s \<Longrightarrow> Set_inv E s \<and> fits (entries s)"
  using Set_reach_good [of H E s] by simp

text \<open>Adding the elements of a list, one after the other, to a reachable set.\<close>

lemma fits_of_size:
  assumes "Set_inv E s" "sizef s < 2 ^ 59"
  shows "fits (entries s)"
proof (cases "entries s = []")
  case True
  then show ?thesis by (simp add: fits_def)
next
  case False
  with assms have "capOK (length (entries s)) (sizef s)" by (auto simp: Set_inv_def)
  then have "length (entries s) = 16 \<or> int (length (entries s)) div 4 \<le> sizef s"
    by (simp add: capOK_def)
  then show ?thesis
  proof
    assume "length (entries s) = 16"
    then show ?thesis by (simp add: fits_def)
  next
    assume "int (length (entries s)) div 4 \<le> sizef s"
    with assms(2) have "int (length (entries s)) div 4 < 2 ^ 59" by simp
    then have "int (length (entries s)) \<le> 2 ^ 61" by simp
    then have "length (entries s) \<le> 2 ^ 61" by (metis of_nat_le_iff of_nat_numeral of_nat_power)
    then show ?thesis by (simp add: fits_def)
  qed
qed

lemma Set_AddAll_reach:
  fixes s :: "('k::zero) HSet"
  assumes "Set_reach H E s" "sizef s + int (length ks) < 2 ^ 59"
  shows "\<exists>a. Set_AddAll H E s ks = Some (Inr a) \<and> Set_reach H E a
          \<and> liveSet (entries a) = liveSet (entries s) \<union> tagEntry H ` set ks"
  using assms
proof (induction ks arbitrary: s)
  case Nil
  then show ?case by (simp add: Set_AddAll_def)
next
  case (Cons k ks)
  from Set_reach_good [OF Cons.prems(1)] have inv: "Set_inv E s" and ft: "fits (entries s)" by simp_all
  from Set_Add_inv [OF inv fits_lt [OF ft], of H k]
  obtain s1 where s1: "Set_Add H E s k = Some (Inr s1)" "Set_inv E s1"
    "liveSet (entries s1) = insert (tagEntry H k) (liveSet (entries s))"
    unfolding tagEntry_def by blast
  have "card (liveSet (entries s1)) \<le> card (liveSet (entries s)) + 1"
    unfolding s1(3) by (simp add: card_insert_if)
  then have sz: "sizef s1 \<le> sizef s + 1" using Set_inv_size [OF inv] Set_inv_size [OF s1(2)] by simp
  with Cons.prems(2) have "sizef s1 < 2 ^ 59" by simp
  from fits_of_size [OF s1(2) this] have r1: "Set_reach H E s1"
    using Set_reach.add [OF Cons.prems(1) s1(1)] by simp
  have "sizef s1 + int (length ks) < 2 ^ 59" using sz Cons.prems(2) by simp
  from Cons.IH [OF r1 this]
  obtain a where a: "Set_AddAll H E s1 ks = Some (Inr a)" "Set_reach H E a"
    "liveSet (entries a) = liveSet (entries s1) \<union> tagEntry H ` set ks" by blast
  have "Set_AddAll H E s (k # ks) = Some (Inr a)"
    using s1(1) a(1) by (simp add: Set_AddAll_def bindR_def)
  moreover have "liveSet (entries a) = liveSet (entries s) \<union> tagEntry H ` set (k # ks)"
    using a(3) s1(3) by simp
  ultimately show ?case using a(2) by blast
qed

lemma Set_AddAll_zeroSet:
  fixes ks :: "('k::zero) list"
  assumes "length ks < 2 ^ 59"
  shows "\<exists>a. Set_AddAll H E zeroSet ks = Some (Inr a) \<and> Set_reach H E a
          \<and> liveSet (entries a) = tagEntry H ` set ks"
proof -
  have "int (length ks) < 2 ^ 59" using assms by (metis of_nat_less_iff of_nat_numeral of_nat_power)
  then have "sizef (zeroSet :: 'k HSet) + int (length ks) < 2 ^ 59" by (simp add: zeroSet_def)
  from Set_AddAll_reach [OF Set_reach.zero this, of H E]
  show ?thesis by (simp add: zeroSet_def)
qed

lemma capOK_capacityOK: "capOK (length es) sz \<Longrightarrow> capacityOK es sz"
  unfolding capOK_def capacityOK_def initialCapacity_def by auto

text \<open>
  Claim C5.  In every state of a Map or of a Set that \<open>Put\<close>, \<open>Add\<close>, \<open>Remove\<close>, \<open>Copy\<close>,
  \<open>Union\<close>, \<open>Intersection\<close> and \<open>Difference\<close> reach from the zero value, so after every mutation: the size is at most \<open>3 * capacity / 4 + 1\<close>
  (indeed at most \<open>3 * capacity / 4\<close>); either no backing array is allocated, or the capacity is
  16, or the size is at least \<open>capacity / 4\<close>; and an allocated backing array has a power of two
  of at least 16 as its length.
\<close>

theorem capacity_invariant:
  fixes m :: "('k::zero, 'v::zero) Map" and s :: "('j::zero) HSet"
  shows "(Map_reach H m \<longrightarrow> capacityOK (entries m) (Map_Size m))
       \<and> (Set_reach H' E s \<longrightarrow> capacityOK (entries s) (Set_Size s))"
proof (intro conjI impI)
  assume "Map_reach H m"
  then have "Map_inv m" using Map_reach_inv by blast
  then show "capacityOK (entries m) (Map_Size m)"
    unfolding Map_inv_def Map_Size_def
    by (auto simp: capOK_capacityOK) (simp add: capacityOK_def)
next
  assume "Set_reach H' E s"
  then have "Set_inv E s" using Set_reach_inv by blast
  then show "capacityOK (entries s) (Set_Size s)"
    unfolding Set_inv_def Set_Size_def
    by (auto simp: capOK_capacityOK) (simp add: capacityOK_def)
qed

lemma tabInv_roomy:
  fixes es :: "('k, 'z) setEntry_scheme list"
  assumes ti: "tabInv es sz" and co: "capOK (length es) sz"
  shows "roomy es sz"
proof -
  from ti have p2: "pow2len es" and sz: "sz = int (card (liveIdx es))" by (simp_all add: tabInv_def)
  have room: "sz + 1 < int (length es)" "sz \<le> 3 * int (length es) div 4"
    using capOK_room [OF co] by simp_all
  then have lt: "sz < int (length es)" by simp
  from tabInv_free [OF ti lt] obtain e where e: "e < length es" "hash1 (es ! e) = 0" by blast
  have "probesStop es"
    unfolding probesStop_def using probe_total [OF p2 _ e] by blast
  then show ?thesis
    unfolding roomy_def using sz room lt e by (auto simp: liveCount_card)
qed

lemma Map_Get_returns:
  fixes m :: "('k, 'v::zero) Map"
  assumes "Map_inv m"
  shows "\<exists>r. Map_Get H m k = Some (Inr r)"
proof (cases "sizef m = 0")
  case True
  then show ?thesis by (intro exI [of _ "(0, False)"]) (simp add: Map_Get_def)
next
  case False
  let ?es = "entries m"
  let ?h = "H k OR fullBit"
  from assms False have ti: "tabInv ?es (sizef m)" and co: "capOK (length ?es) (sizef m)"
    by (auto simp: Map_inv_def)
  have p2: "pow2len ?es" using ti by (simp add: tabInv_def)
  have "unat (?h AND lenMask ?es) < length ?es"
    using home_word [OF p2] homeOf_lt [OF pow2len_pos [OF p2]] by simp
  moreover have "probesStop ?es" using tabInv_roomy [OF ti co] by (simp add: roomy_def)
  ultimately obtain r where "probe ?es ?h k (?h AND lenMask ?es) = Some (Inr r)"
    unfolding probesStop_def by blast
  then show ?thesis using False by (cases r) (auto simp: Map_Get_def bindR_def Let_def)
qed

lemma Set_Contains_returns:
  fixes s :: "'k HSet"
  assumes "Set_inv E s"
  shows "\<exists>r. Set_Contains H s k = Some (Inr r)"
proof (cases "sizef s = 0")
  case True
  then show ?thesis by (intro exI [of _ False]) (simp add: Set_Contains_def)
next
  case False
  let ?es = "entries s"
  let ?h = "H k OR fullBit"
  from assms False have ti: "tabInv ?es (sizef s)" and co: "capOK (length ?es) (sizef s)"
    by (auto simp: Set_inv_def setOK_def)
  have p2: "pow2len ?es" using ti by (simp add: tabInv_def)
  have "unat (?h AND lenMask ?es) < length ?es"
    using home_word [OF p2] homeOf_lt [OF pow2len_pos [OF p2]] by simp
  moreover have "probesStop ?es" using tabInv_roomy [OF ti co] by (simp add: roomy_def)
  ultimately obtain r where "probe ?es ?h k (?h AND lenMask ?es) = Some (Inr r)"
    unfolding probesStop_def by blast
  then show ?thesis
    using False by (cases r) (auto simp: Set_Contains_def Set_containsHash1Key_def bindR_def)
qed

text \<open>
  Claim C10.  In every reachable state of a Map or of a Set with a backing array, the size is the
  number of live slots, it is below the capacity and at most three quarters of it, a slot is free,
  and the probing loop started at any index returns after reading at most capacity slots.  \<open>Get\<close>,
  \<open>Put\<close>, \<open>Remove\<close>, \<open>Contains\<close> and \<open>Add\<close> return from every reachable state, so every loop
  inside them terminates.
\<close>

theorem probing_loops_terminate:
  fixes m :: "('k::zero, 'v::zero) Map" and s :: "('j::zero) HSet"
  shows "(Map_reach H m \<longrightarrow>
            (entries m \<noteq> [] \<longrightarrow> roomy (entries m) (Map_Size m))
            \<and> (\<exists>r. Map_Get H m k = Some (Inr r))
            \<and> (\<exists>m'. Map_Put H m k v = Some (Inr m'))
            \<and> (\<exists>m'. Map_Remove H m k = Some (Inr m')))
       \<and> (Set_reach H' E s \<longrightarrow>
            (entries s \<noteq> [] \<longrightarrow> roomy (entries s) (Set_Size s))
            \<and> (\<exists>r. Set_Contains H' s j = Some (Inr r))
            \<and> (\<exists>s'. Set_Add H' E s j = Some (Inr s'))
            \<and> (\<exists>s'. Set_Remove H' E s j = Some (Inr s')))"
proof (intro conjI impI)
  assume r: "Map_reach H m"
  then have inv: "Map_inv m" and fit: "fits (entries m)" using Map_reach_inv by blast+
  show "\<exists>r. Map_Get H m k = Some (Inr r)" using inv by (rule Map_Get_returns)
  show "\<exists>m'. Map_Put H m k v = Some (Inr m')" using Map_Put_inv [OF inv fits_lt [OF fit]] by blast
  show "\<exists>m'. Map_Remove H m k = Some (Inr m')" using Map_Remove_inv [OF inv] by blast
  show "roomy (entries m) (Map_Size m)" if "entries m \<noteq> []"
    using inv that by (auto simp: Map_inv_def Map_Size_def intro: tabInv_roomy)
next
  assume r: "Set_reach H' E s"
  then have inv: "Set_inv E s" and fit: "fits (entries s)" using Set_reach_inv by blast+
  show "\<exists>r. Set_Contains H' s j = Some (Inr r)" using inv by (rule Set_Contains_returns)
  show "\<exists>s'. Set_Add H' E s j = Some (Inr s')" using Set_Add_inv [OF inv fits_lt [OF fit]] by blast
  show "\<exists>s'. Set_Remove H' E s j = Some (Inr s')" using Set_Remove_inv [OF inv] by blast
  show "roomy (entries s) (Set_Size s)" if "entries s \<noteq> []"
    using inv that by (auto simp: Set_inv_def setOK_def Set_Size_def intro: tabInv_roomy)
qed

lemma xorAll_liveXor: "xorAll es = liveXor es"
  by (induction es) (simp_all add: liveXor_def)

lemma liveXor_none: "card (liveIdx es) = 0 \<Longrightarrow> liveXor es = 0"
  using length_liveL [of es] by (simp add: liveXor_def liveL_def)

text \<open>
  Claim C3, as amended.  In every reachable state of a Set, \<open>Hash()\<close> is \<open>emptySetHash\<close>
  exclusive-or the exclusive-or of the tagged hashes of the live slots, for an empty set
  \<open>emptySetHash\<close> itself, which is \<open>Int(0).Hash()\<close>: the hash of the value 0, not tagged.
\<close>

theorem Set_Hash_is_emptySetHash_xor_live_hashes:
  fixes s :: "('k::zero) HSet"
  shows "Set_reach H (emptySetHash hash64bits) s \<longrightarrow>
           Set_Hash (emptySetHash hash64bits) s = emptySetHash hash64bits XOR liveXor (entries s)
           \<and> (Set_Size s = 0 \<longrightarrow> Set_Hash (emptySetHash hash64bits) s = Int_Hash hash64bits 0)"
proof
  let ?E = "emptySetHash hash64bits"
  assume "Set_reach H ?E s"
  then have inv: "Set_inv ?E s" using Set_reach_inv by blast
  have e: "Set_Size s = 0 \<longrightarrow> Set_Hash ?E s = Int_Hash hash64bits 0"
    by (simp add: Set_Hash_def Set_Size_def emptySetHash_def)
  have "Set_Hash ?E s = ?E XOR liveXor (entries s)"
  proof (cases "sizef s = 0")
    case True
    have "liveXor (entries s) = 0"
    proof (cases "entries s = []")
      case True
      then show ?thesis by (simp add: liveXor_def)
    next
      case False
      with inv True have "card (liveIdx (entries s)) = 0"
        by (simp add: Set_inv_def setOK_def tabInv_def)
      then show ?thesis by (rule liveXor_none)
    qed
    with True show ?thesis by (simp add: Set_Hash_def)
  next
    case False
    with inv have "hash s = ?E XOR xorAll (entries s)" by (auto simp: Set_inv_def setOK_def)
    with False show ?thesis by (simp add: Set_Hash_def xorAll_liveXor)
  qed
  with e show "Set_Hash ?E s = ?E XOR liveXor (entries s)
           \<and> (Set_Size s = 0 \<longrightarrow> Set_Hash ?E s = Int_Hash hash64bits 0)" by simp
qed

section \<open>Equality of sets\<close>

lemma tagged_liveSet:
  assumes "tagged H es"
  shows "liveSet es = tagEntry H ` key ` liveSet es"
proof (rule set_eqI)
  fix e
  show "e \<in> liveSet es \<longleftrightarrow> e \<in> tagEntry H ` key ` liveSet es"
  proof
    assume e: "e \<in> liveSet es"
    with assms obtain k where "e = tagEntry H k" unfolding tagged_def by blast
    then have "e = tagEntry H (key e)" by (simp add: tagEntry_def)
    with e show "e \<in> tagEntry H ` key ` liveSet es" by blast
  next
    assume "e \<in> tagEntry H ` key ` liveSet es"
    then obtain e' where e': "e' \<in> liveSet es" "e = tagEntry H (key e')" by blast
    with assms obtain k where "e' = tagEntry H k" unfolding tagged_def by blast
    then have "e' = tagEntry H (key e')" by (simp add: tagEntry_def)
    with e' show "e \<in> liveSet es" by simp
  qed
qed

lemma Set_keys_eq_iff:
  assumes "tagged H (entries s)" "tagged H (entries t)"
  shows "Set_keys s = Set_keys t \<longleftrightarrow> liveSet (entries s) = liveSet (entries t)"
proof
  assume "Set_keys s = Set_keys t"
  then have "tagEntry H ` key ` liveSet (entries s) = tagEntry H ` key ` liveSet (entries t)"
    by (simp add: Set_keys_def)
  then show "liveSet (entries s) = liveSet (entries t)"
    using tagged_liveSet [OF assms(1)] tagged_liveSet [OF assms(2)] by simp
next
  assume "liveSet (entries s) = liveSet (entries t)"
  then show "Set_keys s = Set_keys t" by (simp add: Set_keys_def)
qed

lemma Set_Equals_keys:
  fixes s t :: "('k::zero) HSet"
  assumes "Set_reach H E s" "Set_reach H E t"
  shows "Set_Equals E s t = Some (Inr (Set_keys s = Set_keys t))"
proof -
  from Set_reach_good [OF assms(1)] have s: "Set_inv E s" "tagged H (entries s)" by simp_all
  from Set_reach_good [OF assms(2)] have t: "Set_inv E t" "tagged H (entries t)" by simp_all
  show ?thesis using Set_Equals_liveSet [OF s(1) t(1)] Set_keys_eq_iff [OF s(2) t(2)] by simp
qed

lemma Set_Equals_same_elements:
  fixes xs ys :: "('k::zero) list"
  assumes "set xs = set ys" "length xs < 2 ^ 59" "length ys < 2 ^ 59"
  shows "\<exists>a b. Set_AddAll H E zeroSet xs = Some (Inr a) \<and> Set_AddAll H E zeroSet ys = Some (Inr b)
          \<and> Set_Equals E a b = Some (Inr True)"
proof -
  from Set_AddAll_zeroSet [OF assms(2), of H E]
  obtain a where a: "Set_AddAll H E zeroSet xs = Some (Inr a)" "Set_reach H E a"
    "liveSet (entries a) = tagEntry H ` set xs" by blast
  from Set_AddAll_zeroSet [OF assms(3), of H E]
  obtain b where b: "Set_AddAll H E zeroSet ys = Some (Inr b)" "Set_reach H E b"
    "liveSet (entries b) = tagEntry H ` set ys" by blast
  have "Set_inv E a" "Set_inv E b" using Set_reach_inv a(2) b(2) by blast+
  then have "Set_Equals E a b = Some (Inr True)"
    using Set_Equals_liveSet [of E a b] a(3) b(3) assms(1) by simp
  with a(1) b(1) show ?thesis by blast
qed

text \<open>
  Claim C6.  On sets reached from the zero value (\<open>s\<close>, \<open>t\<close>), \<open>Equals\<close> returns and tells whether
  the two sets have the same keys, so it is reflexive and symmetric.  Two sets built by adding the
  elements of two lists with the same elements (fewer than \<open>2^59\<close> of them), in any orders and
  with any repetitions, are equal; in particular the set built from 1, 2, 3 equals the set built
  from 3, 2, 1, whatever the hash of \<open>Int\<close> keys is.
\<close>

theorem Set_Equals_reflexive_symmetric_order_insensitive:
  fixes s t :: "('k::zero) HSet" and xs ys :: "'k list" and H' :: "int \<Rightarrow> 64 word"
  shows "(Set_reach H E s \<and> Set_reach H E t \<longrightarrow>
            Set_Equals E s s = Some (Inr True)
            \<and> Set_Equals E s t = Set_Equals E t s
            \<and> Set_Equals E s t = Some (Inr (Set_keys s = Set_keys t)))
       \<and> (set xs = set ys \<and> length xs < 2 ^ 59 \<and> length ys < 2 ^ 59 \<longrightarrow>
            (\<exists>a b. Set_AddAll H E zeroSet xs = Some (Inr a) \<and> Set_AddAll H E zeroSet ys = Some (Inr b)
               \<and> Set_Equals E a b = Some (Inr True)))
       \<and> (\<exists>a b. Set_AddAll H' E zeroSet [1, 2, 3] = Some (Inr a)
               \<and> Set_AddAll H' E zeroSet [3, 2, 1] = Some (Inr b)
               \<and> Set_Equals E a b = Some (Inr True))"
proof (intro conjI impI)
  assume r: "Set_reach H E s \<and> Set_reach H E t"
  then have rs: "Set_reach H E s" and rt: "Set_reach H E t" by simp_all
  show "Set_Equals E s s = Some (Inr True)" using Set_Equals_keys [OF rs rs] by simp
  show "Set_Equals E s t = Some (Inr (Set_keys s = Set_keys t))" using Set_Equals_keys [OF rs rt] .
  show "Set_Equals E s t = Set_Equals E t s"
    using Set_Equals_keys [OF rs rt] Set_Equals_keys [OF rt rs] by auto
next
  assume "set xs = set ys \<and> length xs < 2 ^ 59 \<and> length ys < 2 ^ 59"
  then show "\<exists>a b. Set_AddAll H E zeroSet xs = Some (Inr a) \<and> Set_AddAll H E zeroSet ys = Some (Inr b)
               \<and> Set_Equals E a b = Some (Inr True)"
    using Set_Equals_same_elements [of xs ys H E] by simp
next
  have "set [1, 2, 3 :: int] = set [3, 2, 1]" by auto
  moreover have "length [1, 2, 3 :: int] < 2 ^ 59" "length [3, 2, 1 :: int] < 2 ^ 59" by simp_all
  ultimately show "\<exists>a b. Set_AddAll H' E zeroSet [1, 2, 3] = Some (Inr a)
               \<and> Set_AddAll H' E zeroSet [3, 2, 1] = Some (Inr b)
               \<and> Set_Equals E a b = Some (Inr True)"
    by (rule Set_Equals_same_elements)
qed

section \<open>The scan of a binary set operation\<close>

lemma capOK_le_4size:
  assumes "capOK n sz"
  shows "int n \<le> max 16 (4 * sz)"
proof -
  from assms obtain k where k: "4 \<le> k" "n = 2 ^ k" unfolding capOK_def by blast
  from pow2_ge4 [OF k] obtain j where j: "n = 16 * j" by blast
  from assms have "n = 16 \<or> int n div 4 \<le> sz" by (simp add: capOK_def)
  then show ?thesis
  proof
    assume "n = 16"
    then show ?thesis by simp
  next
    assume "int n div 4 \<le> sz"
    moreover have "int n div 4 = 4 * int j" using j by simp
    moreover have "int n = 16 * int j" using j by simp
    ultimately show ?thesis by simp
  qed
qed

lemma scanned_length:
  "length (entries (scannedOperand s t)) = min (length (entries s)) (length (entries t))"
  by (simp add: scannedOperand_def swapByLen_def)

lemma scanned_bounded:
  assumes s: "capOK (length (entries s)) (sizef s)" and t: "capOK (length (entries t)) (sizef t)"
  shows "int (length (entries (scannedOperand s t))) \<le> max 16 (4 * min (sizef s) (sizef t))"
proof -
  have "int (length (entries s)) \<le> max 16 (4 * sizef s)" using capOK_le_4size [OF s] .
  moreover have "int (length (entries t)) \<le> max 16 (4 * sizef t)" using capOK_le_4size [OF t] .
  ultimately show ?thesis unfolding scanned_length by (auto simp: min_def max_def)
qed

lemma swapped_operands:
  "swapByLen s t = (scannedOperand s t, queriedOperand s t)"
  by (simp add: scannedOperand_def queriedOperand_def)

text \<open>
  Claim C9, as amended.  For reachable, non-empty sets \<open>s\<close> and \<open>t\<close>: \<open>Equals\<close> (when the sizes
  and the hashes agree), \<open>IsDisjoint\<close>, \<open>Union\<close> and \<open>Intersection\<close> scan the backing array of the
  operand whose backing array is not the longer one (the receiver when the lengths are equal) and
  query, or add to a copy of, the other; this need not be the operand with fewer live entries,
  but the scanned array has at most \<open>max 16 (4 * min (size s) (size t))\<close> slots.  \<open>Difference\<close>
  scans the backing array of its argument, whatever the sizes, at most \<open>max 16 (4 * size t)\<close>
  slots, and removes from a copy of the receiver.  Each of the five returns.
\<close>

theorem binary_operations_scan_shorter_array:
  fixes s t :: "('k::zero) HSet"
  shows "Set_reach H E s \<and> Set_reach H E t \<and> Set_Size s \<noteq> 0 \<and> Set_Size t \<noteq> 0 \<longrightarrow>
     (scannedOperand s t, queriedOperand s t)
        = (if length (entries t) < length (entries s) then (t, s) else (s, t))
   \<and> length (entries (scannedOperand s t)) = min (length (entries s)) (length (entries t))
   \<and> int (length (entries (scannedOperand s t))) \<le> max 16 (4 * min (Set_Size s) (Set_Size t))
   \<and> (Set_Size s = Set_Size t \<and> Set_Hash E s = Set_Hash E t \<longrightarrow>
        Set_Equals E s t = Set_scan False (queriedOperand s t) (entries (scannedOperand s t)))
   \<and> Set_IsDisjoint s t = Set_scan True (queriedOperand s t) (entries (scannedOperand s t))
   \<and> Set_Union E s t
        = foldR (Set_Union_body E) (entries (scannedOperand s t)) (Set_Copy (queriedOperand s t))
   \<and> Set_Intersection E s t
        = foldR (Set_Intersection_body E (queriedOperand s t)) (entries (scannedOperand s t)) zeroSet
   \<and> Set_Difference E s t = foldR (Set_Difference_body E) (entries t) (Set_Copy s)
   \<and> int (length (entries t)) \<le> max 16 (4 * Set_Size t)
   \<and> (\<exists>b. Set_Equals E s t = Some (Inr b))
   \<and> (\<exists>b. Set_IsDisjoint s t = Some (Inr b))
   \<and> (\<exists>r. Set_Union E s t = Some (Inr r))
   \<and> (\<exists>r. Set_Intersection E s t = Some (Inr r))
   \<and> (\<exists>r. Set_Difference E s t = Some (Inr r))"
proof
  assume a: "Set_reach H E s \<and> Set_reach H E t \<and> Set_Size s \<noteq> 0 \<and> Set_Size t \<noteq> 0"
  then have rs: "Set_reach H E s" and rt: "Set_reach H E t"
    and ns: "sizef s \<noteq> 0" and nt: "sizef t \<noteq> 0" by (simp_all add: Set_Size_def)
  from Set_reach_inv [OF rs] have invs: "Set_inv E s" and fs: "fits (entries s)" by simp_all
  from Set_reach_inv [OF rt] have invt: "Set_inv E t" and ft: "fits (entries t)" by simp_all
  from Set_inv_allocated [OF invs ns] have oks: "setOK E s" and cs: "capOK (length (entries s)) (sizef s)"
    by simp_all
  from Set_inv_allocated [OF invt nt] have okt: "setOK E t" and ct: "capOK (length (entries t)) (sizef t)"
    by simp_all
  have 1: "(scannedOperand s t, queriedOperand s t)
        = (if length (entries t) < length (entries s) then (t, s) else (s, t))"
    by (simp add: scannedOperand_def queriedOperand_def swapByLen_def)
  have 2: "length (entries (scannedOperand s t)) = min (length (entries s)) (length (entries t))"
    by (rule scanned_length)
  have 3: "int (length (entries (scannedOperand s t))) \<le> max 16 (4 * min (Set_Size s) (Set_Size t))"
    using scanned_bounded [OF cs ct] by (simp add: Set_Size_def)
  have 4: "Set_Size s = Set_Size t \<and> Set_Hash E s = Set_Hash E t \<longrightarrow>
        Set_Equals E s t = Set_scan False (queriedOperand s t) (entries (scannedOperand s t))"
    using ns by (simp add: Set_Equals_def Set_Size_def swapped_operands)
  have 5: "Set_IsDisjoint s t = Set_scan True (queriedOperand s t) (entries (scannedOperand s t))"
    using ns nt by (simp add: Set_IsDisjoint_def swapped_operands)
  have 6: "Set_Union E s t
        = foldR (Set_Union_body E) (entries (scannedOperand s t)) (Set_Copy (queriedOperand s t))"
    using ns nt by (simp add: Set_Union_def swapped_operands)
  have 7: "Set_Intersection E s t
        = foldR (Set_Intersection_body E (queriedOperand s t)) (entries (scannedOperand s t)) zeroSet"
    using ns nt by (simp add: Set_Intersection_def swapped_operands)
  have 8: "Set_Difference E s t = foldR (Set_Difference_body E) (entries t) (Set_Copy s)"
    using ns nt by (simp add: Set_Difference_def)
  have 9: "int (length (entries t)) \<le> max 16 (4 * Set_Size t)"
    using capOK_le_4size [OF ct] by (simp add: Set_Size_def)
  have 10: "\<exists>b. Set_Equals E s t = Some (Inr b)" using Set_Equals_liveSet [OF invs invt] by blast
  have okq: "setOK E (queriedOperand s t)
      \<and> capOK (length (entries (queriedOperand s t))) (sizef (queriedOperand s t))"
    using oks cs okt ct by (simp add: queriedOperand_def swapByLen_def)
  have 11: "\<exists>b. Set_IsDisjoint s t = Some (Inr b)"
    unfolding 5 using Set_scan_ok [of E "queriedOperand s t" True "entries (scannedOperand s t)"] okq
    by blast
  have 12: "\<exists>r. Set_Union E s t = Some (Inr r)" using Set_Union_ok [OF invs fs invt ft] by blast
  have 13: "\<exists>r. Set_Intersection E s t = Some (Inr r)" using Set_Intersection_ok [OF invs fs invt ft] by blast
  have 14: "\<exists>r. Set_Difference E s t = Some (Inr r)" using Set_Difference_ok [OF invs invt] by blast
  from 1 2 3 4 5 6 7 8 9 10 11 12 13 14
  show "(scannedOperand s t, queriedOperand s t)
        = (if length (entries t) < length (entries s) then (t, s) else (s, t))
   \<and> length (entries (scannedOperand s t)) = min (length (entries s)) (length (entries t))
   \<and> int (length (entries (scannedOperand s t))) \<le> max 16 (4 * min (Set_Size s) (Set_Size t))
   \<and> (Set_Size s = Set_Size t \<and> Set_Hash E s = Set_Hash E t \<longrightarrow>
        Set_Equals E s t = Set_scan False (queriedOperand s t) (entries (scannedOperand s t)))
   \<and> Set_IsDisjoint s t = Set_scan True (queriedOperand s t) (entries (scannedOperand s t))
   \<and> Set_Union E s t
        = foldR (Set_Union_body E) (entries (scannedOperand s t)) (Set_Copy (queriedOperand s t))
   \<and> Set_Intersection E s t
        = foldR (Set_Intersection_body E (queriedOperand s t)) (entries (scannedOperand s t)) zeroSet
   \<and> Set_Difference E s t = foldR (Set_Difference_body E) (entries t) (Set_Copy s)
   \<and> int (length (entries t)) \<le> max 16 (4 * Set_Size t)
   \<and> (\<exists>b. Set_Equals E s t = Some (Inr b))
   \<and> (\<exists>b. Set_IsDisjoint s t = Some (Inr b))
   \<and> (\<exists>r. Set_Union E s t = Some (Inr r))
   \<and> (\<exists>r. Set_Intersection E s t = Some (Inr r))
   \<and> (\<exists>r. Set_Difference E s t = Some (Inr r))"
    by blast
qed

section \<open>The map in a store\<close>

lemma sEntries_sWrite: "wfS w \<Longrightarrow> sEntries (sWrite w i x) = (sEntries w)[i := x]"
  by (auto simp: wfS_def sEntries_def sWrite_def split: option.splits)

lemma wfS_sWrite: "wfS w \<Longrightarrow> wfS (sWrite w i x)"
  by (auto simp: wfS_def sWrite_def split: option.splits)

lemma sizeS_sWrite [simp]: "sizeS (sWrite w i x) = sizeS w"
  by (simp add: sWrite_def split: option.splits)

lemma wfS_sizeS [simp]: "wfS (w\<lparr>sizeS := n\<rparr>) = wfS w"
  by (simp add: wfS_def split: option.splits)

lemma sEntries_sizeS [simp]: "sEntries (w\<lparr>sizeS := n\<rparr>) = sEntries w"
  by (simp add: sEntries_def split: option.splits)

lemma wfS_sMake: "0 < n \<Longrightarrow> wfS (sMake w n z)"
  by (simp add: wfS_def sMake_def)

lemma wfS_nonempty: "wfS w \<Longrightarrow> sEntries w = [] \<longleftrightarrow> slice w = None"
  by (auto simp: wfS_def sEntries_def split: option.splits)

lemma sEntries_sMake: "sEntries (sMake w n z) = replicate n z"
  by (simp add: sEntries_def sMake_def)

lemma sizeS_sMake [simp]: "sizeS (sMake w n z) = sizeS w"
  by (simp add: sMake_def)

lemma entries_sView [simp]: "entries (sView w) = sEntries w"
  by (simp add: sView_def)

lemma sizef_sView [simp]: "sizef (sView w) = sizeS w"
  by (simp add: sView_def)

lemma sView_write:
  "wfS w \<Longrightarrow> sView ((sWrite w i x)\<lparr>sizeS := n\<rparr>) = (sView w)\<lparr>entries := (entries (sView w))[i := x], sizef := n\<rparr>"
  by (simp add: sView_def sEntries_sWrite)

lemma sView_make:
  "sView (sMake (w\<lparr>sizeS := 0\<rparr>) n z) = (sView w)\<lparr>sizef := 0, entries := replicate n z\<rparr>"
  by (simp add: sView_def sEntries_sMake)

lemma probe_Inr_nonempty: "probe es h k i = Some (Inr x) \<Longrightarrow> es \<noteq> []"
  by (subst (asm) probe.simps) auto

lemma bindR_Some:
  "bindR r f = Some y \<Longrightarrow> (\<exists>e. r = Some (Inl e) \<and> y = Inl e) \<or> (\<exists>x. r = Some (Inr x) \<and> f x = Some y)"
  by (auto simp: bindR_def split: option.splits sum.splits)

lemma simPut_fold:
  assumes f: "simPut f"
  shows "wfS acc \<Longrightarrow>
     foldR (\<lambda>w' entry. if hash1 entry \<noteq> 0 then f w' (hash1 entry) (key entry) (valuef entry)
                        else Some (Inr w')) xs acc = Some y \<Longrightarrow>
     foldR (\<lambda>m' entry. if hash1 entry \<noteq> 0 then Map_putHash1 m' (hash1 entry) (key entry) (valuef entry)
                        else Some (Inr m')) xs (sView acc) = Some (map_sum id sView y)
     \<and> (\<forall>w'. y = Inr w' \<longrightarrow> wfS w')"
proof (induction xs arbitrary: acc)
  case Nil
  then show ?case by auto
next
  case (Cons x xs)
  show ?case
  proof (cases "hash1 x = 0")
    case True
    with Cons.prems(2) have "foldR (\<lambda>w' entry. if hash1 entry \<noteq> 0
        then f w' (hash1 entry) (key entry) (valuef entry) else Some (Inr w')) xs acc = Some y"
      by (simp add: bindR_def)
    from Cons.IH [OF Cons.prems(1) this] True show ?thesis by (simp add: bindR_def)
  next
    case False
    from Cons.prems(2) False
    have "bindR (f acc (hash1 x) (key x) (valuef x))
            (foldR (\<lambda>w' entry. if hash1 entry \<noteq> 0
               then f w' (hash1 entry) (key entry) (valuef entry) else Some (Inr w')) xs) = Some y"
      by simp
    from bindR_Some [OF this] show ?thesis
    proof (elim disjE exE conjE)
      fix e assume e: "f acc (hash1 x) (key x) (valuef x) = Some (Inl e)" "y = Inl e"
      from f e(1) Cons.prems(1)
      have "Map_putHash1 (sView acc) (hash1 x) (key x) (valuef x) = Some (Inl e)"
        unfolding simPut_def by fastforce
      with False e(2) show ?thesis by (simp add: bindR_def)
    next
      fix a assume a: "f acc (hash1 x) (key x) (valuef x) = Some (Inr a)"
        and r: "foldR (\<lambda>w' entry. if hash1 entry \<noteq> 0
               then f w' (hash1 entry) (key entry) (valuef entry) else Some (Inr w')) xs a = Some y"
      from f a Cons.prems(1)
      have p: "Map_putHash1 (sView acc) (hash1 x) (key x) (valuef x) = Some (Inr (sView a))" and wa: "wfS a"
        unfolding simPut_def by fastforce+
      from Cons.IH [OF wa r] p False show ?thesis by (simp add: bindR_def)
    qed
  qed
qed

lemma simPut_resizeWith:
  assumes "simPut f" "0 < cap" "sMap_resizeWith f w cap = Some y"
  shows "Map_resizeWith Map_putHash1 (sView w) cap = Some (map_sum id sView y)
         \<and> (\<forall>w'. y = Inr w' \<longrightarrow> wfS w')"
proof -
  have "wfS (sMake (w\<lparr>sizeS := 0\<rparr>) (nat cap) zeroMapEntry)" using assms(2) by (simp add: wfS_sMake)
  from simPut_fold [OF assms(1) this] assms(3)
  show ?thesis unfolding sMap_resizeWith_def Map_resizeWith_def by (simp add: sView_make)
qed

lemma sMap_putHash1_sim_aux:
  fixes w :: "('k::zero, 'v::zero) mapEntry Shared"
  shows "sMap_putHash1 w h k v = Some y \<Longrightarrow>
     wfS w \<longrightarrow> Map_putHash1 (sView w) h k v = Some (map_sum id sView y)
                \<and> (\<forall>w'. y = Inr w' \<longrightarrow> wfS w')"
proof (induction rule: sMap_putHash1.raw_induct [rotated 1, consumes 1, case_names step])
  case (step f w h k v y)
  have sf: "simPut f" unfolding simPut_def using step(1) by blast
  show ?case
  proof
    assume wf: "wfS w"
    from bindR_Some [OF step(2)]
    show "Map_putHash1 (sView w) h k v = Some (map_sum id sView y)
                \<and> (\<forall>w'. y = Inr w' \<longrightarrow> wfS w')"
    proof (elim disjE exE conjE)
      fix e assume "probe (sEntries w) h k (h AND lenMask (sEntries w)) = Some (Inl e)" "y = Inl e"
      then show ?thesis by (subst Map_putHash1.simps) (simp add: bindR_def)
    next
      fix x assume p: "probe (sEntries w) h k (h AND lenMask (sEntries w)) = Some (Inr x)"
        and b: "(case x of (index, found) \<Rightarrow>
            if found then Some (Inr w)
            else let w1 = (sWrite w (unat index) \<lparr>hash1 = h, key = k, valuef = v\<rparr>)\<lparr>sizeS := sizeS w + 1\<rparr>
                 in if 3 * int (length (sEntries w1)) div 4 < sizeS w1
                    then sMap_resizeWith f w1 (int (length (sEntries w1)) * 2)
                    else Some (Inr w1)) = Some y"
      obtain index found where x: "x = (index, found)" by (cases x)
      let ?w1 = "(sWrite w (unat index) \<lparr>hash1 = h, key = k, valuef = v\<rparr>)\<lparr>sizeS := sizeS w + 1\<rparr>"
      have w1: "wfS ?w1" using wf by (simp add: wfS_sWrite)
      have v1: "sView ?w1 = (sView w)\<lparr>entries := (entries (sView w))[unat index := \<lparr>hash1 = h, key = k, valuef = v\<rparr>],
                                     sizef := sizef (sView w) + 1\<rparr>"
        using sView_write [OF wf] by simp
      show ?thesis
      proof (cases found)
        case True
        with b x have "y = Inr w" by simp
        with p x True wf show ?thesis by (subst Map_putHash1.simps) (simp add: bindR_def)
      next
        case nf: False
        show ?thesis
        proof (cases "3 * int (length (sEntries ?w1)) div 4 < sizeS ?w1")
          case True
          with b x nf have "sMap_resizeWith f ?w1 (int (length (sEntries ?w1)) * 2) = Some y"
            by (simp add: Let_def)
          have "0 < int (length (sEntries ?w1)) * 2"
            using probe_Inr_nonempty [OF p] by (simp add: sEntries_sWrite [OF wf])
          from simPut_resizeWith [OF sf this \<open>sMap_resizeWith f ?w1 (int (length (sEntries ?w1)) * 2) = Some y\<close>]
          have r: "Map_resizeWith Map_putHash1 (sView ?w1) (int (length (sEntries ?w1)) * 2)
                     = Some (map_sum id sView y)" and wy: "\<forall>w'. y = Inr w' \<longrightarrow> wfS w'" by simp_all
          have r': "Map_resizeWith Map_putHash1
                      ((sView w)\<lparr>entries := (sEntries w)[unat index := \<lparr>hash1 = h, key = k, valuef = v\<rparr>],
                                 sizef := sizeS w + 1\<rparr>)
                      (int (length (sEntries w)) * 2) = Some (map_sum id sView y)"
            using r v1 by (simp add: sEntries_sWrite [OF wf])
          have c: "3 * int (length (sEntries w)) div 4 < sizeS w + 1"
            using True by (simp add: sEntries_sWrite [OF wf])
          have "Map_putHash1 (sView w) h k v = Some (map_sum id sView y)"
            apply (subst Map_putHash1.simps)
            using p x nf c r' by (simp add: bindR_def Let_def)
          with wy show ?thesis by simp
        next
          case False
          with b x nf have y: "y = Inr ?w1" by (simp add: Let_def)
          have c: "\<not> 3 * int (length (sEntries w)) div 4 < sizeS w + 1"
            using False by (simp add: sEntries_sWrite [OF wf])
          have "Map_putHash1 (sView w) h k v = Some (Inr (sView ?w1))"
            apply (subst Map_putHash1.simps)
            using p x nf c by (simp add: bindR_def Let_def v1)
          with y w1 show ?thesis by simp
        qed
      qed
    qed
  qed
qed

lemma sMap_putHash1_sim: "simPut sMap_putHash1"
  unfolding simPut_def using sMap_putHash1_sim_aux by blast

lemma sMap_putHash1_view:
  fixes w :: "('k::zero, 'v::zero) mapEntry Shared"
  assumes "sMap_putHash1 w h k v = Some y" "wfS w"
  shows "Map_putHash1 (sView w) h k v = Some (map_sum id sView y)" and "y = Inr w' \<Longrightarrow> wfS w'"
  using sMap_putHash1_sim_aux [OF assms(1)] assms(2) by simp_all

lemma sMap_resize_view:
  fixes w :: "('k::zero, 'v::zero) mapEntry Shared"
  assumes "sMap_resize w cap = Some y" "0 < cap"
  shows "Map_resize (sView w) cap = Some (map_sum id sView y)" and "y = Inr w' \<Longrightarrow> wfS w'"
  using simPut_resizeWith [OF sMap_putHash1_sim assms(2), of w y] assms(1)
  by (simp_all add: sMap_resize_def Map_resize_def)

lemma sMap_repair_sim_aux:
  fixes w :: "('k::zero, 'v::zero) mapEntry Shared"
  shows "sMap_repair w index = Some y \<Longrightarrow>
     wfS w \<longrightarrow> Map_repair (sView w) index = Some (map_sum id sView y)
                \<and> (\<forall>w'. y = Inr w' \<longrightarrow> wfS w')"
proof (induction rule: sMap_repair.raw_induct [rotated 1, consumes 1, case_names step])
  case (step f w index y)
  show ?case
  proof
    assume wf: "wfS w"
    show "Map_repair (sView w) index = Some (map_sum id sView y) \<and> (\<forall>w'. y = Inr w' \<longrightarrow> wfS w')"
    proof (cases "length (sEntries w) \<le> unat index")
      case True
      with step(2) have "y = Inl IndexOutOfRange" by simp
      with True show ?thesis by (subst Map_repair.simps) simp
    next
      case inr: False
      show ?thesis
      proof (cases "hash1 (sEntries w ! unat index) = 0")
        case True
        with step(2) inr have "y = Inr w" by simp
        with True inr wf show ?thesis by (subst Map_repair.simps) simp
      next
        case live: False
        let ?entry = "sEntries w ! unat index"
        let ?w1 = "(sWrite w (unat index) zeroMapEntry)\<lparr>sizeS := sizeS w - 1\<rparr>"
        have w1: "wfS ?w1" using wf by (simp add: wfS_sWrite)
        have v1: "sView ?w1 = (sView w)\<lparr>entries := (entries (sView w))[unat index := zeroMapEntry],
                                       sizef := sizef (sView w) - 1\<rparr>"
          using sView_write [OF wf] by simp
        from step(2) inr live
        have "bindR (sMap_putHash1 ?w1 (hash1 ?entry) (key ?entry) (valuef ?entry))
                (\<lambda>w2. f w2 ((index + 1) AND lenMask (sEntries w2))) = Some y"
          by (simp add: Let_def)
        from bindR_Some [OF this] show ?thesis
        proof (elim disjE exE conjE)
          fix e assume e: "sMap_putHash1 ?w1 (hash1 ?entry) (key ?entry) (valuef ?entry) = Some (Inl e)"
            "y = Inl e"
          from sMap_putHash1_view(1) [OF e(1) w1]
          have "Map_putHash1 (sView ?w1) (hash1 ?entry) (key ?entry) (valuef ?entry) = Some (Inl e)"
            by simp
          then show ?thesis
            apply (subst Map_repair.simps)
            using inr live e(2) unfolding v1 by (simp add: Let_def bindR_def)
        next
          fix w2 assume p: "sMap_putHash1 ?w1 (hash1 ?entry) (key ?entry) (valuef ?entry) = Some (Inr w2)"
            and r: "f w2 ((index + 1) AND lenMask (sEntries w2)) = Some y"
          from sMap_putHash1_view [OF p w1]
          have p': "Map_putHash1 (sView ?w1) (hash1 ?entry) (key ?entry) (valuef ?entry) = Some (Inr (sView w2))"
            and w2: "wfS w2" by simp_all
          from step(1) [OF r] w2
          have "Map_repair (sView w2) ((index + 1) AND lenMask (sEntries w2)) = Some (map_sum id sView y)"
            and wy: "\<forall>w'. y = Inr w' \<longrightarrow> wfS w'" by blast+
          then have "Map_repair (sView w) index = Some (map_sum id sView y)"
            apply (subst Map_repair.simps)
            using inr live p' unfolding v1 by (simp add: Let_def bindR_def)
          with wy show ?thesis by simp
        qed
      qed
    qed
  qed
qed

lemma sMap_repair_view:
  fixes w :: "('k::zero, 'v::zero) mapEntry Shared"
  assumes "sMap_repair w index = Some y" "wfS w"
  shows "Map_repair (sView w) index = Some (map_sum id sView y)" and "y = Inr w' \<Longrightarrow> wfS w'"
  using sMap_repair_sim_aux [OF assms(1)] assms(2) by simp_all

text \<open>
  \<open>Put\<close> and \<open>Remove\<close> in the store, when they return, return the map that \<open>Put\<close> and
  \<open>Remove\<close> on values return.
\<close>

lemma sMap_Put_view:
  fixes w :: "('k::zero, 'v::zero) mapEntry Shared"
  assumes "sMap_Put H w k v = Some y" "wfS w"
  shows "Map_Put H (sView w) k v = Some (map_sum id sView y)" and "y = Inr w' \<Longrightarrow> wfS w'"
proof -
  let ?w0 = "if slice w = None then sMake w initialCapacity zeroMapEntry else w"
  have w0: "wfS ?w0" using assms(2) by (simp add: wfS_sMake initialCapacity_def)
  have v0: "sView ?w0 = (if entries (sView w) = [] then Map_init (sView w) else sView w)"
    using wfS_nonempty [OF assms(2)]
    by (simp add: Map_init_def sView_def sEntries_sMake)
  from assms(1) have p: "sMap_putHash1 ?w0 (H k OR fullBit) k v = Some y"
    by (simp add: sMap_Put_def Let_def)
  from sMap_putHash1_view [OF p w0]
  show "Map_Put H (sView w) k v = Some (map_sum id sView y)" and "y = Inr w' \<Longrightarrow> wfS w'"
    unfolding Map_Put_def v0 [symmetric] by (simp_all add: Let_def)
qed

lemma sMap_Remove_view:
  fixes w :: "('k::zero, 'v::zero) mapEntry Shared"
  assumes r: "sMap_Remove H w k = Some y" and wf: "wfS w"
  shows "Map_Remove H (sView w) k = Some (map_sum id sView y)" and "y = Inr w' \<Longrightarrow> wfS w'"
proof -
  have "Map_Remove H (sView w) k = Some (map_sum id sView y) \<and> (\<forall>w'. y = Inr w' \<longrightarrow> wfS w')"
  proof (cases "sizeS w = 0")
    case True
    with r have "y = Inr w" by (simp add: sMap_Remove_def)
    with True wf show ?thesis by (simp add: Map_Remove_def)
  next
    case nz: False
    let ?h = "H k OR fullBit"
    from r nz have "bindR (probe (sEntries w) ?h k (?h AND lenMask (sEntries w))) (\<lambda>(index, found).
          if \<not> found then Some (Inr w)
          else let w1 = (sWrite w (unat index) zeroMapEntry)\<lparr>sizeS := sizeS w - 1\<rparr> in
            if int (length (sEntries w1)) > int initialCapacity
               \<and> sizeS w1 < int (length (sEntries w1)) div 4
            then sMap_resize w1 (int (length (sEntries w1)) div 2)
            else sMap_repair w1 ((index + 1) AND lenMask (sEntries w1))) = Some y"
      by (simp add: sMap_Remove_def Let_def)
    from bindR_Some [OF this] show ?thesis
    proof (elim disjE exE conjE)
      fix e assume "probe (sEntries w) ?h k (?h AND lenMask (sEntries w)) = Some (Inl e)" "y = Inl e"
      with nz show ?thesis by (simp add: Map_Remove_def Let_def bindR_def)
    next
      fix x assume p: "probe (sEntries w) ?h k (?h AND lenMask (sEntries w)) = Some (Inr x)"
        and b: "(case x of (index, found) \<Rightarrow>
          if \<not> found then Some (Inr w)
          else let w1 = (sWrite w (unat index) zeroMapEntry)\<lparr>sizeS := sizeS w - 1\<rparr> in
            if int (length (sEntries w1)) > int initialCapacity
               \<and> sizeS w1 < int (length (sEntries w1)) div 4
            then sMap_resize w1 (int (length (sEntries w1)) div 2)
            else sMap_repair w1 ((index + 1) AND lenMask (sEntries w1))) = Some y"
      obtain index found where x: "x = (index, found)" by (cases x)
      let ?w1 = "(sWrite w (unat index) zeroMapEntry)\<lparr>sizeS := sizeS w - 1\<rparr>"
      have w1: "wfS ?w1" using wf by (simp add: wfS_sWrite)
      have v1: "sView ?w1 = (sView w)\<lparr>entries := (entries (sView w))[unat index := zeroMapEntry],
                                     sizef := sizef (sView w) - 1\<rparr>"
        using sView_write [OF wf] by simp
      have e1: "sEntries ?w1 = (sEntries w)[unat index := zeroMapEntry]"
        by (simp add: sEntries_sWrite [OF wf])
      show ?thesis
      proof (cases found)
        case False
        with b x have "y = Inr w" by simp
        with p x False nz wf show ?thesis by (simp add: Map_Remove_def Let_def bindR_def)
      next
        case fnd: True
        show ?thesis
        proof (cases "int (length (sEntries w)) > int initialCapacity
               \<and> sizeS w - 1 < int (length (sEntries w)) div 4")
          case True
          with b x fnd have rs: "sMap_resize ?w1 (int (length (sEntries w)) div 2) = Some y"
            by (auto simp: Let_def sEntries_sWrite [OF wf] split: if_splits)
          have "16 < int (length (sEntries w))" using True by (simp add: initialCapacity_def)
          then have "0 < int (length (sEntries w)) div 2" by linarith
          from sMap_resize_view [OF rs this]
          have "Map_resize (sView ?w1) (int (length (sEntries w)) div 2) = Some (map_sum id sView y)"
            and wy: "\<forall>w'. y = Inr w' \<longrightarrow> wfS w'" by simp_all
          then have "Map_Remove H (sView w) k = Some (map_sum id sView y)"
            using p x fnd nz True unfolding v1 by (simp add: Map_Remove_def Let_def bindR_def)
          with wy show ?thesis by simp
        next
          case False
          with b x fnd have rp: "sMap_repair ?w1 ((index + 1) AND lenMask (sEntries ?w1)) = Some y"
            by (auto simp: Let_def sEntries_sWrite [OF wf] split: if_splits)
          from sMap_repair_view [OF rp w1]
          have "Map_repair (sView ?w1) ((index + 1) AND lenMask (sEntries ?w1)) = Some (map_sum id sView y)"
            and wy: "\<forall>w'. y = Inr w' \<longrightarrow> wfS w'" by simp_all
          then have "Map_Remove H (sView w) k = Some (map_sum id sView y)"
            using p x fnd nz False unfolding v1 e1 by (auto simp: Map_Remove_def Let_def bindR_def)
          with wy show ?thesis by simp
        qed
      qed
    qed
  qed
  then show "Map_Remove H (sView w) k = Some (map_sum id sView y)" and "y = Inr w' \<Longrightarrow> wfS w'"
    by simp_all
qed

section \<open>The zero value\<close>

lemma probe_fresh:
  fixes z :: "('k, 'z) setEntry_scheme"
  assumes "hash1 z = 0"
  shows "probe (replicate 16 z) h k (h AND lenMask (replicate 16 z))
          = Some (Inr (h AND lenMask (replicate 16 z), False))"
proof -
  have "length (replicate 16 z) = 2 ^ 4" by simp
  from unat_and_lenMask [OF this, of h]
  have lt: "unat (h AND lenMask (replicate 16 z)) < 16" by simp
  show ?thesis
    by (subst probe.simps) (use lt assms in simp)
qed

lemma Map_Put_zeroMap:
  "Map_Put H (zeroMap :: ('k::zero, 'v::zero) Map) k v =
     Some (Inr \<lparr>entries = (replicate 16 zeroMapEntry)
                   [unat ((H k OR fullBit) AND lenMask (replicate 16 (zeroMapEntry :: ('k, 'v) mapEntry)))
                      := \<lparr>hash1 = H k OR fullBit, key = k, valuef = v\<rparr>],
                sizef = 1\<rparr>)"
proof -
  have z: "hash1 (zeroMapEntry :: ('k, 'v) mapEntry) = 0" by (simp add: zeroMapEntry_def)
  show ?thesis
    unfolding Map_Put_def Map_init_def zeroMap_def initialCapacity_def
    by (subst Map_putHash1.simps) (simp add: probe_fresh [OF z] bindR_def)
qed

lemma Set_Add_zeroSet:
  "Set_Add H E (zeroSet :: ('k::zero) HSet) k =
     Some (Inr \<lparr>entries = (replicate 16 zeroSetEntry)
                   [unat ((H k OR fullBit) AND lenMask (replicate 16 (zeroSetEntry :: 'k setEntry)))
                      := \<lparr>hash1 = H k OR fullBit, key = k\<rparr>],
                sizef = 1, hash = E XOR (H k OR fullBit)\<rparr>)"
proof -
  have z: "hash1 (zeroSetEntry :: 'k setEntry) = 0" by (simp add: zeroSetEntry_def)
  show ?thesis
    unfolding Set_Add_def Set_init_def zeroSet_def initialCapacity_def
    by (subst Set_addHash1Key.simps)
      (simp add: probe_fresh [OF z] bindR_def Set_init_def initialCapacity_def)
qed

text \<open>
  Claim C7.  The zero value of a Map or of a Set has no backing array and is an empty container:
  its size is 0, \<open>Get\<close> returns the zero value and \<open>false\<close>, \<open>Contains\<close> returns \<open>false\<close>,
  \<open>Remove\<close> returns with the container unchanged, \<open>ForEach\<close> returns \<open>nil\<close> without calling
  the visitor (the visitor's state is unchanged).  Each of these calls returns, none panics on an
  index.  The first \<open>Put\<close> or \<open>Add\<close> returns a container with a backing array of 16 slots and
  size 1.
\<close>

theorem zero_value_is_empty_container:
  "Map_Size (zeroMap :: ('k::zero, 'v::zero) Map) = 0
   \<and> entries (zeroMap :: ('k, 'v) Map) = []
   \<and> Map_Get H (zeroMap :: ('k, 'v) Map) k = Some (Inr (0, False))
   \<and> Map_Remove H (zeroMap :: ('k, 'v) Map) k = Some (Inr zeroMap)
   \<and> Map_ForEach (zeroMap :: ('k, 'v) Map) f st = (None, st)
   \<and> (\<exists>m. Map_Put H (zeroMap :: ('k, 'v) Map) k v = Some (Inr m)
          \<and> length (entries m) = initialCapacity \<and> Map_Size m = 1)
   \<and> Set_Size (zeroSet :: 'k HSet) = 0
   \<and> entries (zeroSet :: 'k HSet) = []
   \<and> Set_Contains H (zeroSet :: 'k HSet) k = Some (Inr False)
   \<and> Set_Remove H E (zeroSet :: 'k HSet) k = Some (Inr zeroSet)
   \<and> Set_ForEach (zeroSet :: 'k HSet) g st = (None, st)
   \<and> (\<exists>s. Set_Add H E (zeroSet :: 'k HSet) k = Some (Inr s)
          \<and> length (entries s) = initialCapacity \<and> Set_Size s = 1)"
  by (simp add: Map_Put_zeroMap Set_Add_zeroSet Map_Size_def Set_Size_def initialCapacity_def)
    (simp add: zeroMap_def zeroSet_def Map_Get_def Map_Remove_def Map_ForEach_def
       Set_Contains_def Set_Remove_def Set_ForEach_def)

section \<open>ForEach\<close>

lemma loggedKV_apply:
  "loggedKV f k v (s, log) = (case f k v s of (r, s') \<Rightarrow> (r, (s', log @ [((k, v), r)])))"
  by (simp add: loggedKV_def)

lemma loggedK_apply:
  "loggedK f k (s, log) = (case f k s of (r, s') \<Rightarrow> (r, (s', log @ [(k, r)])))"
  by (simp add: loggedK_def)

lemma visitOK_Nil: "visitOK [] [] None"
  by (simp add: visitOK_def)

lemma visitOK_stop: "visitOK (a # live) [(a, Some e)] (Some e)"
  by (simp add: visitOK_def)

lemma visitOK_step: "visitOK live log err \<Longrightarrow> visitOK (a # live) ((a, None) # log) err"
  by (auto simp: visitOK_def butlast.simps split: if_splits)

lemma Map_ForEach_loop_logged:
  "Map_ForEach_loop (loggedKV f) es (st, l0) = (err, (st', l1)) \<Longrightarrow>
     \<exists>log. l1 = l0 @ log \<and> Map_ForEach_loop f es st = (err, st')
       \<and> visitOK (map (\<lambda>e. (key e, valuef e)) (filter (\<lambda>e. hash1 e \<noteq> 0) es)) log err"
proof (induction es arbitrary: st l0)
  case Nil
  then show ?case by (simp add: visitOK_Nil)
next
  case (Cons e es)
  show ?case
  proof (cases "hash1 e = 0")
    case True
    with Cons show ?thesis by simp
  next
    case False
    obtain r s1 where f: "f (key e) (valuef e) st = (r, s1)" by (cases "f (key e) (valuef e) st")
    show ?thesis
    proof (cases r)
      case None
      with False f Cons.prems
      have "Map_ForEach_loop (loggedKV f) es (s1, l0 @ [((key e, valuef e), None)]) = (err, (st', l1))"
        by (simp add: loggedKV_apply)
      from Cons.IH [OF this] obtain log where
        "l1 = (l0 @ [((key e, valuef e), None)]) @ log" "Map_ForEach_loop f es s1 = (err, st')"
        "visitOK (map (\<lambda>e. (key e, valuef e)) (filter (\<lambda>e. hash1 e \<noteq> 0) es)) log err"
        by blast
      with False f None show ?thesis
        by (intro exI [of _ "((key e, valuef e), None) # log"]) (simp add: visitOK_step)
    next
      case (Some x)
      with False f Cons.prems show ?thesis
        by (intro exI [of _ "[((key e, valuef e), Some x)]"]) (auto simp: loggedKV_apply visitOK_stop)
    qed
  qed
qed

lemma Set_ForEach_loop_logged:
  "Set_ForEach_loop (loggedK f) es (st, l0) = (err, (st', l1)) \<Longrightarrow>
     \<exists>log. l1 = l0 @ log \<and> Set_ForEach_loop f es st = (err, st')
       \<and> visitOK (map key (filter (\<lambda>e. hash1 e \<noteq> 0) es)) log err"
proof (induction es arbitrary: st l0)
  case Nil
  then show ?case by (simp add: visitOK_Nil)
next
  case (Cons e es)
  show ?case
  proof (cases "hash1 e = 0")
    case True
    with Cons show ?thesis by simp
  next
    case False
    obtain r s1 where f: "f (key e) st = (r, s1)" by (cases "f (key e) st")
    show ?thesis
    proof (cases r)
      case None
      with False f Cons.prems
      have "Set_ForEach_loop (loggedK f) es (s1, l0 @ [(key e, None)]) = (err, (st', l1))"
        by (simp add: loggedK_apply)
      from Cons.IH [OF this] obtain log where
        "l1 = (l0 @ [(key e, None)]) @ log" "Set_ForEach_loop f es s1 = (err, st')"
        "visitOK (map key (filter (\<lambda>e. hash1 e \<noteq> 0) es)) log err"
        by blast
      with False f None show ?thesis
        by (intro exI [of _ "(key e, None) # log"]) (simp add: visitOK_step)
    next
      case (Some x)
      with False f Cons.prems show ?thesis
        by (intro exI [of _ "[(key e, Some x)]"]) (auto simp: loggedK_apply visitOK_stop)
    qed
  qed
qed

lemma sMap_ForEach_loop_keepKV:
  "sMap_ForEach_loop (keepKV f) a [i..<length (arrays w ! a)] (w, s)
     = Some (Inr (case Map_ForEach_loop f (drop i (arrays w ! a)) s of (r, s') \<Rightarrow> (r, (w, s'))))"
proof (induction "length (arrays w ! a) - i" arbitrary: i s)
  case 0
  then show ?case by simp
next
  case (Suc n)
  let ?es = "arrays w ! a"
  from Suc.hyps(2) have i: "i < length ?es" by simp
  then have u: "[i..<length ?es] = i # [Suc i..<length ?es]" by (rule upt_conv_Cons)
  have d: "drop i ?es = ?es ! i # drop (Suc i) ?es" using i by (simp add: Cons_nth_drop_Suc)
  have n: "n = length ?es - Suc i" using Suc.hyps(2) by simp
  note IH = Suc.hyps(1) [OF n]
  show ?case
  proof (cases "hash1 (?es ! i) = 0")
    case True
    then show ?thesis unfolding u d using IH by simp
  next
    case False
    obtain r s1 where f: "f (key (?es ! i)) (valuef (?es ! i)) s = (r, s1)"
      by (cases "f (key (?es ! i)) (valuef (?es ! i)) s")
    show ?thesis
    proof (cases r)
      case None
      with False f show ?thesis unfolding u d using IH [of s1]
        by (simp add: keepKV_def bindR_def)
    next
      case (Some e)
      with False f show ?thesis unfolding u d by (simp add: keepKV_def bindR_def)
    qed
  qed
qed

lemma sSet_ForEach_loop_keepK:
  "sSet_ForEach_loop (keepK f) a [i..<length (arrays w ! a)] (w, s)
     = Some (Inr (case Set_ForEach_loop f (drop i (arrays w ! a)) s of (r, s') \<Rightarrow> (r, (w, s'))))"
proof (induction "length (arrays w ! a) - i" arbitrary: i s)
  case 0
  then show ?case by simp
next
  case (Suc n)
  let ?es = "arrays w ! a"
  from Suc.hyps(2) have i: "i < length ?es" by simp
  then have u: "[i..<length ?es] = i # [Suc i..<length ?es]" by (rule upt_conv_Cons)
  have d: "drop i ?es = ?es ! i # drop (Suc i) ?es" using i by (simp add: Cons_nth_drop_Suc)
  have n: "n = length ?es - Suc i" using Suc.hyps(2) by simp
  note IH = Suc.hyps(1) [OF n]
  show ?case
  proof (cases "hash1 (?es ! i) = 0")
    case True
    then show ?thesis unfolding u d using IH by simp
  next
    case False
    obtain r s1 where f: "f (key (?es ! i)) s = (r, s1)" by (cases "f (key (?es ! i)) s")
    show ?thesis
    proof (cases r)
      case None
      with False f show ?thesis unfolding u d using IH [of s1]
        by (simp add: keepK_def bindR_def)
    next
      case (Some e)
      with False f show ?thesis unfolding u d by (simp add: keepK_def bindR_def)
    qed
  qed
qed

lemma sMap_ForEach_keepKV:
  "sMap_ForEach (keepKV f) (w, s)
     = Some (Inr (case Map_ForEach (sView w) f s of (r, s') \<Rightarrow> (r, (w, s'))))"
proof (cases "slice w")
  case None
  then show ?thesis by (simp add: sMap_ForEach_def Map_ForEach_def sView_def sEntries_def)
next
  case (Some a)
  then show ?thesis
    using sMap_ForEach_loop_keepKV [of f a 0 w s]
    by (simp add: sMap_ForEach_def Map_ForEach_def sView_def sEntries_def)
qed

lemma sSet_ForEach_keepK:
  "sSet_ForEach (keepK f) (w, s)
     = Some (Inr (case Set_ForEach (sSetView w) f s of (r, s') \<Rightarrow> (r, (w, s'))))"
proof (cases "slice w")
  case None
  then show ?thesis by (simp add: sSet_ForEach_def Set_ForEach_def sSetView_def)
next
  case (Some a)
  then show ?thesis
    using sSet_ForEach_loop_keepK [of f a 0 w s]
    by (simp add: sSet_ForEach_def Set_ForEach_def sSetView_def)
qed

text \<open>
  The map with the keys 10, 26 and 42 is what three calls of \<open>Put\<close> leave; its live entries
  are, in the order of the backing array, those of 26, 42 and 10.  \<open>ForEach\<close> with a visitor
  that calls \<open>m.Remove(26)\<close> when it is called with key 26: \<open>Remove\<close> clears slot 0 and moves
  42 from slot 1 to slot 0, behind the loop, so the loop finds slot 1 free.  \<open>ForEach\<close> returns
  \<open>nil\<close> after calling the visitor with 26 and with 10 only: 42, which is in the map before and
  after, is not visited.
\<close>

theorem ForEach_skips_live_entry_when_visitor_removes:
  "bindR (sMap_Put sampleHash zeroShared 10 1) (\<lambda>w1.
     bindR (sMap_Put sampleHash w1 26 2) (\<lambda>w2. sMap_Put sampleHash w2 42 3)) = Some (Inr sampleSharedC)
   \<and> sView sampleSharedC = sampleMapC
   \<and> Map_live sampleMapC = [(26, 2), (42, 3), (10, 1)]
   \<and> sMap_ForEach removingVisitor (sampleSharedC, []) = Some (Inr (None, (sampleSharedD, [26, 10])))
   \<and> sView sampleSharedD = sampleMapD
   \<and> Map_Remove sampleHash sampleMapC 26 = Some (Inr sampleMapD)
   \<and> Map_Get sampleHash sampleMapD 42 = Some (Inr (3, True))
   \<and> 42 \<notin> set [26, 10 :: int]"
  by code_simp

text \<open>
  Claim C8, as amended.  \<open>ForEach\<close> of a Map or of a Set with a visitor that does not change
  the container it is visiting (it may read it: the container is then a constant of the visitor).
  Run with the visitor wrapped to record its calls: the recorded calls are on an initial segment
  of the live entries in the order of the backing array; every call before the last returned
  \<open>nil\<close>; if \<open>ForEach\<close> returns an error, that error is the result of the last call made, so
  no later entry was visited; if it returns \<open>nil\<close>, every live entry was visited and no call
  failed.  The wrapper does not change the result or the visitor's own state.  With the container
  in a store, \<open>ForEach\<close> with such a visitor returns, leaves the store as it was, and is
  \<open>ForEach\<close> on the container as a value.
\<close>

theorem ForEach_visits_live_entries_until_first_error:
  "(Map_ForEach m (loggedKV f) (st, []) = (err, (st', log)) \<longrightarrow>
      Map_ForEach m f st = (err, st') \<and> visitOK (Map_live m) log err)
   \<and> (Set_ForEach s (loggedK g) (su, []) = (err', (su', log')) \<longrightarrow>
      Set_ForEach s g su = (err', su') \<and> visitOK (Set_live s) log' err')
   \<and> sMap_ForEach (keepKV f) (w, st)
        = Some (Inr (case Map_ForEach (sView w) f st of (r, st1) \<Rightarrow> (r, (w, st1))))
   \<and> sSet_ForEach (keepK g) (x, su)
        = Some (Inr (case Set_ForEach (sSetView x) g su of (r, su1) \<Rightarrow> (r, (x, su1))))"
  using Map_ForEach_loop_logged [of f "entries m" st "[]" err st' log]
    Set_ForEach_loop_logged [of g "entries s" su "[]" err' su' log']
  by (auto simp: Map_ForEach_def Set_ForEach_def Map_live_def Set_live_def
      sMap_ForEach_keepKV sSet_ForEach_keepK)

theorem ForEach_visits_live_entries_until_first_error_witness:
  "Map_ForEach sampleMap3 (loggedKV sampleVisitorKV) (0, [])
     = (Some ''stop'', (2, [((1, 10), None), ((2, 20), Some ''stop'')]))
   \<and> Map_ForEach sampleMap3 sampleVisitorKV 0 = (Some ''stop'', 2)
   \<and> visitOK (Map_live sampleMap3) [((1, 10), None), ((2, 20), Some ''stop'')] (Some ''stop'')
   \<and> Set_ForEach sampleSetB (loggedK sampleVisitorK) (0, []) = (None, (1, [(3, None)]))
   \<and> Set_ForEach sampleSetB sampleVisitorK 0 = (None, 1)
   \<and> visitOK (Set_live sampleSetB) [(3, None)] (None :: string option)
   \<and> sMap_ForEach (keepKV sampleVisitorKV) (sampleSharedC, 0) = Some (Inr (None, (sampleSharedC, 3)))
   \<and> sSet_ForEach (keepK sampleVisitorK) (sampleSharedSetB, 0) = Some (Inr (None, (sampleSharedSetB, 1)))"
proof -
  have m: "Map_ForEach sampleMap3 (loggedKV sampleVisitorKV) (0, [])
     = (Some ''stop'', (2, [((1, 10), None), ((2, 20), Some ''stop'')]))"
    by code_simp
  have s: "Set_ForEach sampleSetB (loggedK sampleVisitorK) (0, []) = (None, (1, [(3, None)]))"
    by code_simp
  have c: "Map_ForEach (sView sampleSharedC) sampleVisitorKV 0 = (None, 3)"
    by code_simp
  have d: "Set_ForEach (sSetView sampleSharedSetB) sampleVisitorK 0 = (None, 1)"
    by code_simp
  from ForEach_visits_live_entries_until_first_error
    [where m = sampleMap3 and f = sampleVisitorKV and st = 0 and err = "Some ''stop''" and st' = 2
       and log = "[((1, 10), None), ((2, 20), Some ''stop'')]"
       and s = sampleSetB and g = sampleVisitorK and su = 0 and err' = None and su' = 1
       and log' = "[(3, None)]" and w = sampleSharedC and x = sampleSharedSetB] m s c d
  show ?thesis by simp
qed

section \<open>Put on a key that is present\<close>

text \<open>
  Claim C1.  \<open>Put(1, 10)\<close> on the zero value gives a map in which \<open>Get(1)\<close> returns
  \<open>(10, true)\<close>.  \<open>Put(1, 20)\<close> on that map returns the map unchanged, and \<open>Get(1)\<close> still
  returns \<open>(10, true)\<close>: the value of a key that is present is not updated.
\<close>

theorem Map_Put_present_key_keeps_old_value:
  "Map_Put sampleHash zeroMap 1 10 = Some (Inr sampleMap1)
   \<and> Map_Get sampleHash sampleMap1 1 = Some (Inr (10, True))
   \<and> Map_Put sampleHash sampleMap1 1 20 = Some (Inr sampleMap1)
   \<and> bindR (Map_Put sampleHash sampleMap1 1 20) (\<lambda>m. Map_Get sampleHash m 1) = Some (Inr (10, True))"
  by code_simp

text \<open>
  Claim C2.  After \<open>Put(1, 10)\<close>, \<open>Put(2, 7)\<close>, \<open>Put(1, 20)\<close>, \<open>Remove(2)\<close> on the zero value,
  \<open>Get(1)\<close> returns \<open>(10, true)\<close>, the first value put for key 1 and not the last, and
  \<open>Get(2)\<close> returns \<open>(0, false)\<close>.
\<close>

theorem Map_Get_after_second_Put_returns_first_value:
  "bindR (Map_Put sampleHash zeroMap 1 (10::int)) (\<lambda>m1.
   bindR (Map_Put sampleHash m1 2 7) (\<lambda>m2.
   bindR (Map_Put sampleHash m2 1 20) (\<lambda>m3.
   bindR (Map_Remove sampleHash m3 2) (\<lambda>m4.
   bindR (Map_Get sampleHash m4 1) (\<lambda>r1.
   bindR (Map_Get sampleHash m4 2) (\<lambda>r2. Some (Inr (r1, r2)))))))) = Some (Inr ((10, True), (0, False)))"
  by code_simp

section \<open>Remove across the shrink threshold\<close>

lemma sampleSet8_reachable:
  "bindR (Set_AddAll sampleHash sampleE zeroSet [0, 1, 2, 3, 4, 5, 6, 7, 8, 9, 10, 11, 12])
     (\<lambda>s. Set_RemoveAll sampleHash sampleE s [8, 9, 10, 11, 12]) = Some (Inr sampleSet8)"
  by code_simp

text \<open>
  Claim C4.  The set of \<open>0, ..., 7\<close> in 32 slots is what thirteen calls of \<open>Add\<close> and five of
  \<open>Remove\<close> leave.  \<open>Remove(3)\<close> finds the key in slot 8, the size falls to 7, below a quarter of
  32, and \<open>resize(16)\<close> rebuilds the table.  The call does not return there: the inner loop is
  entered at index 9 of the rebuilt table, where the slot is live, so entries of the rebuilt table
  are cleared and added again; each returns to its slot, and the call returns the rebuilt table.
\<close>

theorem Set_Remove_repairs_after_shrink:
  "probe (entries sampleSet8) (sampleHash 3 OR fullBit) 3
       ((sampleHash 3 OR fullBit) AND lenMask (entries sampleSet8)) = Some (Inr (8, True))
   \<and> Set_resize sampleE
        (sampleSet8\<lparr>entries := (entries sampleSet8)[8 := zeroSetEntry], sizef := sizef sampleSet8 - 1,
                    hash := hash sampleSet8 XOR (sampleHash 3 OR fullBit)\<rparr>) 16 = Some (Inr sampleSet7)
   \<and> (8 + 1) AND lenMask (entries sampleSet7) = 9
   \<and> hash1 (entries sampleSet7 ! unat (9 :: 64 word)) \<noteq> 0
   \<and> Set_Remove sampleHash sampleE sampleSet8 3 = Set_repair sampleE sampleSet7 9
   \<and> Set_Remove sampleHash sampleE sampleSet8 3 = Some (Inr sampleSet7)"
  by code_simp

section \<open>Sample states are reachable\<close>

lemma sampleMap1_reach: "Map_reach sampleHash sampleMap1"
proof -
  have "Map_Put sampleHash zeroMap 1 10 = Some (Inr sampleMap1)" by code_simp
  moreover have "fits (entries sampleMap1)" by (simp add: fits_def sampleMap1_def)
  ultimately show ?thesis using Map_reach.zero by (rule Map_reach.put [rotated])
qed

lemma sampleSetAB_reachable:
  "Set_AddAll sampleHash sampleE zeroSet [1, 2] = Some (Inr sampleSetA)
   \<and> Set_AddAll sampleHash sampleE zeroSet [3] = Some (Inr sampleSetB)"
  by code_simp

lemma sampleSetA_reach: "Set_reach sampleHash sampleE sampleSetA"
proof -
  have "length [1, 2 :: int] < 2 ^ 59" by simp
  from Set_AddAll_zeroSet [OF this, of sampleHash sampleE] sampleSetAB_reachable
  show ?thesis by auto
qed

lemma sampleSetB_reach: "Set_reach sampleHash sampleE sampleSetB"
proof -
  have "length [3 :: int] < 2 ^ 59" by simp
  from Set_AddAll_zeroSet [OF this, of sampleHash sampleE] sampleSetAB_reachable
  show ?thesis by auto
qed

theorem capacity_invariant_witness:
  "Map_reach sampleHash sampleMap1 \<and> capacityOK (entries sampleMap1) (Map_Size sampleMap1)
   \<and> Set_reach sampleHash sampleE sampleSetB \<and> capacityOK (entries sampleSetB) (Set_Size sampleSetB)"
  using capacity_invariant [of sampleHash sampleMap1 sampleHash sampleE sampleSetB]
    sampleMap1_reach sampleSetB_reach by simp

theorem probing_loops_terminate_witness:
  "Map_reach sampleHash sampleMap1 \<and> entries sampleMap1 \<noteq> []
   \<and> roomy (entries sampleMap1) (Map_Size sampleMap1)
   \<and> (\<exists>r. Map_Get sampleHash sampleMap1 1 = Some (Inr r))
   \<and> (\<exists>m'. Map_Put sampleHash sampleMap1 1 20 = Some (Inr m'))
   \<and> (\<exists>m'. Map_Remove sampleHash sampleMap1 1 = Some (Inr m'))
   \<and> Set_reach sampleHash sampleE sampleSetB \<and> entries sampleSetB \<noteq> []
   \<and> roomy (entries sampleSetB) (Set_Size sampleSetB)
   \<and> (\<exists>r. Set_Contains sampleHash sampleSetB 3 = Some (Inr r))
   \<and> (\<exists>s'. Set_Add sampleHash sampleE sampleSetB 3 = Some (Inr s'))
   \<and> (\<exists>s'. Set_Remove sampleHash sampleE sampleSetB 3 = Some (Inr s'))"
proof -
  have "entries sampleMap1 \<noteq> []" by (simp add: sampleMap1_def)
  moreover have "entries sampleSetB \<noteq> []" by (simp add: sampleSetB_def)
  ultimately show ?thesis
    using probing_loops_terminate
      [of sampleHash sampleMap1 1 20 sampleHash sampleE sampleSetB 3]
      sampleMap1_reach sampleSetB_reach by simp
qed

section \<open>The hash of a set\<close>

text \<open>
  The set \<open>{3}\<close> is reachable and its \<open>Hash()\<close> differs from the exclusive-or of the tagged
  hashes of its live slots; the \<open>Hash()\<close> of the zero value has the tag bit clear.
\<close>

theorem Set_Hash_not_xor_of_live_hashes:
  "Set_Add sampleHash sampleE zeroSet 3 = Some (Inr sampleSetB)
   \<and> Set_Size sampleSetB \<noteq> 0
   \<and> Set_Hash sampleE sampleSetB \<noteq> liveXor (entries sampleSetB)
   \<and> Set_Size zeroSet = 0
   \<and> Set_Hash sampleE zeroSet AND fullBit = 0"
  by code_simp

theorem Set_Hash_is_emptySetHash_xor_live_hashes_witness:
  "Set_reach sampleHash (emptySetHash sampleHash64bits) sampleSetB
   \<and> Set_Hash (emptySetHash sampleHash64bits) sampleSetB
        = emptySetHash sampleHash64bits XOR liveXor (entries sampleSetB)
   \<and> Set_reach sampleHash (emptySetHash sampleHash64bits) zeroSet
   \<and> Set_Size (zeroSet :: int HSet) = 0
   \<and> Set_Hash (emptySetHash sampleHash64bits) (zeroSet :: int HSet) = Int_Hash sampleHash64bits 0"
proof -
  have b: "Set_reach sampleHash (emptySetHash sampleHash64bits) sampleSetB"
    using sampleSetB_reach by (simp add: sampleE_def)
  have z: "Set_reach sampleHash (emptySetHash sampleHash64bits) (zeroSet :: int HSet)"
    by (rule Set_reach.zero)
  have sz: "Set_Size (zeroSet :: int HSet) = 0" by (simp add: Set_Size_def zeroSet_def)
  from Set_Hash_is_emptySetHash_xor_live_hashes [of sampleHash sampleHash64bits sampleSetB] b
  have 1: "Set_Hash (emptySetHash sampleHash64bits) sampleSetB
        = emptySetHash sampleHash64bits XOR liveXor (entries sampleSetB)" by blast
  from Set_Hash_is_emptySetHash_xor_live_hashes [of sampleHash sampleHash64bits zeroSet] z sz
  have 2: "Set_Hash (emptySetHash sampleHash64bits) (zeroSet :: int HSet) = Int_Hash sampleHash64bits 0"
    by blast
  from b z sz 1 2 show ?thesis by blast
qed

section \<open>The operand a binary set operation scans\<close>

text \<open>
  The set \<open>{1, 2}\<close> has more live entries than the set \<open>{3}\<close>, their backing arrays have the
  same length, and \<open>IsDisjoint\<close> scans \<open>{1, 2}\<close>; \<open>Difference\<close> of \<open>{3}\<close> and \<open>{1, 2}\<close> scans
  \<open>{1, 2}\<close> too.
\<close>

theorem scan_of_operand_with_more_live_entries:
  "Set_Size sampleSetB < Set_Size sampleSetA
   \<and> scannedOperand sampleSetA sampleSetB = sampleSetA
   \<and> queriedOperand sampleSetA sampleSetB = sampleSetB
   \<and> Set_IsDisjoint sampleSetA sampleSetB = Set_scan True sampleSetB (entries sampleSetA)
   \<and> Set_Difference sampleE sampleSetB sampleSetA
        = foldR (Set_Difference_body sampleE) (entries sampleSetA) (Set_Copy sampleSetB)"
  by code_simp

theorem binary_operations_scan_shorter_array_witness:
  "Set_reach sampleHash sampleE sampleSetA \<and> Set_reach sampleHash sampleE sampleSetB
   \<and> Set_Size sampleSetA \<noteq> 0 \<and> Set_Size sampleSetB \<noteq> 0
   \<and> scannedOperand sampleSetA sampleSetB = sampleSetA
   \<and> int (length (entries (scannedOperand sampleSetA sampleSetB)))
        \<le> max 16 (4 * min (Set_Size sampleSetA) (Set_Size sampleSetB))
   \<and> Set_IsDisjoint sampleSetA sampleSetB
        = Set_scan True (queriedOperand sampleSetA sampleSetB) (entries (scannedOperand sampleSetA sampleSetB))
   \<and> Set_Difference sampleE sampleSetA sampleSetB
        = foldR (Set_Difference_body sampleE) (entries sampleSetB) (Set_Copy sampleSetA)
   \<and> (\<exists>r. Set_Union sampleE sampleSetA sampleSetB = Some (Inr r))
   \<and> Set_Equals sampleE sampleSetA sampleSetA
        = Set_scan False (queriedOperand sampleSetA sampleSetA) (entries (scannedOperand sampleSetA sampleSetA))"
proof -
  have n: "Set_Size sampleSetA \<noteq> 0" "Set_Size sampleSetB \<noteq> 0" by code_simp+
  have sc: "scannedOperand sampleSetA sampleSetB = sampleSetA" by code_simp
  from binary_operations_scan_shorter_array [of sampleHash sampleE sampleSetA sampleSetB]
    sampleSetA_reach sampleSetB_reach n
  have 1: "int (length (entries (scannedOperand sampleSetA sampleSetB)))
        \<le> max 16 (4 * min (Set_Size sampleSetA) (Set_Size sampleSetB))"
    and 2: "Set_IsDisjoint sampleSetA sampleSetB
        = Set_scan True (queriedOperand sampleSetA sampleSetB) (entries (scannedOperand sampleSetA sampleSetB))"
    and 3: "Set_Difference sampleE sampleSetA sampleSetB
        = foldR (Set_Difference_body sampleE) (entries sampleSetB) (Set_Copy sampleSetA)"
    and 4: "\<exists>r. Set_Union sampleE sampleSetA sampleSetB = Some (Inr r)"
    by blast+
  from binary_operations_scan_shorter_array [of sampleHash sampleE sampleSetA sampleSetA]
    sampleSetA_reach n
  have 5: "Set_Equals sampleE sampleSetA sampleSetA
        = Set_scan False (queriedOperand sampleSetA sampleSetA) (entries (scannedOperand sampleSetA sampleSetA))"
    by blast
  from sampleSetA_reach sampleSetB_reach n sc 1 2 3 4 5 show ?thesis by blast
qed

section \<open>Equality of sample sets\<close>

theorem Set_Equals_reflexive_symmetric_order_insensitive_witness:
  "Set_reach sampleHash sampleE sampleSetA \<and> Set_reach sampleHash sampleE sampleSetB
   \<and> Set_Equals sampleE sampleSetA sampleSetA = Some (Inr True)
   \<and> Set_Equals sampleE sampleSetA sampleSetB = Set_Equals sampleE sampleSetB sampleSetA
   \<and> Set_Equals sampleE sampleSetA sampleSetB = Some (Inr (Set_keys sampleSetA = Set_keys sampleSetB))
   \<and> set [1, 2, 3 :: int] = set [3, 2, 1]
   \<and> (\<exists>a b. Set_AddAll sampleHash sampleE zeroSet [1, 2, 3] = Some (Inr a)
          \<and> Set_AddAll sampleHash sampleE zeroSet [3, 2, 1] = Some (Inr b)
          \<and> Set_Equals sampleE a b = Some (Inr True))"
proof -
  have "set [1, 2, 3 :: int] = set [3, 2, 1]" by auto
  moreover have "length [1, 2, 3 :: int] < 2 ^ 59" "length [3, 2, 1 :: int] < 2 ^ 59" by simp_all
  ultimately show ?thesis
    using Set_Equals_reflexive_symmetric_order_insensitive
      [where H = sampleHash and E = sampleE and s = sampleSetA and t = sampleSetB
         and xs = "[1, 2, 3]" and ys = "[3, 2, 1]"]
      sampleSetA_reach sampleSetB_reach by blast
qed

end
